(* ===== verification/C_Prelude.thy ===== *)
theory C_Prelude
  imports Main "HOL-Library.Word"
begin

text \<open>
  What every component shares: the C types at their widths, pointers, memory cells that may
  be indeterminate, the outcomes C leaves undefined as values, and the allocator.

  \<^item> \<open>u16\<close>, \<open>byte\<close>, \<open>size_t\<close> are the code's \<open>uint16_t\<close>, \<open>unsigned char\<close> and
    \<open>size_t\<close> (an LP64 target).
  \<^item> \<open>ptr\<close> is a \<open>void *\<close> that is only compared, stored and handed on.
  \<^item> \<open>'a owned\<close> is a pointer to a heap block that has one owner: the block's number and
    what it holds.
  \<^item> \<open>'a cell\<close> is one element of such a block. Memory from \<open>malloc\<close>, and the tail that
    \<open>realloc\<close> adds, is \<open>Indet\<close> until it is written.
  \<^item> \<open>mem\<close> is the allocator: \<open>grant n\<close> says whether the n-th request succeeds (theorems hold
    for every such function), \<open>live\<close> is the set of blocks not yet freed.
  \<^item> \<open>cfault\<close> names what C leaves undefined. A definition that can reach it returns
    \<open>Inl\<close>; a theorem that the result is \<open>Inr\<close> says the code does not.
\<close>

type_synonym byte = "8 word"
type_synonym u16 = "16 word"
type_synonym size_t = "64 word"

datatype ptr = NULL | Addr nat

datatype 'a cell = Indet | Val (cell_val: 'a)

datatype 'a owned = ONull | Own (block: nat) (target: 'a)

datatype cfault =
    Null_Deref
  | Out_Of_Bounds
  | Indet_Read
  | Bad_Free
  | Use_After_Free
  | Div_By_Zero
  | Uninit_Mutex
  | Assert_Fail

named_theorems op_defs \<open>definitions of the operations, unfolded by the component proofs\<close>
named_theorems mem_simps \<open>how the allocator's operations change the ledger\<close>

subsection \<open>Sequencing operations that may reach undefined behaviour\<close>

definition and_then :: "'e + 'a \<Rightarrow> ('a \<Rightarrow> 'e + 'b) \<Rightarrow> 'e + 'b" where
  "and_then r f = (case r of Inl e \<Rightarrow> Inl e | Inr x \<Rightarrow> f x)"

lemma and_then_Inl [simp]: "and_then (Inl e) f = Inl e"
  by (simp add: and_then_def)

lemma and_then_Inr [simp]: "and_then (Inr x) f = f x"
  by (simp add: and_then_def)

lemma and_then_eq_Inr: "and_then r f = Inr y \<longleftrightarrow> (\<exists>x. r = Inr x \<and> f x = Inr y)"
  by (cases r) simp_all

lemma and_then_cong [fundef_cong]:
  "r = r' \<Longrightarrow> (\<And>x. r' = Inr x \<Longrightarrow> f x = g x) \<Longrightarrow> and_then r f = and_then r' g"
  by (cases r') simp_all

text \<open>The remainder of two values promoted to \<open>int\<close>; a zero divisor is undefined.\<close>

definition c_rem :: "nat \<Rightarrow> u16 \<Rightarrow> cfault + nat" where
  "c_rem n d = (if d = 0 then Inl Div_By_Zero else Inr (n mod unat d))"

lemma c_rem_pos [simp]: "0 < d \<Longrightarrow> c_rem n d = Inr (n mod unat d)"
  by (auto simp: c_rem_def)

subsection \<open>The allocator\<close>

record mem =
  grant :: "nat \<Rightarrow> bool"
  asked :: nat
  live :: "nat set"

text \<open>Block numbers are request numbers, so a block is fresh when it is handed out.\<close>

definition mem_ok :: "mem \<Rightarrow> bool" where
  "mem_ok m \<longleftrightarrow> (\<forall>b \<in> live m. b < asked m)"

text \<open>\<open>malloc\<close> and \<open>calloc\<close>: a fresh block that holds \<open>x\<close>, or \<open>NULL\<close>.\<close>

definition alloc :: "mem \<Rightarrow> 'a \<Rightarrow> 'a owned \<times> mem" where
  "alloc m x =
     (if grant m (asked m)
      then (Own (asked m) x, m\<lparr>asked := Suc (asked m), live := insert (asked m) (live m)\<rparr>)
      else (ONull, m\<lparr>asked := Suc (asked m)\<rparr>))"

text \<open>\<open>free\<close>: nothing for \<open>NULL\<close>, undefined for a block that is not live.\<close>

definition release :: "mem \<Rightarrow> 'a owned \<Rightarrow> cfault + mem" where
  "release m p =
     (case p of ONull \<Rightarrow> Inr m
      | Own b x \<Rightarrow> if b \<in> live m then Inr (m\<lparr>live := live m - {b}\<rparr>) else Inl Bad_Free)"

text \<open>
  \<open>realloc\<close> of an array to \<open>n\<close> elements: the old elements that fit, then indeterminate ones.
  When the request fails the old block stays.
\<close>

definition resize_cells :: "nat \<Rightarrow> 'a cell list \<Rightarrow> 'a cell list" where
  "resize_cells n cs = take n cs @ replicate (n - length cs) Indet"

definition realloc :: "mem \<Rightarrow> 'a cell list owned \<Rightarrow> nat \<Rightarrow> cfault + ('a cell list owned \<times> mem)" where
  "realloc m p n =
     (case p of ONull \<Rightarrow> Inr (alloc m (replicate n Indet))
      | Own b cs \<Rightarrow>
          if b \<notin> live m then Inl Bad_Free
          else (case alloc m (resize_cells n cs) of
                  (ONull, m') \<Rightarrow> Inr (ONull, m')
                | (q, m') \<Rightarrow> Inr (q, m'\<lparr>live := live m' - {b}\<rparr>)))"

lemma length_resize_cells [simp]: "length (resize_cells n cs) = n"
  by (simp add: resize_cells_def)

lemma nth_resize_cells:
  "i < n \<Longrightarrow> resize_cells n cs ! i = (if i < length cs then cs ! i else Indet)"
  by (auto simp: resize_cells_def nth_append)

lemma mem_ok_fresh: "mem_ok m \<Longrightarrow> asked m \<notin> live m"
  by (auto simp: mem_ok_def)

lemma mem_ok_freshD: "mem_ok m \<Longrightarrow> b \<in> live m \<Longrightarrow> b \<noteq> asked m"
  by (auto simp: mem_ok_def)

lemma alloc_cases:
  obtains (granted) "grant m (asked m)"
      "alloc m x = (Own (asked m) x, m\<lparr>asked := Suc (asked m), live := insert (asked m) (live m)\<rparr>)"
  | (refused) "\<not> grant m (asked m)" "alloc m x = (ONull, m\<lparr>asked := Suc (asked m)\<rparr>)"
  by (auto simp: alloc_def)

lemma alloc_granted [mem_simps]:
  "grant m (asked m) \<Longrightarrow>
   alloc m x = (Own (asked m) x, m\<lparr>asked := Suc (asked m), live := insert (asked m) (live m)\<rparr>)"
  by (simp add: alloc_def)

lemma alloc_refused [mem_simps]:
  "\<not> grant m (asked m) \<Longrightarrow> alloc m x = (ONull, m\<lparr>asked := Suc (asked m)\<rparr>)"
  by (simp add: alloc_def)

lemma mem_ok_alloc: "mem_ok m \<Longrightarrow> alloc m x = (p, m') \<Longrightarrow> mem_ok m'"
  by (auto simp: alloc_def mem_ok_def less_SucI split: if_splits)

lemma mem_ok_insert [simp]:
  "mem_ok m \<Longrightarrow> mem_ok (m\<lparr>asked := Suc (asked m), live := insert (asked m) (live m)\<rparr>)"
  by (auto simp: mem_ok_def less_SucI)

lemma mem_ok_asked [simp]: "mem_ok m \<Longrightarrow> mem_ok (m\<lparr>asked := Suc (asked m)\<rparr>)"
  by (auto simp: mem_ok_def less_SucI)

lemma mem_ok_remove [simp]: "mem_ok m \<Longrightarrow> mem_ok (m\<lparr>live := live m - B\<rparr>)"
  by (auto simp: mem_ok_def)

lemma release_null [simp]: "release m ONull = Inr m"
  by (simp add: release_def)

lemma release_live [mem_simps]:
  "b \<in> live m \<Longrightarrow> release m (Own b x) = Inr (m\<lparr>live := live m - {b}\<rparr>)"
  by (simp add: release_def)

lemma release_dead [mem_simps]: "b \<notin> live m \<Longrightarrow> release m (Own b x) = Inl Bad_Free"
  by (simp add: release_def)

text \<open>
  One owner's block \<open>b\<close> replaced by \<open>b'\<close> (the same one, or a grown copy); every other live
  block stays live and differs from \<open>b'\<close>.
\<close>

definition swaps :: "mem \<Rightarrow> nat \<Rightarrow> mem \<Rightarrow> nat \<Rightarrow> bool" where
  "swaps m b m' b' \<longleftrightarrow> mem_ok m' \<and> grant m' = grant m \<and> asked m \<le> asked m' \<and>
     b' \<in> live m' \<and> live m' - {b'} = live m - {b}"

definition same_live :: "mem \<Rightarrow> mem \<Rightarrow> bool" where
  "same_live m m' \<longleftrightarrow> mem_ok m' \<and> grant m' = grant m \<and> asked m \<le> asked m' \<and> live m' = live m"

lemma swaps_refl: "mem_ok m \<Longrightarrow> b \<in> live m \<Longrightarrow> swaps m b m b"
  by (simp add: swaps_def)

lemma swaps_grown:
  "mem_ok m \<Longrightarrow> b \<in> live m \<Longrightarrow>
   swaps m b (m\<lparr>asked := Suc (asked m), live := insert (asked m) (live m) - {b}\<rparr>) (asked m)"
  by (auto simp: swaps_def mem_ok_def less_SucI)

lemma swaps_other:
  "swaps m b m' b' \<Longrightarrow> c \<in> live m \<Longrightarrow> c \<noteq> b \<Longrightarrow> c \<in> live m' \<and> c \<noteq> b'"
  by (auto simp: swaps_def)

lemma same_live_refl: "mem_ok m \<Longrightarrow> same_live m m"
  by (simp add: same_live_def)

lemma same_live_asked: "mem_ok m \<Longrightarrow> same_live m (m\<lparr>asked := Suc (asked m)\<rparr>)"
  by (simp add: same_live_def)

subsection \<open>Reading and writing array elements through a pointer\<close>

definition load :: "'a cell list owned \<Rightarrow> nat \<Rightarrow> cfault + 'a" where
  "load p i =
     (case p of ONull \<Rightarrow> Inl Null_Deref
      | Own b cs \<Rightarrow>
          if length cs \<le> i then Inl Out_Of_Bounds
          else (case cs ! i of Indet \<Rightarrow> Inl Indet_Read | Val x \<Rightarrow> Inr x))"

definition store :: "'a cell list owned \<Rightarrow> nat \<Rightarrow> 'a \<Rightarrow> cfault + 'a cell list owned" where
  "store p i x =
     (case p of ONull \<Rightarrow> Inl Null_Deref
      | Own b cs \<Rightarrow>
          if length cs \<le> i then Inl Out_Of_Bounds else Inr (Own b (cs[i := Val x])))"

lemma load_Own [simp]:
  "load (Own b cs) i =
     (if length cs \<le> i then Inl Out_Of_Bounds
      else (case cs ! i of Indet \<Rightarrow> Inl Indet_Read | Val x \<Rightarrow> Inr x))"
  by (simp add: load_def)

lemma store_Own [simp]:
  "store (Own b cs) i x =
     (if length cs \<le> i then Inl Out_Of_Bounds else Inr (Own b (cs[i := Val x])))"
  by (simp add: store_def)

lemma load_ONull [simp]: "load ONull i = Inl Null_Deref"
  by (simp add: load_def)

lemma store_ONull [simp]: "store ONull i x = Inl Null_Deref"
  by (simp add: store_def)

text \<open>\<open>memcpy\<close> of \<open>xs\<close> to the elements from \<open>i\<close> on.\<close>

definition write_at :: "'a cell list owned \<Rightarrow> nat \<Rightarrow> 'a list \<Rightarrow> cfault + 'a cell list owned" where
  "write_at p i xs =
     (case p of ONull \<Rightarrow> Inl Null_Deref
      | Own b cs \<Rightarrow>
          if length cs < i + length xs then Inl Out_Of_Bounds
          else Inr (Own b (take i cs @ map Val xs @ drop (i + length xs) cs)))"

lemma write_at_Own [simp]:
  "write_at (Own b cs) i xs =
     (if length cs < i + length xs then Inl Out_Of_Bounds
      else Inr (Own b (take i cs @ map Val xs @ drop (i + length xs) cs)))"
  by (simp add: write_at_def)

text \<open>An array whose elements have all been written.\<close>

definition all_set :: "'a cell list \<Rightarrow> bool" where
  "all_set cs \<longleftrightarrow> Indet \<notin> set cs"

lemma all_set_map_Val [simp]: "all_set (map Val xs)"
  by (auto simp: all_set_def)

lemma all_set_conv: "all_set cs \<longleftrightarrow> (\<exists>xs. cs = map Val xs)"
proof
  assume "all_set cs"
  then have "cs = map Val (map cell_val cs)"
    by (induction cs) (auto simp: all_set_def intro: cell.collapse)
  then show "\<exists>xs. cs = map Val xs" ..
qed auto

lemma map_cell_val_Val [simp]: "map (cell_val \<circ> Val) xs = xs"
  by (induction xs) simp_all

subsection \<open>Facts about 16-bit counters\<close>

lemma u16_max: "unat (x :: u16) \<le> 65535"
  using unsigned_less [of x, where 'a = nat] by simp

lemma u16_lt: "unat (x :: u16) < 65536"
  using unsigned_less [of x, where 'a = nat] by simp

lemma unat_u16_Suc: "(x :: u16) < y \<Longrightarrow> unat (x + 1) = Suc (unat x)"
  by unat_arith

lemma unat_u16_of_nat: "n < 65536 \<Longrightarrow> unat (of_nat n :: u16) = n"
  by (simp add: unat_of_nat)

subsection \<open>Lists\<close>

lemma replicate_shift: "replicate n s @ s # zs = replicate (Suc n) s @ zs"
  by (induction n) simp_all

text \<open>Moving an element down over a run of sentinels, one write at each end.\<close>

lemma move_down:
  assumes "length xs = w" and "w < r"
  shows "(xs @ replicate (r - w) s @ z # zs)[w := z, r := s] =
    (xs @ [z]) @ replicate (r - w) s @ zs"
proof -
  obtain k where k: "r = w + Suc k" using assms(2) less_iff_Suc_add by auto
  have "(replicate k s @ z # zs)[k := s] = replicate (Suc k) s @ zs"
    by (simp add: list_update_append replicate_shift del: replicate_Suc)
  then show ?thesis
    using assms(1) k by (simp add: list_update_append)
qed

lemma mod_not_ge [simp]: "0 < n \<Longrightarrow> \<not> n \<le> k mod (n :: nat)"
  by (simp add: not_le)

text \<open>Two places of a ring that are fewer than its size apart are different.\<close>

lemma ring_neq:
  assumes "i < j" and "j < n"
  shows "(h + i) mod n \<noteq> (h + j) mod (n :: nat)"
proof
  assume "(h + i) mod n = (h + j) mod n"
  then have "n dvd j - i"
    using mod_eq_dvd_iff_nat [of "h + i" "h + j" n] assms by simp
  with assms show False by (auto dest: dvd_imp_le)
qed

end
