(* ===== verification/Fifo_Interface.thy ===== *)
theory Fifo_Interface
  imports C_Prelude
begin

text \<open>
  The contract that the clients of the two queues rely on: \<open>ezqueue.c\<close> (new connections, used
  by \<open>connmgr.c\<close>) and \<open>coin_queue.c\<close> (pending tasks, used by \<open>concurinc.c\<close>). The reference is
  a plain list with a rule \<open>admit\<close> that decides whether one more item is taken: an operation
  must give the answer the list gives, refusals included. The client's lemma carries this from
  one operation to any sequence of them.
\<close>

datatype 'a fifo_op = Enq 'a | Deq

datatype 'a fifo_answer = Accepted | Refused | Was_Empty | Got 'a

text \<open>A sequence of operations on the code's queue, with the answer to each.\<close>

fun fifo_run ::
    "('s \<Rightarrow> 'a \<Rightarrow> cfault + (bool \<times> 's)) \<Rightarrow> ('s \<Rightarrow> cfault + ('a option \<times> 's)) \<Rightarrow>
     'a fifo_op list \<Rightarrow> 's \<Rightarrow> cfault + ('a fifo_answer list \<times> 's)" where
  "fifo_run enq deq [] s = Inr ([], s)"
| "fifo_run enq deq (Enq x # ops) s =
     and_then (enq s x) (\<lambda>(ok, s).
     and_then (fifo_run enq deq ops s) (\<lambda>(ans, s).
       Inr ((if ok then Accepted else Refused) # ans, s)))"
| "fifo_run enq deq (Deq # ops) s =
     and_then (deq s) (\<lambda>(r, s).
     and_then (fifo_run enq deq ops s) (\<lambda>(ans, s).
       Inr ((case r of None \<Rightarrow> Was_Empty | Some x \<Rightarrow> Got x) # ans, s)))"

text \<open>
  The same sequence on a list. \<open>admit room n\<close> says whether a queue of \<open>n\<close> items takes another
  one, and what is left to draw on; only an empty list has nothing to give.
\<close>

fun list_run ::
    "('r \<Rightarrow> nat \<Rightarrow> bool \<times> 'r) \<Rightarrow> 'a fifo_op list \<Rightarrow> 'a list \<Rightarrow> 'r \<Rightarrow>
     'a fifo_answer list \<times> 'a list \<times> 'r" where
  "list_run admit [] xs room = ([], xs, room)"
| "list_run admit (Enq x # ops) xs room =
     (case admit room (length xs) of (ok, room') \<Rightarrow>
      case list_run admit ops (if ok then xs @ [x] else xs) room' of (ans, res) \<Rightarrow>
        ((if ok then Accepted else Refused) # ans, res))"
| "list_run admit (Deq # ops) xs room =
     (case list_run admit ops (tl xs) room of (ans, res) \<Rightarrow>
        ((case xs of [] \<Rightarrow> Was_Empty | x # _ \<Rightarrow> Got x) # ans, res))"

text \<open>What the answers say went in and came out.\<close>

fun admitted :: "'a fifo_op list \<Rightarrow> 'a fifo_answer list \<Rightarrow> 'a list" where
  "admitted (Enq x # ops) (Accepted # ans) = x # admitted ops ans"
| "admitted (_ # ops) (_ # ans) = admitted ops ans"
| "admitted _ _ = []"

fun delivered :: "'a fifo_answer list \<Rightarrow> 'a list" where
  "delivered [] = []"
| "delivered (Got x # ans) = x # delivered ans"
| "delivered (_ # ans) = delivered ans"

text \<open>First in, first out, with nothing lost or invented.\<close>

lemma list_run_order:
  "list_run admit ops xs room = (ans, ys, room') \<Longrightarrow> xs @ admitted ops ans = delivered ans @ ys"
proof (induction admit ops xs room arbitrary: ans rule: list_run.induct)
  case (2 admit x ops xs room)
  then show ?case by (auto split: prod.splits if_splits)
next
  case (3 admit ops xs room)
  then show ?case by (auto split: prod.splits list.splits)
qed simp

locale fifo =
  fixes inv :: "'s \<Rightarrow> bool"
    and contents :: "'s \<Rightarrow> 'a list"
    and room :: "'s \<Rightarrow> 'r"
    and admit :: "'r \<Rightarrow> nat \<Rightarrow> bool \<times> 'r"
    and item_ok :: "'a \<Rightarrow> bool"
    and enq :: "'s \<Rightarrow> 'a \<Rightarrow> cfault + (bool \<times> 's)"
    and deq :: "'s \<Rightarrow> cfault + ('a option \<times> 's)"
  assumes enq_law: "inv s \<Longrightarrow> item_ok x \<Longrightarrow> admit (room s) (length (contents s)) = (ok, r) \<Longrightarrow>
      \<exists>s'. enq s x = Inr (ok, s') \<and> inv s' \<and> room s' = r \<and>
        contents s' = (if ok then contents s @ [x] else contents s)"
    and deq_empty: "inv s \<Longrightarrow> contents s = [] \<Longrightarrow> deq s = Inr (None, s)"
    and deq_cons: "inv s \<Longrightarrow> contents s = x # xs \<Longrightarrow>
      \<exists>s'. deq s = Inr (Some x, s') \<and> inv s' \<and> room s' = room s \<and> contents s' = xs"
begin

lemma deq_law:
  assumes "inv s"
  shows "\<exists>s'. deq s = Inr (case contents s of [] \<Rightarrow> None | x # _ \<Rightarrow> Some x, s') \<and> inv s' \<and>
    room s' = room s \<and> contents s' = tl (contents s)"
  using deq_empty [OF assms] deq_cons [OF assms] assms by (cases "contents s") auto

text \<open>Every sequence of operations gives the answers and the contents of the list.\<close>

lemma run_refines:
  assumes "inv s" and "\<forall>x. Enq x \<in> set ops \<longrightarrow> item_ok x"
    and "list_run admit ops (contents s) (room s) = (ans, ys, r)"
  shows "\<exists>s'. fifo_run enq deq ops s = Inr (ans, s') \<and> inv s' \<and> contents s' = ys \<and> room s' = r"
  using assms
proof (induction ops arbitrary: s ans)
  case Nil
  then show ?case by simp
next
  case (Cons oper ops)
  show ?case
  proof (cases oper)
    case (Enq x)
    obtain ok r1 where ad: "admit (room s) (length (contents s)) = (ok, r1)" by fastforce
    then obtain s1 where s1: "enq s x = Inr (ok, s1)" "inv s1" "room s1 = r1"
      "contents s1 = (if ok then contents s @ [x] else contents s)"
      using enq_law Cons.prems(1,2) Enq by (metis list.set_intros(1))
    with Cons.prems(3) Enq ad obtain ans1 where
      "list_run admit ops (contents s1) (room s1) = (ans1, ys, r)"
      "ans = (if ok then Accepted else Refused) # ans1"
      by (auto split: prod.splits)
    with Cons.IH [OF s1(2) _ this(1)] Cons.prems(2) s1 Enq show ?thesis by fastforce
  next
    case Deq
    obtain s1 where s1: "deq s = Inr (case contents s of [] \<Rightarrow> None | x # _ \<Rightarrow> Some x, s1)" "inv s1"
      "room s1 = room s" "contents s1 = tl (contents s)"
      using deq_law [OF Cons.prems(1)] by blast
    with Cons.prems(3) Deq obtain ans1 where
      "list_run admit ops (contents s1) (room s1) = (ans1, ys, r)"
      "ans = (case contents s of [] \<Rightarrow> Was_Empty | x # _ \<Rightarrow> Got x) # ans1"
      by (auto split: prod.splits)
    with Cons.IH [OF s1(2) _ this(1)] Cons.prems(2) s1 Deq show ?thesis
      by (fastforce split: list.splits)
  qed
qed

end

end
