(* ===== verification/Ez_Array.thy ===== *)
theory Ez_Array
  imports C_Prelude
begin

text \<open>
  \<open>src/libs/ezarray/ezarray.c\<close>: a growable array of \<open>void *\<close>. The fields of
  \<open>ezarray_t\<close> carry the prefix \<open>ea_\<close> because \<open>ezqueue_t\<close> has fields of the same names.
  A pointer argument that may be \<open>NULL\<close> is an option: \<open>None\<close> is \<open>NULL\<close>.
  The C return values 0 and -1 are kept as integers.
\<close>

record ezarray =
  ea_pp_buf :: "ptr cell list owned"
  ea_num_items :: u16
  ea_max_items :: u16

subsection \<open>Operations\<close>

definition ezarr_init :: "mem \<Rightarrow> ezarray option \<Rightarrow> u16 \<Rightarrow> int \<times> ezarray option \<times> mem" where
  [op_defs]: "ezarr_init m p_ezarray max_items =
     (case p_ezarray of
        None \<Rightarrow> (-1, None, m)
      | Some a \<Rightarrow>
          if max_items = 0 then (-1, Some a, m)
          else (case alloc m (replicate (unat max_items) (Val NULL)) of
                  (ONull, m') \<Rightarrow> (-1, Some a, m')
                | (pp_buf, m') \<Rightarrow>
                    (0, Some (a\<lparr>ea_pp_buf := pp_buf, ea_max_items := max_items, ea_num_items := 0\<rparr>), m')))"

definition ezarr_deinit :: "mem \<Rightarrow> ezarray option \<Rightarrow> cfault + (int \<times> ezarray option \<times> mem)" where
  [op_defs]: "ezarr_deinit m p_ezarray =
     (case p_ezarray of
        None \<Rightarrow> Inr (-1, None, m)
      | Some a \<Rightarrow>
          and_then (release m (ea_pp_buf a)) (\<lambda>m'.
            Inr (0, Some (a\<lparr>ea_pp_buf := ONull, ea_num_items := 0, ea_max_items := 0\<rparr>), m')))"

text \<open>The doubling rule, written three times in the code: capped at \<open>UINT16_MAX\<close>.\<close>

definition doubled :: "u16 \<Rightarrow> u16" where
  "doubled n = (if 32767 < n then 65535 else n * 2)"

definition ezarr_resize :: "mem \<Rightarrow> ezarray \<Rightarrow> cfault + (int \<times> ezarray \<times> mem)" where
  [op_defs]: "ezarr_resize m a =
     (if ea_num_items a = 65535 then Inr (-1, a, m)
      else
        (let new_max = doubled (ea_num_items a) in
         and_then (realloc m (ea_pp_buf a) (unat new_max)) (\<lambda>(pp_tmp, m').
           case pp_tmp of
             ONull \<Rightarrow> Inr (-1, a, m')
           | _ \<Rightarrow> Inr (0, a\<lparr>ea_pp_buf := pp_tmp, ea_max_items := new_max\<rparr>, m'))))"

definition ezarr_put_last :: "ezarray \<Rightarrow> ptr \<Rightarrow> cfault + ezarray" where
  [op_defs]: "ezarr_put_last a p_item =
     and_then (store (ea_pp_buf a) (unat (ea_num_items a)) p_item) (\<lambda>pp_buf.
       Inr (a\<lparr>ea_pp_buf := pp_buf, ea_num_items := ea_num_items a + 1\<rparr>))"

definition ezarr_push :: "mem \<Rightarrow> ezarray option \<Rightarrow> ptr \<Rightarrow> cfault + (int \<times> ezarray option \<times> mem)" where
  [op_defs]: "ezarr_push m p_ezarray p_item =
     (case p_ezarray of
        None \<Rightarrow> Inr (-1, None, m)
      | Some a \<Rightarrow>
          and_then
            (if ea_num_items a = ea_max_items a then ezarr_resize m a else Inr (0, a, m))
            (\<lambda>(res, a, m).
              if res \<noteq> 0 then Inr (res, Some a, m)
              else and_then (ezarr_put_last a p_item) (\<lambda>a. Inr (0, Some a, m))))"

definition ezarr_set_at :: "ezarray option \<Rightarrow> u16 \<Rightarrow> ptr \<Rightarrow> cfault + (int \<times> ezarray option)" where
  [op_defs]: "ezarr_set_at p_ezarray idx p_item =
     (case p_ezarray of
        None \<Rightarrow> Inr (-1, None)
      | Some a \<Rightarrow>
          if ea_num_items a \<le> idx then Inr (-1, Some a)
          else and_then (store (ea_pp_buf a) (unat idx) p_item) (\<lambda>pp_buf.
                 Inr (0, Some (a\<lparr>ea_pp_buf := pp_buf\<rparr>))))"

text \<open>\<open>pp_out\<close> is the caller's variable before the call (\<open>None\<close> when \<open>NULL\<close> is passed); the
  result holds it after the call.\<close>

definition ezarr_get_at :: "ezarray option \<Rightarrow> u16 \<Rightarrow> ptr option \<Rightarrow> cfault + (int \<times> ptr option)" where
  [op_defs]: "ezarr_get_at p_ezarray idx pp_out =
     (case (p_ezarray, pp_out) of
        (Some a, Some _) \<Rightarrow>
          if ea_max_items a \<le> idx then Inr (-1, pp_out)
          else and_then (load (ea_pp_buf a) (unat idx)) (\<lambda>x. Inr (0, Some x))
      | _ \<Rightarrow> Inr (-1, pp_out))"

text \<open>
  The loop of \<open>ezarr_compact\<close>, with both indices as the \<open>uint16_t\<close> they are. It ends also at
  \<open>max_items = UINT16_MAX\<close>: the read index is strictly below the bound when it is incremented.
\<close>

function compact_loop ::
    "ptr \<Rightarrow> u16 \<Rightarrow> u16 \<Rightarrow> u16 \<Rightarrow> ptr cell list owned \<Rightarrow> cfault + (u16 \<times> ptr cell list owned)" where
  "compact_loop p_sentinel max_items read_idx write_idx pp_buf =
     (if read_idx < max_items then
        and_then (load pp_buf (unat read_idx)) (\<lambda>x.
          if x \<noteq> p_sentinel then
            and_then
              (if write_idx \<noteq> read_idx then
                 and_then (store pp_buf (unat write_idx) x) (\<lambda>pp_buf.
                   store pp_buf (unat read_idx) p_sentinel)
               else Inr pp_buf)
              (\<lambda>pp_buf. compact_loop p_sentinel max_items (read_idx + 1) (write_idx + 1) pp_buf)
          else compact_loop p_sentinel max_items (read_idx + 1) write_idx pp_buf)
      else Inr (write_idx, pp_buf))"
  by pat_completeness auto
termination
  by (relation "measure (\<lambda>(s, n, r, w, p). unat n - unat r)")
    (auto simp: unat_u16_Suc word_less_nat_alt)

declare compact_loop.simps [simp del]

definition ezarr_compact :: "ezarray option \<Rightarrow> ptr \<Rightarrow> cfault + (int \<times> ezarray option)" where
  [op_defs]: "ezarr_compact p_ezarray p_sentinel =
     (case p_ezarray of
        None \<Rightarrow> Inr (-1, None)
      | Some a \<Rightarrow>
          if ea_pp_buf a = ONull \<or> ea_max_items a = 0 then Inr (-1, Some a)
          else and_then (compact_loop p_sentinel (ea_max_items a) 0 0 (ea_pp_buf a))
                 (\<lambda>(write_idx, pp_buf).
                   Inr (0, Some (a\<lparr>ea_pp_buf := pp_buf, ea_num_items := write_idx\<rparr>))))"

subsection \<open>What an array holds\<close>

text \<open>
  \<open>ea_rep m a b xs spare\<close>: the array's block \<open>b\<close> is live, holds the items \<open>xs\<close> and then the
  \<open>spare\<close> cells up to its capacity.
\<close>

definition ea_rep :: "mem \<Rightarrow> ezarray \<Rightarrow> nat \<Rightarrow> ptr list \<Rightarrow> ptr cell list \<Rightarrow> bool" where
  "ea_rep m a b xs spare \<longleftrightarrow>
     ea_pp_buf a = Own b (map Val xs @ spare) \<and> b \<in> live m \<and>
     length xs = unat (ea_num_items a) \<and>
     length xs + length spare = unat (ea_max_items a) \<and> 0 < ea_max_items a"

definition ea_ok :: "mem \<Rightarrow> ezarray \<Rightarrow> bool" where
  "ea_ok m a \<longleftrightarrow> (\<exists>b xs spare. ea_rep m a b xs spare)"

definition ea_items :: "ezarray \<Rightarrow> ptr list" where
  "ea_items a = map cell_val (take (unat (ea_num_items a)) (target (ea_pp_buf a)))"

lemma ea_rep_items: "ea_rep m a b xs spare \<Longrightarrow> ea_items a = xs"
  by (simp add: ea_rep_def ea_items_def)

lemma ea_rep_full: "ea_rep m a b xs spare \<Longrightarrow> ea_num_items a = ea_max_items a \<longleftrightarrow> spare = []"
  by (auto simp: ea_rep_def word_unat_eq_iff)

lemma ea_rep_bound: "ea_rep m a b xs spare \<Longrightarrow> length xs + length spare \<le> 65535"
  using u16_max [of "ea_max_items a"] by (simp add: ea_rep_def)

lemma ea_okI: "ea_rep m a b xs spare \<Longrightarrow> ea_ok m a"
  by (auto simp: ea_ok_def)

lemma ea_okE:
  assumes "ea_ok m a"
  obtains b spare where "ea_rep m a b (ea_items a) spare"
  using assms by (auto simp: ea_ok_def dest: ea_rep_items)

lemma ea_rep_live: "ea_rep m a b xs spare \<Longrightarrow> b \<in> live m"
  by (simp add: ea_rep_def)

lemma ea_rep_cong: "ea_rep m a b xs spare \<Longrightarrow> b \<in> live m' \<Longrightarrow> ea_rep m' a b xs spare"
  by (simp add: ea_rep_def)

subsection \<open>Capacity\<close>

lemma unat_doubled: "unat (doubled n) = (if 32767 < unat n then 65535 else 2 * unat n)"
proof (cases "32767 < n")
  case True
  then show ?thesis by (simp add: doubled_def word_less_nat_alt)
next
  case False
  then have "unat n * 2 < 65536" by (simp add: word_less_nat_alt)
  then have "unat (n * 2) = unat n * 2"
    by (simp add: unat_word_ariths)
  with False show ?thesis by (simp add: doubled_def word_less_nat_alt)
qed

lemma doubled_grows: "0 < n \<Longrightarrow> n \<noteq> 65535 \<Longrightarrow> unat n < unat (doubled n)"
  using u16_max [of n] by (auto simp: unat_doubled word_less_nat_alt word_unat_eq_iff)

subsection \<open>Initialisation\<close>

lemma ezarr_init_ok:
  assumes "0 < max_items" and "grant m (asked m)"
  shows "ezarr_init m (Some a) max_items =
    (0, Some (a\<lparr>ea_pp_buf := Own (asked m) (replicate (unat max_items) (Val NULL)),
               ea_max_items := max_items, ea_num_items := 0\<rparr>),
     m\<lparr>asked := Suc (asked m), live := insert (asked m) (live m)\<rparr>)"
  using assms by (simp add: op_defs mem_simps)

lemma ezarr_init_rep:
  assumes "ezarr_init m (Some a) max_items = (0, Some a', m')"
  shows "ea_rep m' a' (asked m) [] (replicate (unat max_items) (Val NULL)) \<and>
    ea_max_items a' = max_items"
  using assms
  by (auto simp: op_defs alloc_def ea_rep_def word_gt_0 split: if_splits)

subsection \<open>Appending\<close>

lemma put_last_ok:
  assumes "ea_rep m a b xs (c # spare)"
  shows "\<exists>a'. ezarr_put_last a x = Inr a' \<and> ea_rep m a' b (xs @ [x]) spare \<and>
    ea_max_items a' = ea_max_items a"
proof -
  have len: "length xs = unat (ea_num_items a)" "unat (ea_num_items a) < unat (ea_max_items a)"
    using assms by (auto simp: ea_rep_def)
  have "unat (ea_num_items a + 1) = Suc (length xs)"
    using len unat_u16_Suc [of "ea_num_items a" "ea_max_items a"] by (simp add: word_less_nat_alt)
  then show ?thesis
    using assms by (auto simp: ezarr_put_last_def ea_rep_def list_update_append)
qed

lemma resize_ok:
  assumes "ea_rep m a b xs []" and "ea_num_items a \<noteq> 65535" and "grant m (asked m)" and "mem_ok m"
  shows "\<exists>a' m'. ezarr_resize m a = Inr (0, a', m') \<and>
    ea_rep m' a' (asked m) xs (replicate (unat (doubled (ea_num_items a)) - length xs) Indet) \<and>
    ea_max_items a' = doubled (ea_num_items a) \<and> ea_num_items a' = ea_num_items a \<and>
    m' = m\<lparr>asked := Suc (asked m), live := insert (asked m) (live m) - {b}\<rparr>"
proof -
  have b: "ea_pp_buf a = Own b (map Val xs)" "b \<in> live m" "length xs = unat (ea_num_items a)"
    "0 < ea_num_items a"
    using assms(1) by (auto simp: ea_rep_def word_less_nat_alt)
  then have g: "length xs < unat (doubled (ea_num_items a))"
    using doubled_grows assms(2) by simp
  then have "0 < doubled (ea_num_items a)"
    by (simp add: word_less_nat_alt)
  moreover have "b \<noteq> asked m"
    using assms(4) b(2) by (rule mem_ok_freshD)
  ultimately show ?thesis
    using b g assms(2,3)
    by (auto simp: ezarr_resize_def Let_def realloc_def mem_simps ea_rep_def resize_cells_def)
qed

lemma resize_refused:
  assumes "ea_rep m a b xs []" and "ea_num_items a = 65535 \<or> \<not> grant m (asked m)" and "mem_ok m"
  shows "\<exists>m'. ezarr_resize m a = Inr (-1, a, m') \<and> same_live m m'"
  using assms
  by (auto simp: ezarr_resize_def Let_def realloc_def mem_simps ea_rep_def same_live_refl same_live_asked)

text \<open>The three outcomes of a push: room, growth, refusal.\<close>

lemma push_room:
  assumes "ea_rep m a b xs (c # spare)"
  shows "\<exists>a'. ezarr_push m (Some a) x = Inr (0, Some a', m) \<and> ea_rep m a' b (xs @ [x]) spare \<and>
    ea_max_items a' = ea_max_items a"
  using put_last_ok [OF assms, of x] ea_rep_full [OF assms]
  by (auto simp: ezarr_push_def)

lemma push_grow:
  assumes rep: "ea_rep m a b xs []" and "length xs < 65535" and "grant m (asked m)" and "mem_ok m"
  shows "\<exists>a'. ezarr_push m (Some a) x =
      Inr (0, Some a', m\<lparr>asked := Suc (asked m), live := insert (asked m) (live m) - {b}\<rparr>) \<and>
    ea_rep (m\<lparr>asked := Suc (asked m), live := insert (asked m) (live m) - {b}\<rparr>) a' (asked m) (xs @ [x])
      (replicate (unat (doubled (ea_max_items a)) - Suc (length xs)) Indet) \<and>
    ea_max_items a' = doubled (ea_max_items a)"
proof -
  let ?m = "m\<lparr>asked := Suc (asked m), live := insert (asked m) (live m) - {b}\<rparr>"
  have full: "ea_num_items a = ea_max_items a" and len: "length xs = unat (ea_num_items a)"
    "0 < ea_max_items a"
    using rep ea_rep_full [OF rep] by (auto simp: ea_rep_def)
  have "ea_num_items a \<noteq> 65535" using len assms(2) by auto
  then obtain a' where a': "ezarr_resize m a = Inr (0, a', ?m)"
    "ea_rep ?m a' (asked m) xs (replicate (unat (doubled (ea_num_items a)) - length xs) Indet)"
    "ea_max_items a' = doubled (ea_num_items a)"
    using resize_ok [OF rep _ assms(3,4)] by blast
  have "length xs < unat (doubled (ea_num_items a))"
    using doubled_grows [of "ea_num_items a"] \<open>ea_num_items a \<noteq> 65535\<close> len full by simp
  then have "replicate (unat (doubled (ea_num_items a)) - length xs) (Indet :: ptr cell) =
      Indet # replicate (unat (doubled (ea_num_items a)) - Suc (length xs)) Indet"
    by (metis Suc_diff_Suc replicate_Suc)
  then have "ea_rep ?m a' (asked m) xs
      (Indet # replicate (unat (doubled (ea_max_items a)) - Suc (length xs)) Indet)"
    using a'(2) full by simp
  from put_last_ok [OF this, of x] show ?thesis
    using a' full by (auto simp: ezarr_push_def)
qed

lemma push_refused:
  assumes rep: "ea_rep m a b xs []" and "length xs = 65535 \<or> \<not> grant m (asked m)" and "mem_ok m"
  shows "\<exists>m'. ezarr_push m (Some a) x = Inr (-1, Some a, m') \<and> same_live m m'"
proof -
  have "ea_num_items a = ea_max_items a" "length xs = unat (ea_num_items a)"
    using rep ea_rep_full [OF rep] by (auto simp: ea_rep_def)
  moreover from this have "ea_num_items a = 65535 \<or> \<not> grant m (asked m)"
    using assms(2) by (auto simp: word_unat_eq_iff)
  ultimately show ?thesis
    using resize_refused [OF rep _ assms(3)] by (fastforce simp: ezarr_push_def)
qed

lemma push_outcome:
  assumes "ea_rep m a b xs spare" and "mem_ok m"
  shows "\<exists>res a' m'. ezarr_push m (Some a) x = Inr (res, Some a', m') \<and>
    (if spare \<noteq> [] \<or> length xs < 65535 \<and> grant m (asked m)
     then res = 0 \<and> ea_max_items a' = (if spare = [] then doubled (ea_max_items a) else ea_max_items a) \<and>
       (\<exists>b' spare'. ea_rep m' a' b' (xs @ [x]) spare' \<and> swaps m b m' b' \<and>
          (spare \<noteq> [] \<longrightarrow> m' = m \<and> b' = b \<and> spare' = tl spare))
     else res = -1 \<and> a' = a \<and> same_live m m')"
proof (cases spare)
  case (Cons c cs)
  then show ?thesis
    using push_room [of m a b xs c cs x] assms by (auto simp: swaps_refl ea_rep_live)
next
  case Nil
  show ?thesis
  proof (cases "length xs < 65535 \<and> grant m (asked m)")
    case True
    then obtain a' where "ezarr_push m (Some a) x =
        Inr (0, Some a', m\<lparr>asked := Suc (asked m), live := insert (asked m) (live m) - {b}\<rparr>)"
      "ea_rep (m\<lparr>asked := Suc (asked m), live := insert (asked m) (live m) - {b}\<rparr>) a' (asked m) (xs @ [x])
        (replicate (unat (doubled (ea_max_items a)) - Suc (length xs)) Indet)"
      "ea_max_items a' = doubled (ea_max_items a)"
      using push_grow [of m a b xs x] assms Nil by blast
    moreover have "swaps m b (m\<lparr>asked := Suc (asked m), live := insert (asked m) (live m) - {b}\<rparr>) (asked m)"
      using swaps_grown assms ea_rep_live by blast
    ultimately show ?thesis
      using True Nil by fastforce
  next
    case False
    then have "length xs = 65535 \<or> \<not> grant m (asked m)"
      using ea_rep_bound [OF assms(1)] by auto
    then show ?thesis
      using push_refused [of m a b xs x] assms Nil False by auto
  qed
qed

subsection \<open>Element access\<close>

lemma get_at_item:
  assumes "ea_rep m a b xs spare" and "unat i < length xs"
  shows "ezarr_get_at (Some a) i (Some v) = Inr (0, Some (xs ! unat i))"
  using assms by (auto simp: ezarr_get_at_def ea_rep_def nth_append word_le_nat_alt)

lemma get_at_spare:
  assumes "ea_rep m a b xs spare" and "length xs \<le> unat i" and "unat i < length xs + length spare"
  shows "ezarr_get_at (Some a) i (Some v) =
    (case spare ! (unat i - length xs) of Indet \<Rightarrow> Inl Indet_Read | Val y \<Rightarrow> Inr (0, Some y))"
  using assms
  by (auto simp: ezarr_get_at_def ea_rep_def nth_append word_le_nat_alt split: cell.splits)

lemma get_at_outside:
  assumes "ea_rep m a b xs spare" and "length xs + length spare \<le> unat i"
  shows "ezarr_get_at (Some a) i (Some v) = Inr (-1, Some v)"
  using assms by (auto simp: ezarr_get_at_def ea_rep_def word_le_nat_alt)

lemma set_at_item:
  assumes "ea_rep m a b xs spare" and "unat i < length xs"
  shows "\<exists>a'. ezarr_set_at (Some a) i x = Inr (0, Some a') \<and> ea_rep m a' b (xs[unat i := x]) spare \<and>
    ea_max_items a' = ea_max_items a \<and> ea_num_items a' = ea_num_items a"
  using assms
  by (auto simp: ezarr_set_at_def ea_rep_def word_le_nat_alt map_update list_update_append)

lemma set_at_outside:
  assumes "ea_rep m a b xs spare" and "length xs \<le> unat i"
  shows "ezarr_set_at (Some a) i x = Inr (-1, Some a)"
  using assms by (auto simp: ezarr_set_at_def ea_rep_def word_le_nat_alt)

lemma deinit_ok:
  assumes "ea_rep m a b xs spare"
  shows "ezarr_deinit m (Some a) =
    Inr (0, Some (a\<lparr>ea_pp_buf := ONull, ea_num_items := 0, ea_max_items := 0\<rparr>), m\<lparr>live := live m - {b}\<rparr>)"
  using assms by (simp add: ezarr_deinit_def ea_rep_def mem_simps)

subsection \<open>Compaction\<close>

text \<open>The loop's three ways through its body, and its exit.\<close>

lemma compact_drop:
  "r < n \<Longrightarrow> load p (unat r) = Inr s \<Longrightarrow> compact_loop s n r w p = compact_loop s n (r + 1) w p"
  by (subst compact_loop.simps) simp

lemma compact_keep:
  "r < n \<Longrightarrow> load p (unat r) = Inr x \<Longrightarrow> x \<noteq> s \<Longrightarrow>
   compact_loop s n r r p = compact_loop s n (r + 1) (r + 1) p"
  by (subst compact_loop.simps) simp

lemma compact_move:
  "r < n \<Longrightarrow> load p (unat r) = Inr x \<Longrightarrow> x \<noteq> s \<Longrightarrow> w \<noteq> r \<Longrightarrow>
   store p (unat w) x = Inr p1 \<Longrightarrow> store p1 (unat r) s = Inr p2 \<Longrightarrow>
   compact_loop s n r w p = compact_loop s n (r + 1) (w + 1) p2"
  by (subst compact_loop.simps) simp

lemma compact_stop: "\<not> r < n \<Longrightarrow> compact_loop s n r w p = Inr (w, p)"
  by (subst compact_loop.simps) simp

lemma compact_fault:
  "r < n \<Longrightarrow> load p (unat r) = Inl e \<Longrightarrow> compact_loop s n r w p = Inl e"
  by (subst compact_loop.simps) simp

text \<open>
  The loop over a stretch of written cells. \<open>ys\<close> is what it has read, \<open>zs\<close> what it reads next,
  \<open>rest\<close> the cells behind; in between the buffer holds the kept items and the sentinels that
  moving them left.
\<close>

lemma compact_loop_prefix:
  assumes "length ys = unat r" and "length ys + length zs + length rest = unat n"
    and "length (filter (\<lambda>x. x \<noteq> s) ys) = unat w"
    and "p = Own b (map Val (filter (\<lambda>x. x \<noteq> s) ys @ replicate (unat r - unat w) s @ zs) @ rest)"
  shows "\<exists>r' w'. unat r' = length (ys @ zs) \<and> unat w' = length (filter (\<lambda>x. x \<noteq> s) (ys @ zs)) \<and>
    compact_loop s n r w p =
    compact_loop s n r' w' (Own b (map Val (filter (\<lambda>x. x \<noteq> s) (ys @ zs) @
      replicate (unat r' - unat w') s) @ rest))"
  using assms
proof (induction zs arbitrary: ys r w p)
  case Nil
  then show ?case by (intro exI [of _ r] exI [of _ w]) simp
next
  case (Cons z zs)
  let ?A = "filter (\<lambda>x. x \<noteq> s) ys"
  have rn: "r < n" using Cons.prems by (simp add: word_less_nat_alt)
  have A: "length ?A = unat w" using Cons.prems by simp
  have wr: "unat w \<le> unat r"
    using Cons.prems length_filter_le [of "\<lambda>x. x \<noteq> s" ys] by simp
  have r1: "unat (r + 1) = Suc (unat r)" using rn by (rule unat_u16_Suc)
  have w1: "unat (w + 1) = Suc (unat w)"
    using unat_u16_Suc [of w n] wr rn by (simp add: word_less_nat_alt)
  have ld: "load p (unat r) = Inr z"
    using A wr Cons.prems(4) by (simp add: nth_append)
  show ?case
  proof (cases "z = s")
    case True
    have "p = Own b (map Val (filter (\<lambda>x. x \<noteq> s) (ys @ [z]) @
        replicate (unat (r + 1) - unat w) s @ zs) @ rest)"
      using Cons.prems(4) wr r1 True
      by (simp add: Suc_diff_le replicate_shift del: replicate_Suc map_append)
    from Cons.IH [OF _ _ _ this] compact_drop [OF rn] ld Cons.prems True r1 show ?thesis by simp
  next
    case keep: False
    show ?thesis
    proof (cases "w = r")
      case True
      then have "p = Own b (map Val (filter (\<lambda>x. x \<noteq> s) (ys @ [z]) @
          replicate (unat (r + 1) - unat (w + 1)) s @ zs) @ rest)"
        using Cons.prems(4) keep by simp
      from Cons.IH [OF _ _ _ this] compact_keep [OF rn ld keep] Cons.prems keep r1 w1 True
      show ?thesis by simp
    next
      case False
      then have lt: "unat w < unat r" using wr by (simp add: word_unat_eq_iff)
      let ?B = "map Val (?A @ replicate (unat r - unat w) s @ z # zs) @ rest"
      let ?q = "Own b (map Val ((?A @ [z]) @ replicate (unat r - unat w) s @ zs) @ rest)"
      have len: "unat r < length (map Val (?A @ replicate (unat r - unat w) s @ z # zs))"
        using A lt by simp
      have "?B[unat w := Val z, unat r := Val s] =
          map Val ((?A @ [z]) @ replicate (unat r - unat w) s @ zs) @ rest"
        using move_down [OF A lt, of s z zs] len lt
        by (simp add: list_update_append1 map_update [symmetric] del: map_append)
      then have st: "store p (unat w) z = Inr (Own b (?B[unat w := Val z]))"
          "store (Own b (?B[unat w := Val z])) (unat r) s = Inr ?q"
        using Cons.prems(4) len lt by (simp_all del: map_append)
      have "?q = Own b (map Val (filter (\<lambda>x. x \<noteq> s) (ys @ [z]) @
          replicate (unat (r + 1) - unat (w + 1)) s @ zs) @ rest)"
        using keep r1 w1 by simp
      from Cons.IH [OF _ _ _ this] compact_move [OF rn ld keep False st] Cons.prems keep r1 w1
      show ?thesis by simp
    qed
  qed
qed

lemma compact_loop_all:
  assumes "length zs = unat n"
  shows "\<exists>w. unat w = length (filter (\<lambda>x. x \<noteq> s) zs) \<and>
    compact_loop s n 0 0 (Own b (map Val zs)) =
      Inr (w, Own b (map Val (filter (\<lambda>x. x \<noteq> s) zs @ replicate (unat n - unat w) s)))"
proof -
  obtain r w where "unat r = length zs" "unat w = length (filter (\<lambda>x. x \<noteq> s) zs)"
    "compact_loop s n 0 0 (Own b (map Val zs)) =
      compact_loop s n r w (Own b (map Val (filter (\<lambda>x. x \<noteq> s) zs @ replicate (unat r - unat w) s)))"
    using compact_loop_prefix [of "[]" 0 zs "[]" n s 0 "Own b (map Val zs)" b] assms by auto
  moreover from this assms have "\<not> r < n" by (simp add: word_less_nat_alt)
  ultimately show ?thesis
    using assms by (auto simp: compact_stop)
qed

text \<open>A cell that was never written stops the pass: the comparison reads it.\<close>

lemma compact_loop_indet:
  assumes "length zs + Suc (length rest) = unat n"
  shows "compact_loop s n 0 0 (Own b (map Val zs @ Indet # rest)) = Inl Indet_Read"
proof -
  obtain r w where r: "unat r = length zs" and w: "unat w = length (filter (\<lambda>x. x \<noteq> s) zs)"
    and eq: "compact_loop s n 0 0 (Own b (map Val zs @ Indet # rest)) =
      compact_loop s n r w (Own b (map Val (filter (\<lambda>x. x \<noteq> s) zs @ replicate (unat r - unat w) s)
        @ Indet # rest))"
    using compact_loop_prefix [of "[]" 0 zs "Indet # rest" n s 0 _ b] assms by auto
  have "r < n" using r assms by (simp add: word_less_nat_alt)
  moreover have "unat w \<le> unat r" using r w length_filter_le [of "\<lambda>x. x \<noteq> s" zs] by simp
  ultimately show ?thesis
    using w by (simp add: eq compact_fault nth_append)
qed

subsection \<open>Properties\<close>

definition demo_mem :: mem where
  "demo_mem = \<lparr>grant = (\<lambda>n. n < 5), asked = 1, live = {0}\<rparr>"

definition demo_array :: ezarray where
  "demo_array = \<lparr>ea_pp_buf = Own 0 [Val (Addr 7), Val NULL, Val (Addr 9)], ea_num_items = 3, ea_max_items = 3\<rparr>"

lemma demo_array_rep: "ea_rep demo_mem demo_array 0 [Addr 7, NULL, Addr 9] []"
  by (simp add: ea_rep_def demo_mem_def demo_array_def)

lemma demo_mem_ok: "mem_ok demo_mem"
  by (simp add: mem_ok_def demo_mem_def)

text \<open>
  C31: \<open>ezarr_compact\<close> on a well-formed array whose spare cells have all been written keeps, in
  order, exactly the pointers that differ from the sentinel, over the whole capacity; what is
  behind them is the sentinel, and \<open>num_items\<close> is their number.
\<close>

theorem ezarr_compact_filters:
  assumes "ea_rep m a b xs (map Val ys)"
  shows "\<exists>a'. ezarr_compact (Some a) s = Inr (0, Some a') \<and>
    ea_rep m a' b (filter (\<lambda>x. x \<noteq> s) (xs @ ys))
      (replicate (length (xs @ ys) - length (filter (\<lambda>x. x \<noteq> s) (xs @ ys))) (Val s)) \<and>
    ea_max_items a' = ea_max_items a"
proof -
  have rep: "ea_pp_buf a = Own b (map Val (xs @ ys))" "b \<in> live m"
    "length (xs @ ys) = unat (ea_max_items a)" "0 < ea_max_items a"
    using assms by (auto simp: ea_rep_def)
  obtain w where "unat w = length (filter (\<lambda>x. x \<noteq> s) (xs @ ys))"
    "compact_loop s (ea_max_items a) 0 0 (ea_pp_buf a) =
      Inr (w, Own b (map Val (filter (\<lambda>x. x \<noteq> s) (xs @ ys) @ replicate (unat (ea_max_items a) - unat w) s)))"
    using compact_loop_all [OF rep(3)] rep(1) by metis
  moreover have "length (filter (\<lambda>x. x \<noteq> s) (xs @ ys)) \<le> unat (ea_max_items a)"
    using length_filter_le rep(3) by metis
  ultimately show ?thesis
    using rep by (simp add: ezarr_compact_def ea_rep_def)
qed

theorem ezarr_compact_filters_witness:
  "\<exists>a'. ezarr_compact (Some demo_array) NULL = Inr (0, Some a') \<and>
     ea_rep demo_mem a' 0 [Addr 7, Addr 9] [Val NULL]"
  using ezarr_compact_filters [of demo_mem demo_array 0 "[Addr 7, NULL, Addr 9]" "[]" NULL] demo_array_rep
  by auto

text \<open>
  C33: \<open>ezarr_compact\<close> relies on every cell up to the capacity having been written, which
  \<open>calloc\<close> gives and \<open>realloc\<close> does not: once a push has grown an array of two or more
  items, compacting it compares memory that was never written, whatever the sentinel is.
\<close>

theorem ezarr_compact_after_growth_reads_indeterminate:
  assumes "ea_rep m a b xs []" and "2 \<le> length xs" and "length xs < 65534"
    and "grant m (asked m)" and "mem_ok m"
  shows "\<exists>a' m'. ezarr_push m (Some a) x = Inr (0, Some a', m') \<and>
    ezarr_compact (Some a') s = Inl Indet_Read"
proof -
  let ?d = "doubled (ea_max_items a)"
  let ?m = "m\<lparr>asked := Suc (asked m), live := insert (asked m) (live m) - {b}\<rparr>"
  obtain a' where a': "ezarr_push m (Some a) x = Inr (0, Some a', ?m)"
    "ea_rep ?m a' (asked m) (xs @ [x]) (replicate (unat ?d - Suc (length xs)) Indet)"
    using push_grow [OF assms(1) _ assms(4,5), of x] assms(3) by auto
  have "length xs = unat (ea_max_items a)" using assms(1) by (simp add: ea_rep_def)
  then obtain k where k: "unat ?d - Suc (length xs) = Suc k"
    using assms(2,3) unat_doubled [of "ea_max_items a"] by (cases "unat ?d - Suc (length xs)") (auto split: if_splits)
  then have "ea_pp_buf a' = Own (asked m) (map Val (xs @ [x]) @ Indet # replicate k Indet)"
    "length (xs @ [x]) + Suc k = unat (ea_max_items a')" "0 < ea_max_items a'"
    using a'(2) by (auto simp: ea_rep_def)
  then have "ezarr_compact (Some a') s = Inl Indet_Read"
    using compact_loop_indet [of "xs @ [x]" "replicate k Indet" "ea_max_items a'" s "asked m"]
    by (simp add: ezarr_compact_def word_gt_0)
  with a'(1) show ?thesis by blast
qed

theorem ezarr_compact_after_growth_reads_indeterminate_witness:
  "\<exists>a' m'. ezarr_push demo_mem (Some demo_array) (Addr 4) = Inr (0, Some a', m') \<and>
     ezarr_compact (Some a') NULL = Inl Indet_Read"
  by (rule ezarr_compact_after_growth_reads_indeterminate [OF demo_array_rep _ _ _ demo_mem_ok])
    (simp_all add: demo_mem_def)

text \<open>
  \<open>ezarr_deinit\<close> frees the one block the array owns and no other, leaves a state on which
  a second \<open>ezarr_deinit\<close> is harmless, and on which every later push is either refused or
  writes outside the zero-byte buffer \<open>realloc\<close> returned: a capacity of 0 doubles to 0.
\<close>

lemma ezarr_deinit_releases:
  assumes "ea_rep m a b xs spare"
  shows "\<exists>a' m'. ezarr_deinit m (Some a) = Inr (0, Some a', m') \<and> live m' = live m - {b} \<and>
    ezarr_deinit m' (Some a') = Inr (0, Some a', m') \<and>
    (ezarr_push m' (Some a') x = Inl Out_Of_Bounds \<or>
     (\<exists>m''. ezarr_push m' (Some a') x = Inr (-1, Some a', m'')))"
  using deinit_ok [OF assms]
  by (auto simp: ezarr_deinit_def ezarr_push_def ezarr_resize_def ezarr_put_last_def realloc_def
      alloc_def doubled_def)

end
