(* ===== verification/Ez_Queue.thy ===== *)
theory Ez_Queue
  imports Fifo_Interface Ez_Array
begin

text \<open>
  \<open>src/libs/ezqueue/ezqueue.c\<close>: a growable ring buffer of \<open>void *\<close>. The fields of
  \<open>ezqueue_t\<close> carry the prefix \<open>eq_\<close>; -1 stored in a \<open>uint16_t\<close> index is 65535.
\<close>

record ezqueue =
  eq_pp_buf :: "ptr cell list owned"
  eq_num_items :: u16
  eq_max_items :: u16
  eq_idx_head :: u16
  eq_idx_tail :: u16

subsection \<open>Operations\<close>

definition ezq_init :: "mem \<Rightarrow> ezqueue option \<Rightarrow> u16 \<Rightarrow> int \<times> ezqueue option \<times> mem" where
  [op_defs]: "ezq_init m p_ezqueue max_items =
     (case p_ezqueue of
        None \<Rightarrow> (-1, None, m)
      | Some q \<Rightarrow>
          if max_items = 0 then (-1, Some q, m)
          else (case alloc m (replicate (unat max_items) Indet) of
                  (ONull, m') \<Rightarrow> (-1, Some q, m')
                | (p_buf, m') \<Rightarrow>
                    (0, Some (q\<lparr>eq_pp_buf := p_buf, eq_max_items := max_items,
                               eq_idx_head := -1, eq_idx_tail := -1, eq_num_items := 0\<rparr>), m')))"

definition ezq_deinit :: "mem \<Rightarrow> ezqueue option \<Rightarrow> cfault + (int \<times> ezqueue option \<times> mem)" where
  [op_defs]: "ezq_deinit m p_ezqueue =
     (case p_ezqueue of
        None \<Rightarrow> Inr (-1, None, m)
      | Some q \<Rightarrow>
          and_then (release m (eq_pp_buf q)) (\<lambda>m'.
            Inr (0, Some (q\<lparr>eq_pp_buf := ONull, eq_num_items := 0, eq_idx_head := -1,
                           eq_idx_tail := -1, eq_max_items := 0\<rparr>), m')))"

text \<open>
  The copying loop of \<open>ezq_resize\<close>. The source index is computed in \<open>int\<close>, so it does not
  wrap at 16 bits before the remainder is taken.
\<close>

fun copy_loop ::
    "ezqueue \<Rightarrow> nat \<Rightarrow> nat \<Rightarrow> ptr cell list owned \<Rightarrow> cfault + ptr cell list owned" where
  "copy_loop q idx 0 pp_newbuf = Inr pp_newbuf"
| "copy_loop q idx (Suc left) pp_newbuf =
     and_then (c_rem (unat (eq_idx_head q) + idx) (eq_max_items q)) (\<lambda>src.
     and_then (load (eq_pp_buf q) src) (\<lambda>x.
     and_then (store pp_newbuf idx x) (\<lambda>pp_newbuf.
       copy_loop q (Suc idx) left pp_newbuf)))"

definition ezq_resize :: "mem \<Rightarrow> ezqueue option \<Rightarrow> cfault + (int \<times> ezqueue option \<times> mem)" where
  [op_defs]: "ezq_resize m p_queue =
     (case p_queue of
        None \<Rightarrow> Inr (-1, None, m)
      | Some q \<Rightarrow>
          if eq_max_items q = 65535 then Inr (-1, Some q, m)
          else
            (let new_max = doubled (eq_max_items q) in
             case alloc m (replicate (unat new_max) Indet) of
               (ONull, m') \<Rightarrow> Inr (-1, Some q, m')
             | (pp_newbuf, m') \<Rightarrow>
                 and_then (copy_loop q 0 (unat (eq_num_items q)) pp_newbuf) (\<lambda>pp_newbuf.
                 and_then (release m' (eq_pp_buf q)) (\<lambda>m'.
                   Inr (0, Some (q\<lparr>eq_pp_buf := pp_newbuf, eq_max_items := new_max,
                                  eq_idx_head := 0, eq_idx_tail := eq_num_items q - 1\<rparr>), m')))))"

text \<open>The part of \<open>ezq_enqueue\<close> after the resize.\<close>

definition ezq_put :: "ezqueue \<Rightarrow> ptr \<Rightarrow> cfault + ezqueue" where
  [op_defs]: "ezq_put q p_item =
     and_then
       (if eq_num_items q = 0 then Inr (q\<lparr>eq_idx_head := 0, eq_idx_tail := 0\<rparr>)
        else and_then (c_rem (unat (eq_idx_tail q) + 1) (eq_max_items q)) (\<lambda>t.
               Inr (q\<lparr>eq_idx_tail := of_nat t\<rparr>)))
       (\<lambda>q. and_then (store (eq_pp_buf q) (unat (eq_idx_tail q)) p_item) (\<lambda>pp_buf.
              Inr (q\<lparr>eq_pp_buf := pp_buf, eq_num_items := eq_num_items q + 1\<rparr>)))"

definition ezq_enqueue :: "mem \<Rightarrow> ezqueue option \<Rightarrow> ptr \<Rightarrow> cfault + (int \<times> ezqueue option \<times> mem)" where
  [op_defs]: "ezq_enqueue m p_ezqueue p_item =
     (case p_ezqueue of
        None \<Rightarrow> Inr (-1, None, m)
      | Some q \<Rightarrow>
          and_then
            (if eq_num_items q = eq_max_items q then ezq_resize m (Some q) else Inr (0, Some q, m))
            (\<lambda>(res, p_ezqueue, m).
              if res \<noteq> 0 then Inr (res, p_ezqueue, m)
              else (case p_ezqueue of
                      None \<Rightarrow> Inl Null_Deref
                    | Some q \<Rightarrow> and_then (ezq_put q p_item) (\<lambda>q. Inr (0, Some q, m)))))"

definition ezq_dequeue ::
    "ezqueue option \<Rightarrow> ptr option \<Rightarrow> cfault + (int \<times> ezqueue option \<times> ptr option)" where
  [op_defs]: "ezq_dequeue p_ezqueue pp_out =
     (case (p_ezqueue, pp_out) of
        (Some q, Some _) \<Rightarrow>
          if eq_num_items q = 0 then Inr (-1, Some q, pp_out)
          else and_then (load (eq_pp_buf q) (unat (eq_idx_head q))) (\<lambda>x.
            if eq_num_items q = 1 then
              Inr (0, Some (q\<lparr>eq_idx_head := -1, eq_idx_tail := -1,
                             eq_num_items := eq_num_items q - 1\<rparr>), Some x)
            else and_then (c_rem (unat (eq_idx_head q) + 1) (eq_max_items q)) (\<lambda>h.
              Inr (0, Some (q\<lparr>eq_idx_head := of_nat h, eq_num_items := eq_num_items q - 1\<rparr>), Some x)))
      | _ \<Rightarrow> Inr (-1, p_ezqueue, pp_out))"

lemma ezq_dequeue_shrinks:
  assumes "ezq_dequeue (Some q) (Some v) = Inr (res, p, out)" and "0 < eq_num_items q"
  shows "\<exists>q' x. p = Some q' \<and> out = Some x \<and> res = 0 \<and>
    unat (eq_num_items q) = Suc (unat (eq_num_items q'))"
proof -
  have "unat (eq_num_items q - 1) = unat (eq_num_items q) - 1" "0 < unat (eq_num_items q)"
    using assms(2) by unat_arith+
  then show ?thesis
    using assms by (auto simp: ezq_dequeue_def and_then_eq_Inr split: if_splits)
qed

text \<open>
  \<open>ezq_clear\<close>: the caller's \<open>free_func\<close> acts on a state \<open>s\<close> (\<open>None\<close> when \<open>NULL\<close> is passed).
  The loop ends because a dequeue that is not refused lowers \<open>num_items\<close>.
\<close>

function clear_loop ::
    "(ptr \<Rightarrow> 's \<Rightarrow> cfault + 's) option \<Rightarrow> ezqueue \<Rightarrow> 's \<Rightarrow> cfault + (ezqueue \<times> 's)" where
  "clear_loop free_func q s =
     (if 0 < eq_num_items q then
        and_then (ezq_dequeue (Some q) (Some NULL)) (\<lambda>(_, p, out).
          case (p, out) of
            (Some q', Some p_item) \<Rightarrow>
              and_then
                (case free_func of
                   None \<Rightarrow> Inr s
                 | Some f \<Rightarrow> if p_item \<noteq> NULL then f p_item s else Inr s)
                (\<lambda>s. clear_loop free_func q' s)
          | _ \<Rightarrow> Inl Null_Deref)
      else Inr (q, s))"
  by pat_completeness auto
termination
  by (relation "measure (\<lambda>(f, q, s). unat (eq_num_items q))") (auto dest!: ezq_dequeue_shrinks)

declare clear_loop.simps [simp del]

definition ezq_clear ::
    "ezqueue option \<Rightarrow> (ptr \<Rightarrow> 's \<Rightarrow> cfault + 's) option \<Rightarrow> 's \<Rightarrow>
     cfault + (int \<times> ezqueue option \<times> 's)" where
  [op_defs]: "ezq_clear p_ezqueue free_func s =
     (case p_ezqueue of
        None \<Rightarrow> Inr (-1, None, s)
      | Some q \<Rightarrow> and_then (clear_loop free_func q s) (\<lambda>(q, s). Inr (0, Some q, s)))"

subsection \<open>What a queue holds\<close>

text \<open>
  \<open>eq_rep m q b xs\<close>: block \<open>b\<close> is live and holds the queue's items \<open>xs\<close>, the i-th at index
  \<open>(idx_head + i) mod max_items\<close>, and \<open>idx_tail\<close> is the place of the last one.
\<close>

definition eq_rep :: "mem \<Rightarrow> ezqueue \<Rightarrow> nat \<Rightarrow> ptr list \<Rightarrow> bool" where
  "eq_rep m q b xs \<longleftrightarrow>
     (\<exists>cs. eq_pp_buf q = Own b cs \<and> length cs = unat (eq_max_items q) \<and>
       (\<forall>i < length xs. cs ! ((unat (eq_idx_head q) + i) mod unat (eq_max_items q)) = Val (xs ! i))) \<and>
     b \<in> live m \<and> 0 < eq_max_items q \<and>
     length xs = unat (eq_num_items q) \<and> eq_num_items q \<le> eq_max_items q \<and>
     (xs \<noteq> [] \<longrightarrow> eq_idx_head q < eq_max_items q \<and>
        unat (eq_idx_tail q) = (unat (eq_idx_head q) + (length xs - 1)) mod unat (eq_max_items q))"

definition eq_items :: "ezqueue \<Rightarrow> ptr list" where
  "eq_items q = map (\<lambda>i. cell_val
     (target (eq_pp_buf q) ! ((unat (eq_idx_head q) + i) mod unat (eq_max_items q)))) [0..<unat (eq_num_items q)]"

lemma eq_rep_items: "eq_rep m q b xs \<Longrightarrow> eq_items q = xs"
  by (auto simp: eq_rep_def eq_items_def intro!: nth_equalityI)

lemma eq_rep_live: "eq_rep m q b xs \<Longrightarrow> b \<in> live m"
  by (simp add: eq_rep_def)

lemma eq_rep_cong: "eq_rep m q b xs \<Longrightarrow> b \<in> live m' \<Longrightarrow> eq_rep m' q b xs"
  unfolding eq_rep_def by blast

lemma eq_rep_max_pos: "eq_rep m q b xs \<Longrightarrow> 0 < unat (eq_max_items q)"
  by (simp add: eq_rep_def word_less_nat_alt)

lemma eq_rep_len: "eq_rep m q b xs \<Longrightarrow> length xs = unat (eq_num_items q)"
  by (simp add: eq_rep_def)

lemma eq_rep_bound: "eq_rep m q b xs \<Longrightarrow> length xs \<le> unat (eq_max_items q)"
  by (simp add: eq_rep_def word_le_nat_alt)

lemma eq_rep_full: "eq_rep m q b xs \<Longrightarrow> eq_num_items q = eq_max_items q \<longleftrightarrow> length xs = unat (eq_max_items q)"
  by (auto simp: eq_rep_def word_unat_eq_iff)

lemma ezq_init_rep:
  assumes "ezq_init m (Some q) max_items = (0, Some q', m')"
  shows "eq_rep m' q' (asked m) [] \<and> eq_max_items q' = max_items"
  using assms by (auto simp: op_defs alloc_def eq_rep_def word_gt_0 split: if_splits)

lemma ezq_init_ok:
  assumes "0 < max_items" and "grant m (asked m)"
  shows "ezq_init m (Some q) max_items =
    (0, Some (q\<lparr>eq_pp_buf := Own (asked m) (replicate (unat max_items) Indet), eq_max_items := max_items,
               eq_idx_head := -1, eq_idx_tail := -1, eq_num_items := 0\<rparr>),
     m\<lparr>asked := Suc (asked m), live := insert (asked m) (live m)\<rparr>)"
  using assms by (simp add: op_defs mem_simps)

subsection \<open>Enqueue\<close>

lemma put_ok:
  assumes rep: "eq_rep m q b xs" and room: "length xs < unat (eq_max_items q)"
  shows "\<exists>q'. ezq_put q x = Inr q' \<and> eq_rep m q' b (xs @ [x]) \<and> eq_max_items q' = eq_max_items q"
proof -
  let ?h = "unat (eq_idx_head q)" and ?n = "unat (eq_max_items q)"
  obtain cs where cs: "eq_pp_buf q = Own b cs" "length cs = ?n"
    "\<And>i. i < length xs \<Longrightarrow> cs ! ((?h + i) mod ?n) = Val (xs ! i)"
    using rep by (auto simp: eq_rep_def)
  have len: "length xs = unat (eq_num_items q)" using rep by (rule eq_rep_len)
  have num: "unat (eq_num_items q + 1) = Suc (length xs)"
    using len room unat_u16_Suc [of "eq_num_items q" "eq_max_items q"] by (simp add: word_less_nat_alt)
  have n: "0 < ?n" using room by simp
  show ?thesis
  proof (cases "xs = []")
    case True
    then have "eq_num_items q = 0" using len by (simp add: unat_eq_zero)
    with True cs num n rep show ?thesis
      by (auto simp: ezq_put_def eq_rep_def word_le_nat_alt word_less_nat_alt)
  next
    case False
    then have nz: "eq_num_items q \<noteq> 0" using len by auto
    let ?t = "(?h + length xs) mod ?n"
    have tail: "unat (eq_idx_tail q) = (?h + (length xs - 1)) mod ?n" "?h < ?n"
      using rep False by (auto simp: eq_rep_def word_less_nat_alt)
    have "(unat (eq_idx_tail q) + 1) mod ?n = ?t"
      using False unfolding tail(1) by (cases xs) (simp_all add: mod_Suc_eq)
    moreover have t16: "unat (of_nat ?t :: u16) = ?t"
      using n u16_lt [of "eq_max_items q"] mod_less_divisor [OF n]
      by (intro unat_u16_of_nat) (meson less_trans)
    moreover have "?t < length cs" using cs n by simp
    ultimately have put: "ezq_put q x = Inr (q\<lparr>eq_idx_tail := of_nat ?t,
        eq_pp_buf := Own b (cs[?t := Val x]), eq_num_items := eq_num_items q + 1\<rparr>)"
      using nz cs n by (simp add: ezq_put_def word_less_nat_alt)
    have "(cs[?t := Val x]) ! ((?h + i) mod ?n) = Val ((xs @ [x]) ! i)" if "i < Suc (length xs)" for i
      using that cs room n ring_neq [of i "length xs" ?n ?h]
      by (cases "i = length xs") (auto simp: nth_append)
    then show ?thesis
      unfolding put using rep cs num t16 tail room False
      by (auto simp: eq_rep_def word_le_nat_alt)
  qed
qed

lemma copy_loop_ok:
  assumes "eq_rep m q b xs" and "idx + left = length xs" and "length xs \<le> length ds"
    and "take idx ds = map Val (take idx xs)"
  shows "copy_loop q idx left (Own nb ds) = Inr (Own nb (map Val xs @ drop (length xs) ds))"
  using assms(2-4)
proof (induction left arbitrary: idx ds)
  case 0
  then show ?case
    by (metis Nat.add_0_right append_take_drop_id copy_loop.simps(1) order_refl take_all_iff)
next
  case (Suc left)
  let ?k = "(unat (eq_idx_head q) + idx) mod unat (eq_max_items q)"
  have lt: "idx < length xs" "idx < length ds" using Suc.prems by auto
  have ld: "load (eq_pp_buf q) ?k = Inr (xs ! idx)"
    using assms(1) lt(1) eq_rep_max_pos [OF assms(1)] unfolding eq_rep_def by fastforce
  have "take (Suc idx) (ds[idx := Val (xs ! idx)]) = map Val (take (Suc idx) xs)"
    using Suc.prems(3) lt by (simp add: take_Suc_conv_app_nth)
  then have "copy_loop q (Suc idx) left (Own nb (ds[idx := Val (xs ! idx)])) =
      Inr (Own nb (map Val xs @ drop (length xs) ds))"
    using Suc.IH [of "Suc idx" "ds[idx := Val (xs ! idx)]"] Suc.prems lt by simp
  then show ?case
    using ld lt assms(1) by (simp add: eq_rep_def)
qed

lemma qresize_ok:
  assumes rep: "eq_rep m q b xs" and full: "eq_num_items q = eq_max_items q"
    and "eq_max_items q \<noteq> 65535" and "grant m (asked m)" and "mem_ok m"
  shows "\<exists>q'. ezq_resize m (Some q) =
      Inr (0, Some q', m\<lparr>asked := Suc (asked m), live := insert (asked m) (live m) - {b}\<rparr>) \<and>
    eq_rep (m\<lparr>asked := Suc (asked m), live := insert (asked m) (live m) - {b}\<rparr>) q' (asked m) xs \<and>
    eq_max_items q' = doubled (eq_max_items q) \<and> eq_num_items q' = eq_num_items q"
proof -
  let ?d = "doubled (eq_max_items q)"
  let ?ds = "map Val xs @ replicate (unat ?d - length xs) Indet"
  have b: "b \<in> live m" "b \<noteq> asked m"
    using rep assms(5) by (auto simp: eq_rep_live mem_ok_freshD)
  have len: "length xs = unat (eq_num_items q)" and pos: "0 < unat (eq_max_items q)"
    using rep by (auto simp: eq_rep_len eq_rep_max_pos)
  have d: "length xs < unat ?d"
    using doubled_grows [of "eq_max_items q"] assms(3) pos full len by (simp add: word_less_nat_alt)
  have "copy_loop q 0 (unat (eq_num_items q)) (Own (asked m) (replicate (unat ?d) Indet)) =
      Inr (Own (asked m) ?ds)"
    using copy_loop_ok [OF rep, of 0 "unat (eq_num_items q)" "replicate (unat ?d) Indet"] len d by simp
  moreover obtain cs where "eq_pp_buf q = Own b cs"
    using rep by (auto simp: eq_rep_def)
  moreover have "unat (eq_num_items q - 1) = length xs - 1"
    using len pos full by (simp add: word_less_nat_alt unat_sub_if')
  ultimately show ?thesis
    using b assms(3,4) d len pos full
    by (auto simp: ezq_resize_def Let_def mem_simps eq_rep_def word_less_nat_alt word_le_nat_alt nth_append)
qed

lemma qresize_refused:
  assumes "eq_rep m q b xs" and "eq_max_items q = 65535 \<or> \<not> grant m (asked m)" and "mem_ok m"
  shows "\<exists>m'. ezq_resize m (Some q) = Inr (-1, Some q, m') \<and> same_live m m'"
  using assms
  by (auto simp: ezq_resize_def Let_def mem_simps same_live_refl same_live_asked)

text \<open>The outcomes of an enqueue, with what happens to the heap.\<close>

lemma enqueue_outcome:
  assumes rep: "eq_rep m q b xs" and mok: "mem_ok m"
  shows "\<exists>res q' m'. ezq_enqueue m (Some q) x = Inr (res, Some q', m') \<and>
    (if length xs < unat (eq_max_items q) \<or> length xs < 65535 \<and> grant m (asked m)
     then res = 0 \<and>
       eq_max_items q' = (if length xs < unat (eq_max_items q) then eq_max_items q
                          else doubled (eq_max_items q)) \<and>
       (\<exists>b'. eq_rep m' q' b' (xs @ [x]) \<and> swaps m b m' b')
     else res = -1 \<and> q' = q \<and> same_live m m')"
proof (cases "length xs < unat (eq_max_items q)")
  case True
  then have "eq_num_items q \<noteq> eq_max_items q" using eq_rep_full [OF rep] by simp
  with put_ok [OF rep True, of x] show ?thesis
    using True swaps_refl [OF mok eq_rep_live [OF rep]] by (auto simp: ezq_enqueue_def)
next
  case False
  then have full: "eq_num_items q = eq_max_items q" and len: "length xs = unat (eq_max_items q)"
    using eq_rep_full [OF rep] eq_rep_bound [OF rep] by auto
  then have cap: "eq_max_items q = 65535 \<longleftrightarrow> length xs = 65535"
    by (simp add: word_unat_eq_iff)
  show ?thesis
  proof (cases "length xs < 65535 \<and> grant m (asked m)")
    case True
    let ?m = "m\<lparr>asked := Suc (asked m), live := insert (asked m) (live m) - {b}\<rparr>"
    obtain q1 where q1: "ezq_resize m (Some q) = Inr (0, Some q1, ?m)" "eq_rep ?m q1 (asked m) xs"
      "eq_max_items q1 = doubled (eq_max_items q)"
      using qresize_ok [OF rep full _ _ mok] True cap by auto
    have "length xs < unat (eq_max_items q1)"
      using doubled_grows [of "eq_max_items q"] eq_rep_max_pos [OF rep] True cap len q1(3)
      by (simp add: word_less_nat_alt)
    from put_ok [OF q1(2) this, of x] show ?thesis
      using q1 full True False swaps_grown [OF mok eq_rep_live [OF rep]]
      by (auto simp: ezq_enqueue_def)
  next
    case no: False
    then have "eq_max_items q = 65535 \<or> \<not> grant m (asked m)"
      using cap eq_rep_bound [OF rep] u16_max [of "eq_max_items q"] by auto
    from qresize_refused [OF rep this mok] show ?thesis
      using full no False by (auto simp: ezq_enqueue_def)
  qed
qed

subsection \<open>Dequeue\<close>

lemma dequeue_empty:
  "eq_rep m q b [] \<Longrightarrow> ezq_dequeue (Some q) (Some v) = Inr (-1, Some q, Some v)"
  by (auto simp: ezq_dequeue_def eq_rep_def unat_eq_zero)

lemma dequeue_cons:
  assumes rep: "eq_rep m q b (x # xs)"
  shows "\<exists>q'. ezq_dequeue (Some q) (Some v) = Inr (0, Some q', Some x) \<and> eq_rep m q' b xs \<and>
    eq_max_items q' = eq_max_items q"
proof -
  let ?h = "unat (eq_idx_head q)" and ?n = "unat (eq_max_items q)"
  obtain cs where cs: "eq_pp_buf q = Own b cs" "length cs = ?n"
    "\<And>i. i < length (x # xs) \<Longrightarrow> cs ! ((?h + i) mod ?n) = Val ((x # xs) ! i)"
    using rep by (auto simp: eq_rep_def)
  have len: "Suc (length xs) = unat (eq_num_items q)" and n: "0 < ?n"
    using eq_rep_len [OF rep] eq_rep_max_pos [OF rep] by auto
  have h: "?h < ?n" and tail: "unat (eq_idx_tail q) = (?h + length xs) mod ?n"
    using rep by (auto simp: eq_rep_def word_less_nat_alt)
  have ld: "load (eq_pp_buf q) ?h = Inr x"
    using cs(1,2) cs(3) [of 0] h by simp
  have nz: "eq_num_items q \<noteq> 0" using len by auto
  have dec: "unat (eq_num_items q - 1) = length xs"
    using len nz by (simp add: unat_minus_one)
  show ?thesis
  proof (cases "xs = []")
    case True
    then have "eq_num_items q = 1" using len by (simp add: word_unat_eq_iff)
    then show ?thesis
      using True ld nz cs rep by (auto simp: ezq_dequeue_def eq_rep_def)
  next
    case False
    then have n1: "eq_num_items q \<noteq> 1" using len by auto
    let ?h' = "(?h + 1) mod ?n"
    have h16: "unat (of_nat ?h' :: u16) = ?h'"
      using n u16_lt [of "eq_max_items q"] mod_less_divisor [OF n]
      by (intro unat_u16_of_nat) (meson less_trans)
    have deq: "ezq_dequeue (Some q) (Some v) =
        Inr (0, Some (q\<lparr>eq_idx_head := of_nat ?h', eq_num_items := eq_num_items q - 1\<rparr>), Some x)"
      using ld nz n1 n by (simp add: ezq_dequeue_def word_less_nat_alt)
    have "cs ! ((?h' + i) mod ?n) = Val (xs ! i)" if "i < length xs" for i
      using cs(3) [of "Suc i"] that by (simp add: mod_simps)
    moreover have "(?h' + (length xs - 1)) mod ?n = unat (eq_idx_tail q)"
      using False tail by (cases xs) (simp_all add: mod_simps)
    ultimately show ?thesis
      unfolding deq using rep cs(1,2) h16 n dec
      by (auto simp: eq_rep_def word_less_nat_alt word_le_nat_alt)
  qed
qed

subsection \<open>Clearing\<close>

text \<open>What \<open>ezq_clear\<close> does with the items: the non-\<open>NULL\<close> ones go to \<open>free_func\<close>, in order.\<close>

fun visit :: "(ptr \<Rightarrow> 's \<Rightarrow> cfault + 's) option \<Rightarrow> ptr list \<Rightarrow> 's \<Rightarrow> cfault + 's" where
  "visit f [] s = Inr s"
| "visit f (x # xs) s =
     and_then (case f of None \<Rightarrow> Inr s | Some g \<Rightarrow> if x \<noteq> NULL then g x s else Inr s) (visit f xs)"

lemma clear_loop_ok:
  assumes "eq_rep m q b xs"
  shows "\<exists>q'. eq_rep m q' b [] \<and> eq_max_items q' = eq_max_items q \<and>
    (\<forall>s. clear_loop f q s = and_then (visit f xs s) (\<lambda>s'. Inr (q', s')))"
  using assms
proof (induction xs arbitrary: q)
  case Nil
  then have "\<not> 0 < eq_num_items q" by (auto simp: eq_rep_def unat_eq_zero word_less_nat_alt)
  then show ?case using Nil by (auto simp: clear_loop.simps [of f q])
next
  case (Cons x xs)
  have pos: "0 < eq_num_items q"
    using eq_rep_len [OF Cons.prems] by (simp add: word_less_nat_alt)
  obtain q1 where q1: "ezq_dequeue (Some q) (Some NULL) = Inr (0, Some q1, Some x)"
    "eq_rep m q1 b xs" "eq_max_items q1 = eq_max_items q"
    using dequeue_cons [OF Cons.prems] by blast
  obtain q2 where q2: "eq_rep m q2 b []" "eq_max_items q2 = eq_max_items q1"
    "\<And>s. clear_loop f q1 s = and_then (visit f xs s) (\<lambda>s'. Inr (q2, s'))"
    using Cons.IH [OF q1(2)] by blast
  have "clear_loop f q s = and_then (visit f (x # xs) s) (\<lambda>s'. Inr (q2, s'))" for s
    using pos q1(1) q2(3) by (subst clear_loop.simps) (auto simp: and_then_def split: sum.splits option.splits)
  then show ?case using q1 q2 by auto
qed

lemma qdeinit_ok:
  assumes "eq_rep m q b xs"
  shows "ezq_deinit m (Some q) =
    Inr (0, Some (q\<lparr>eq_pp_buf := ONull, eq_num_items := 0, eq_idx_head := -1, eq_idx_tail := -1,
      eq_max_items := 0\<rparr>), m\<lparr>live := live m - {b}\<rparr>)"
  using assms by (auto simp: ezq_deinit_def eq_rep_def mem_simps)

subsection \<open>The queue as a fifo\<close>

text \<open>The operations at the interface's types: the state is the heap and the queue together.\<close>

definition ezq_enq :: "mem \<times> ezqueue \<Rightarrow> ptr \<Rightarrow> cfault + (bool \<times> mem \<times> ezqueue)" where
  "ezq_enq s x = and_then (ezq_enqueue (fst s) (Some (snd s)) x) (\<lambda>(res, p, m).
     case p of None \<Rightarrow> Inl Null_Deref | Some q \<Rightarrow> Inr (res = 0, m, q))"

definition ezq_deq :: "mem \<times> ezqueue \<Rightarrow> cfault + (ptr option \<times> mem \<times> ezqueue)" where
  "ezq_deq s = and_then (ezq_dequeue (Some (snd s)) (Some NULL)) (\<lambda>(res, p, out).
     case p of None \<Rightarrow> Inl Null_Deref
     | Some q \<Rightarrow> Inr (if res = 0 then out else None, fst s, q))"

definition ezq_inv :: "mem \<times> ezqueue \<Rightarrow> bool" where
  "ezq_inv s \<longleftrightarrow> mem_ok (fst s) \<and> (\<exists>b. eq_rep (fst s) (snd s) b (eq_items (snd s)))"

lemma ezq_invI: "mem_ok m \<Longrightarrow> eq_rep m q b xs \<Longrightarrow> ezq_inv (m, q) \<and> eq_items q = xs"
  by (auto simp: ezq_inv_def dest: eq_rep_items)

text \<open>
  When one more item is taken: while the ring has room; a full one of fewer than 65535 places
  makes one request for a block of twice the size. \<open>ezq_room\<close> is the allocator's answers, the
  number of its next request, and the capacity.
\<close>

fun ezq_admit :: "(nat \<Rightarrow> bool) \<times> nat \<times> nat \<Rightarrow> nat \<Rightarrow> bool \<times> (nat \<Rightarrow> bool) \<times> nat \<times> nat" where
  "ezq_admit (g, k, cap) n =
     (if n < cap then (True, g, k, cap)
      else if n = 65535 then (False, g, k, cap)
      else if g k then (True, g, Suc k, min (2 * cap) 65535)
      else (False, g, Suc k, cap))"

definition ezq_room :: "mem \<times> ezqueue \<Rightarrow> (nat \<Rightarrow> bool) \<times> nat \<times> nat" where
  "ezq_room s = (grant (fst s), asked (fst s), unat (eq_max_items (snd s)))"

lemma enqueue_asked:
  assumes "ezq_enqueue m (Some q) x = Inr (res, p, m')" and "eq_rep m q b xs"
  shows "asked m' = (if length xs < unat (eq_max_items q) \<or> length xs = 65535 then asked m else Suc (asked m))"
proof (cases "length xs < unat (eq_max_items q)")
  case True
  then have "eq_num_items q \<noteq> eq_max_items q" using eq_rep_full [OF assms(2)] by simp
  with assms(1) True show ?thesis by (auto simp: ezq_enqueue_def and_then_eq_Inr)
next
  case False
  then have full: "eq_num_items q = eq_max_items q" and len: "length xs = unat (eq_max_items q)"
    using eq_rep_full [OF assms(2)] eq_rep_bound [OF assms(2)] by auto
  then have "eq_max_items q = 65535 \<longleftrightarrow> length xs = 65535"
    by (simp add: word_unat_eq_iff)
  with assms(1) False full show ?thesis
    by (auto simp: ezq_enqueue_def ezq_resize_def Let_def alloc_def release_def and_then_eq_Inr
        split: if_splits option.splits owned.splits)
qed

lemma ezq_enq_law:
  assumes "ezq_inv s" and "ezq_admit (ezq_room s) (length (eq_items (snd s))) = (ok, r)"
  shows "\<exists>s'. ezq_enq s x = Inr (ok, s') \<and> ezq_inv s' \<and> ezq_room s' = r \<and>
    eq_items (snd s') = (if ok then eq_items (snd s) @ [x] else eq_items (snd s))"
proof -
  obtain m q where s: "s = (m, q)" by (cases s)
  then obtain b where b: "mem_ok m" "eq_rep m q b (eq_items q)"
    using assms(1) by (auto simp: ezq_inv_def)
  have le: "length (eq_items q) \<le> 65535" "length (eq_items q) \<le> unat (eq_max_items q)"
    using eq_rep_bound [OF b(2)] u16_max [of "eq_max_items q"] by auto
  have okc: "ok = (length (eq_items q) < unat (eq_max_items q) \<or>
      length (eq_items q) < 65535 \<and> grant m (asked m))"
    using assms(2) le(1) s by (auto simp: ezq_room_def split: if_splits)
  obtain res q' m' where r: "ezq_enqueue m (Some q) x = Inr (res, Some q', m')"
    "if ok then res = 0 \<and>
       eq_max_items q' = (if length (eq_items q) < unat (eq_max_items q) then eq_max_items q
                          else doubled (eq_max_items q)) \<and>
       (\<exists>b'. eq_rep m' q' b' (eq_items q @ [x]) \<and> swaps m b m' b')
     else res = -1 \<and> q' = q \<and> same_live m m'"
    using enqueue_outcome [OF b(2,1), of x] unfolding okc by blast
  have gr: "grant m' = grant m"
    using r(2) by (auto simp: swaps_def same_live_def split: if_splits)
  have mx: "unat (eq_max_items q') = (if ok \<and> \<not> length (eq_items q) < unat (eq_max_items q)
      then min (2 * unat (eq_max_items q)) 65535 else unat (eq_max_items q))"
    using r(2) by (auto simp: unat_doubled split: if_splits)
  have "ezq_admit (ezq_room s) (length (eq_items (snd s))) = (ok, ezq_room (m', q'))"
    unfolding ezq_room_def s fst_conv snd_conv gr mx enqueue_asked [OF r(1) b(2)] okc
    using le(1) by simp
  then have room: "ezq_room (m', q') = r" using assms(2) by simp
  have "ezq_inv (m', q') \<and> eq_items q' = (if ok then eq_items q @ [x] else eq_items q)"
  proof (cases ok)
    case True
    with r(2) obtain b' where "eq_rep m' q' b' (eq_items q @ [x])" "swaps m b m' b'" by auto
    with True show ?thesis using ezq_invI [of m' q' b'] by (simp add: swaps_def)
  next
    case False
    with r(2) have "q' = q" "b \<in> live m'" "mem_ok m'"
      using eq_rep_live [OF b(2)] by (simp_all add: same_live_def)
    with False show ?thesis using ezq_invI [OF _ eq_rep_cong [OF b(2)]] by simp
  qed
  moreover have "ezq_enq s x = Inr (ok, m', q')"
    using r s by (simp add: ezq_enq_def split: if_splits)
  ultimately show ?thesis
    using s room by (intro exI [of _ "(m', q')"]) simp
qed

lemma ezq_deq_empty: "ezq_inv s \<Longrightarrow> eq_items (snd s) = [] \<Longrightarrow> ezq_deq s = Inr (None, s)"
  by (cases s) (auto simp: ezq_inv_def ezq_deq_def dequeue_empty)

lemma ezq_deq_cons:
  assumes "ezq_inv s" and "eq_items (snd s) = x # xs"
  shows "\<exists>s'. ezq_deq s = Inr (Some x, s') \<and> ezq_inv s' \<and> ezq_room s' = ezq_room s \<and>
    eq_items (snd s') = xs"
proof -
  obtain m q where s: "s = (m, q)" by (cases s)
  with assms obtain b where b: "mem_ok m" "eq_rep m q b (x # xs)"
    by (auto simp: ezq_inv_def)
  then obtain q' where q': "ezq_dequeue (Some q) (Some NULL) = Inr (0, Some q', Some x)" "eq_rep m q' b xs"
    "eq_max_items q' = eq_max_items q"
    using dequeue_cons by blast
  then show ?thesis
    using ezq_invI [OF b(1) q'(2)] s
    by (intro exI [of _ "(m, q')"]) (simp add: ezq_deq_def ezq_room_def)
qed

interpretation ezq: fifo ezq_inv "\<lambda>s. eq_items (snd s)" ezq_room ezq_admit "\<lambda>_. True" ezq_enq ezq_deq
  by unfold_locales (rule ezq_enq_law ezq_deq_empty ezq_deq_cons; assumption)+

subsection \<open>Properties\<close>

definition demo_queue :: ezqueue where
  "demo_queue = \<lparr>eq_pp_buf = Own 0 [Val (Addr 3), Val (Addr 1), Val (Addr 2)], eq_num_items = 3,
     eq_max_items = 3, eq_idx_head = 1, eq_idx_tail = 0\<rparr>"

lemma demo_queue_rep: "eq_rep demo_mem demo_queue 0 [Addr 1, Addr 2, Addr 3]"
proof -
  have "i = 0 \<or> i = 1 \<or> i = 2" if "i < 3" for i :: nat using that by arith
  then have "[Val (Addr 3), Val (Addr 1), Val (Addr 2)] ! ((1 + i) mod 3) = Val ([Addr 1, Addr 2, Addr 3] ! i)"
    if "i < 3" for i :: nat using that by fastforce
  then show ?thesis
    by (simp add: eq_rep_def demo_mem_def demo_queue_def)
qed

text \<open>
  C5: over any sequence of enqueues and dequeues the ring buffer gives the answers of a plain
  list, one by one, and ends with its contents: a dequeue is refused only when nothing is there
  and otherwise yields the oldest item; an enqueue is taken while there is room, a full ring
  grows to twice its size (65535 at most) with one request to the allocator, and it refuses only
  when that request is refused or it holds 65535 items. So what it held followed by what it
  accepted is what came out followed by what it holds.
\<close>

theorem ezqueue_fifo:
  assumes "eq_rep m q b xs" and "mem_ok m"
    and "list_run ezq_admit ops xs (grant m, asked m, unat (eq_max_items q)) = (ans, ys, g, k, cap)"
  shows "\<exists>m' q' b'. fifo_run ezq_enq ezq_deq ops (m, q) = Inr (ans, m', q') \<and>
    eq_rep m' q' b' ys \<and> mem_ok m' \<and> asked m' = k \<and> unat (eq_max_items q') = cap \<and>
    xs @ admitted ops ans = delivered ans @ ys"
proof -
  have "ezq_inv (m, q)" "eq_items q = xs" using ezq_invI assms by blast+
  with ezq.run_refines [of "(m, q)" ops ans ys "(g, k, cap)"] assms(3)
  obtain m' q' where "fifo_run ezq_enq ezq_deq ops (m, q) = Inr (ans, m', q')"
    "ezq_inv (m', q')" "eq_items q' = ys" "ezq_room (m', q') = (g, k, cap)"
    by (auto simp: ezq_room_def)
  then show ?thesis
    using list_run_order [OF assms(3)] by (auto simp: ezq_inv_def ezq_room_def)
qed

theorem ezqueue_fifo_witness:
  "\<exists>m' q' b'. fifo_run ezq_enq ezq_deq
       [Enq (Addr 4), Deq, Enq (Addr 5), Deq, Deq, Deq, Deq, Deq] (demo_mem, demo_queue) =
     Inr ([Accepted, Got (Addr 1), Accepted, Got (Addr 2), Got (Addr 3), Got (Addr 4), Got (Addr 5), Was_Empty],
       m', q') \<and> eq_rep m' q' b' [] \<and> unat (eq_max_items q') = 6"
  using ezqueue_fifo [OF demo_queue_rep demo_mem_ok,
      of "[Enq (Addr 4), Deq, Enq (Addr 5), Deq, Deq, Deq, Deq, Deq]"]
  by (fastforce simp: demo_mem_def demo_queue_def)

text \<open>
  \<open>ezq_clear\<close> terminates, empties the ring, keeps its capacity and its block, and hands each
  non-\<open>NULL\<close> item exactly once, oldest first, to \<open>free_func\<close>; it fails only where
  \<open>free_func\<close> does.
\<close>

lemma ezq_clear_visits:
  assumes "eq_rep m q b xs"
  shows "\<exists>q'. eq_rep m q' b [] \<and> eq_max_items q' = eq_max_items q \<and>
    (\<forall>s. ezq_clear (Some q) f s = and_then (visit f xs s) (\<lambda>s'. Inr (0, Some q', s')))"
  using clear_loop_ok [OF assms, of f]
  by (auto simp: ezq_clear_def and_then_def split: sum.splits)

end
