(* ===== verification/Coin_Queue.thy ===== *)
theory Coin_Queue
  imports Fifo_Interface
begin

text \<open>
  \<open>src/libs/concurinc/src/coin_queue.c\<close>: the thread pool's task queue, a singly linked list
  with a head, a tail and a size. The nodes live in an explicit store, because the code works by
  pointers into it; a node that has been freed is gone from the store, and following a pointer
  to it is a fault. The queue's own record is a block of one owner. Tasks are pointers here.
\<close>

datatype coin_status_t =
    COIN_SUCCESS
  | COIN_GENERIC_FAILURE
  | COIN_INVALID_INPUT
  | COIN_ALLOCATION_FAILURE
  | COIN_THREAD_CREATION_FAILURE
  | COIN_PTHREAD_MUTEX_ERROR
  | COIN_PTHREAD_COND_ERROR
  | COIN_PTHREAD_JOIN_ERROR
  | COIN_PTHREAD_CREATE_ERROR
  | COIN_PTHREAD_SIGMASK_ERROR
  | COIN_EMPTY_QUEUE_ERROR

record coin_queue_node_t =
  p_task :: ptr
  p_next :: ptr

record coin_queue_t =
  p_head :: ptr
  p_tail :: ptr
  cq_size :: size_t

record cq_heap =
  cq_mem :: mem
  nodes :: "nat \<rightharpoonup> coin_queue_node_t"

subsection \<open>Access to the store\<close>

definition node_at :: "cq_heap \<Rightarrow> ptr \<Rightarrow> cfault + coin_queue_node_t" where
  "node_at h p =
     (case p of NULL \<Rightarrow> Inl Null_Deref
      | Addr a \<Rightarrow> (case nodes h a of None \<Rightarrow> Inl Use_After_Free | Some n \<Rightarrow> Inr n))"

definition set_next :: "cq_heap \<Rightarrow> ptr \<Rightarrow> ptr \<Rightarrow> cfault + cq_heap" where
  "set_next h p nx =
     (case p of NULL \<Rightarrow> Inl Null_Deref
      | Addr a \<Rightarrow> (case nodes h a of None \<Rightarrow> Inl Use_After_Free
                   | Some n \<Rightarrow> Inr (h\<lparr>nodes := (nodes h)(a \<mapsto> n\<lparr>p_next := nx\<rparr>)\<rparr>)))"

text \<open>\<open>free\<close> of a block known by its pointer only (a task).\<close>

definition free_ptr :: "mem \<Rightarrow> ptr \<Rightarrow> cfault + mem" where
  "free_ptr m p = (case p of NULL \<Rightarrow> Inr m | Addr a \<Rightarrow> release m (Own a ()))"

definition free_node :: "cq_heap \<Rightarrow> ptr \<Rightarrow> cfault + cq_heap" where
  "free_node h p =
     (case p of NULL \<Rightarrow> Inr h
      | Addr a \<Rightarrow> and_then (release (cq_mem h) (Own a ())) (\<lambda>m.
          Inr (h\<lparr>cq_mem := m, nodes := (nodes h)(a := None)\<rparr>)))"

subsection \<open>Operations\<close>

text \<open>\<open>pp_queue\<close> is the caller's pointer (\<open>None\<close> when \<open>NULL\<close> is passed).\<close>

definition coin_queue_init ::
    "mem \<Rightarrow> coin_queue_t owned option \<Rightarrow> coin_status_t \<times> coin_queue_t owned option \<times> mem" where
  [op_defs]: "coin_queue_init m pp_queue =
     (case pp_queue of
        None \<Rightarrow> (COIN_INVALID_INPUT, None, m)
      | Some old \<Rightarrow>
          (case alloc m \<lparr>p_head = NULL, p_tail = NULL, cq_size = 0\<rparr> of
             (ONull, m') \<Rightarrow> (COIN_ALLOCATION_FAILURE, Some old, m')
           | (p_queue, m') \<Rightarrow> (COIN_SUCCESS, Some p_queue, m')))"

definition coin_queue_push ::
    "cq_heap \<Rightarrow> coin_queue_t owned \<Rightarrow> ptr \<Rightarrow> cfault + (coin_status_t \<times> coin_queue_t owned \<times> cq_heap)" where
  [op_defs]: "coin_queue_push h p_queue task =
     (case p_queue of
        ONull \<Rightarrow> Inr (COIN_INVALID_INPUT, p_queue, h)
      | Own b q \<Rightarrow>
          if task = NULL then Inr (COIN_INVALID_INPUT, p_queue, h)
          else
            (case alloc (cq_mem h) () of
               (ONull, m') \<Rightarrow> Inr (COIN_ALLOCATION_FAILURE, p_queue, h\<lparr>cq_mem := m'\<rparr>)
             | (Own a _, m') \<Rightarrow>
                 let p_node = Addr a;
                     h1 = h\<lparr>cq_mem := m', nodes := (nodes h)(a \<mapsto> \<lparr>p_task = task, p_next = NULL\<rparr>)\<rparr>
                 in
                 if p_head q = NULL then
                   Inr (COIN_SUCCESS, Own b (q\<lparr>p_head := p_node, p_tail := p_node, cq_size := cq_size q + 1\<rparr>), h1)
                 else if p_head q = p_tail q then
                   and_then (set_next h1 (p_head q) p_node) (\<lambda>h2.
                     Inr (COIN_SUCCESS, Own b (q\<lparr>p_tail := p_node, cq_size := cq_size q + 1\<rparr>), h2))
                 else
                   and_then (set_next h1 (p_tail q) p_node) (\<lambda>h2.
                     Inr (COIN_SUCCESS, Own b (q\<lparr>p_tail := p_node, cq_size := cq_size q + 1\<rparr>), h2))))"

text \<open>\<open>pp_task\<close> is the caller's variable before the call (\<open>None\<close> when \<open>NULL\<close> is passed).\<close>

definition coin_queue_pop ::
    "cq_heap \<Rightarrow> coin_queue_t owned \<Rightarrow> ptr option \<Rightarrow>
     cfault + (coin_status_t \<times> ptr option \<times> coin_queue_t owned \<times> cq_heap)" where
  [op_defs]: "coin_queue_pop h p_queue pp_task =
     (case (p_queue, pp_task) of
        (Own b q, Some _) \<Rightarrow>
          if p_head q = NULL then Inr (COIN_EMPTY_QUEUE_ERROR, Some NULL, p_queue, h)
          else
            (let p_node = p_head q in
             and_then
               (if p_head q = p_tail q then Inr (q\<lparr>p_head := NULL, p_tail := NULL\<rparr>)
                else and_then (node_at h p_node) (\<lambda>n. Inr (q\<lparr>p_head := p_next n\<rparr>)))
               (\<lambda>q.
                 and_then (node_at h p_node) (\<lambda>n.
                 and_then (free_node h p_node) (\<lambda>h.
                   Inr (COIN_SUCCESS, Some (p_task n), Own b (q\<lparr>cq_size := cq_size q - 1\<rparr>), h)))))
      | (_, None) \<Rightarrow> Inr (COIN_INVALID_INPUT, None, p_queue, h)
      | (ONull, Some _) \<Rightarrow> Inr (COIN_INVALID_INPUT, Some NULL, p_queue, h))"

text \<open>
  The loop of \<open>coin_queue_destroy\<close> follows \<open>p_next\<close>; \<open>None\<close> would be a loop that never ends.
\<close>

partial_function (option) destroy_loop :: "cq_heap \<Rightarrow> ptr \<Rightarrow> (cfault + cq_heap) option" where
  "destroy_loop h p_cur =
     (if p_cur = NULL then Some (Inr h)
      else
        (case node_at h p_cur of
           Inl e \<Rightarrow> Some (Inl e)
         | Inr n \<Rightarrow>
             (case and_then (free_ptr (cq_mem h) (p_task n)) (\<lambda>m. free_node (h\<lparr>cq_mem := m\<rparr>) p_cur) of
                Inl e \<Rightarrow> Some (Inl e)
              | Inr h' \<Rightarrow> destroy_loop h' (p_next n))))"

definition coin_queue_destroy ::
    "cq_heap \<Rightarrow> coin_queue_t owned \<Rightarrow> (cfault + (coin_status_t \<times> cq_heap)) option" where
  [op_defs]: "coin_queue_destroy h p_queue =
     (case p_queue of
        ONull \<Rightarrow> Some (Inr (COIN_INVALID_INPUT, h))
      | Own b q \<Rightarrow>
          map_option (\<lambda>r. and_then r (\<lambda>h.
              and_then (release (cq_mem h) p_queue) (\<lambda>m. Inr (COIN_SUCCESS, h\<lparr>cq_mem := m\<rparr>))))
            (destroy_loop h (p_head q)))"

subsection \<open>What a queue holds\<close>

text \<open>\<open>chain N p ns\<close>: following \<open>p_next\<close> from \<open>p\<close> meets the nodes \<open>ns\<close> (address and task) and
  ends in \<open>NULL\<close>.\<close>

fun chain :: "(nat \<rightharpoonup> coin_queue_node_t) \<Rightarrow> ptr \<Rightarrow> (nat \<times> ptr) list \<Rightarrow> bool" where
  "chain N p [] \<longleftrightarrow> p = NULL"
| "chain N p ((a, t) # ns) \<longleftrightarrow>
     p = Addr a \<and> (\<exists>nx. N a = Some \<lparr>p_task = t, p_next = nx\<rparr> \<and> chain N nx ns)"

definition last_ptr :: "(nat \<times> ptr) list \<Rightarrow> ptr" where
  "last_ptr ns = (if ns = [] then NULL else Addr (fst (last ns)))"

definition cq_rep :: "cq_heap \<Rightarrow> coin_queue_t \<Rightarrow> (nat \<times> ptr) list \<Rightarrow> bool" where
  "cq_rep h q ns \<longleftrightarrow>
     chain (nodes h) (p_head q) ns \<and> p_tail q = last_ptr ns \<and> cq_size q = of_nat (length ns) \<and>
     distinct (map fst ns) \<and> dom (nodes h) = fst ` set ns \<and> dom (nodes h) \<subseteq> live (cq_mem h) \<and>
     mem_ok (cq_mem h)"

fun walk :: "(nat \<rightharpoonup> coin_queue_node_t) \<Rightarrow> nat \<Rightarrow> ptr \<Rightarrow> ptr list" where
  "walk N 0 p = []"
| "walk N (Suc k) p =
     (case p of NULL \<Rightarrow> []
      | Addr a \<Rightarrow> (case N a of None \<Rightarrow> [] | Some n \<Rightarrow> p_task n # walk N k (p_next n)))"

definition cq_items :: "cq_heap \<Rightarrow> coin_queue_t \<Rightarrow> ptr list" where
  "cq_items h q = walk (nodes h) (card (dom (nodes h))) (p_head q)"

lemma walk_chain: "chain N p ns \<Longrightarrow> walk N (length ns) p = map snd ns"
  by (induction N p ns rule: chain.induct) auto

lemma card_dom_rep: "cq_rep h q ns \<Longrightarrow> card (dom (nodes h)) = length ns"
  by (metis cq_rep_def distinct_card length_map set_map)

lemma cq_rep_items: "cq_rep h q ns \<Longrightarrow> cq_items h q = map snd ns"
  by (metis card_dom_rep cq_items_def cq_rep_def walk_chain)

lemma chain_upd: "chain N p ns \<Longrightarrow> a \<notin> fst ` set ns \<Longrightarrow> chain (N(a := v)) p ns"
  by (induction N p ns rule: chain.induct) auto

text \<open>Appending a node: the last one's \<open>p_next\<close> is set.\<close>

lemma chain_snoc:
  assumes "chain N p (ns @ [(l, t)])" and "distinct (map fst (ns @ [(l, t)]))"
    and "a \<notin> fst ` set (ns @ [(l, t)])"
  shows "chain (N(a \<mapsto> \<lparr>p_task = x, p_next = NULL\<rparr>, l \<mapsto> \<lparr>p_task = t, p_next = Addr a\<rparr>)) p
    (ns @ [(l, t), (a, x)])"
  using assms
proof (induction ns arbitrary: p)
  case Nil
  then show ?case by auto
next
  case (Cons n ns)
  obtain b s where n: "n = (b, s)" by (cases n)
  then have "b \<noteq> l" "b \<noteq> a" using Cons.prems by auto
  then show ?case using Cons n by auto
qed

lemma chain_last:
  "chain N p (ns @ [(l, t)]) \<Longrightarrow> N l = Some \<lparr>p_task = t, p_next = NULL\<rparr>"
  by (induction ns arbitrary: p) auto

lemma chain_tl_distinct:
  assumes "chain N p ((a, t) # ns)" and "distinct (map fst ((a, t) # ns))"
  shows "\<exists>nx. N a = Some \<lparr>p_task = t, p_next = nx\<rparr> \<and> chain (N(a := None)) nx ns"
  using assms chain_upd [of N _ ns a None] by auto

subsection \<open>Push and pop\<close>

lemma cq_push_ok:
  assumes rep: "cq_rep h q ns" and x: "x \<noteq> NULL"
  shows "\<exists>st q' h'. coin_queue_push h (Own b q) x = Inr (st, Own b q', h') \<and>
    (if grant (cq_mem h) (asked (cq_mem h))
     then st = COIN_SUCCESS \<and> cq_rep h' q' (ns @ [(asked (cq_mem h), x)]) \<and>
       live (cq_mem h') = insert (asked (cq_mem h)) (live (cq_mem h))
     else st = COIN_ALLOCATION_FAILURE \<and> q' = q \<and> cq_rep h' q ns \<and>
       live (cq_mem h') = live (cq_mem h)) \<and>
    grant (cq_mem h') = grant (cq_mem h) \<and> asked (cq_mem h') = Suc (asked (cq_mem h))"
proof (cases "grant (cq_mem h) (asked (cq_mem h))")
  case False
  then show ?thesis
    using rep x by (auto simp: coin_queue_push_def mem_simps cq_rep_def)
next
  case True
  let ?a = "asked (cq_mem h)"
  have fresh: "?a \<notin> dom (nodes h)"
    using rep mem_ok_fresh by (auto simp: cq_rep_def)
  show ?thesis
  proof (cases ns rule: rev_cases)
    case Nil
    then show ?thesis
      using rep x True by (auto simp: coin_queue_push_def mem_simps cq_rep_def last_ptr_def Let_def)
  next
    case (snoc ns' lt)
    obtain l t where lt: "lt = (l, t)" by (cases lt)
    have ch: "chain (nodes h) (p_head q) (ns' @ [(l, t)])" "distinct (map fst (ns' @ [(l, t)]))"
      and tail: "p_tail q = Addr l" and dom: "dom (nodes h) = fst ` set ns"
      using rep snoc lt by (auto simp: cq_rep_def last_ptr_def)
    have hd: "p_head q \<noteq> NULL"
      using ch(1) by (cases ns') auto
    have nl: "nodes h l = Some \<lparr>p_task = t, p_next = NULL\<rparr>" "l \<noteq> ?a"
      using chain_last [OF ch(1)] fresh by auto
    have "?a \<notin> fst ` set (ns' @ [(l, t)])"
      using fresh dom snoc lt by simp
    from chain_snoc [OF ch this, of x]
    have ch': "chain ((nodes h)(?a \<mapsto> \<lparr>p_task = x, p_next = NULL\<rparr>, l \<mapsto> \<lparr>p_task = t, p_next = Addr ?a\<rparr>))
        (p_head q) (ns @ [(?a, x)])"
      using snoc lt by simp
    have push: "coin_queue_push h (Own b q) x =
      Inr (COIN_SUCCESS, Own b (q\<lparr>p_tail := Addr ?a, cq_size := cq_size q + 1\<rparr>),
        h\<lparr>cq_mem := (cq_mem h)\<lparr>asked := Suc ?a, live := insert ?a (live (cq_mem h))\<rparr>,
          nodes := (nodes h)(?a \<mapsto> \<lparr>p_task = x, p_next = NULL\<rparr>, l \<mapsto> \<lparr>p_task = t, p_next = Addr ?a\<rparr>)\<rparr>)"
      using x True hd tail nl
      by (auto simp: coin_queue_push_def mem_simps set_next_def Let_def)
    have "l \<in> dom (nodes h)" using nl by auto
    then show ?thesis
      unfolding push using rep True ch' fresh dom
      by (auto simp: cq_rep_def last_ptr_def)
  qed
qed

lemma cq_pop_empty:
  "cq_rep h q [] \<Longrightarrow> coin_queue_pop h (Own b q) (Some v) = Inr (COIN_EMPTY_QUEUE_ERROR, Some NULL, Own b q, h)"
  by (auto simp: coin_queue_pop_def cq_rep_def)

lemma cq_pop_ok:
  assumes rep: "cq_rep h q ((a, t) # ns)"
  shows "\<exists>q' h'. coin_queue_pop h (Own b q) (Some v) = Inr (COIN_SUCCESS, Some t, Own b q', h') \<and>
    cq_rep h' q' ns \<and> cq_mem h' = (cq_mem h)\<lparr>live := live (cq_mem h) - {a}\<rparr>"
proof -
  have d: "distinct (map fst ((a, t) # ns))" and hd: "p_head q = Addr a"
    and al: "a \<in> live (cq_mem h)" and tl: "p_tail q = last_ptr ((a, t) # ns)"
    using rep by (auto simp: cq_rep_def)
  obtain nx where nx: "nodes h a = Some \<lparr>p_task = t, p_next = nx\<rparr>" "chain ((nodes h)(a := None)) nx ns"
    using chain_tl_distinct [of "nodes h" _ a t ns] d rep unfolding cq_rep_def by blast
  have one: "p_head q = p_tail q \<longleftrightarrow> ns = []"
  proof (cases ns rule: rev_cases)
    case (snoc ns' lt)
    then have "fst lt \<noteq> a" using d by auto
    then show ?thesis using snoc hd tl by (simp add: last_ptr_def)
  qed (simp add: hd tl last_ptr_def)
  have sz: "cq_size q - 1 = of_nat (length ns)"
    using rep by (simp add: cq_rep_def)
  have "dom ((nodes h)(a := None)) = fst ` set ns"
    using rep d by (auto simp: cq_rep_def)
  moreover from this have "ns = [] \<Longrightarrow> (nodes h)(a := None) = Map.empty"
    by (metis dom_eq_empty_conv image_empty list.set(1))
  ultimately show ?thesis
    using rep nx one hd al sz tl
    by (auto simp: coin_queue_pop_def node_at_def free_node_def mem_simps cq_rep_def last_ptr_def Let_def
        split: if_splits)
qed

subsection \<open>Destruction\<close>

text \<open>Blocks that the tasks of a list of nodes own: each task pointer names a live block of its
  own, apart from the nodes.\<close>

definition task_blocks :: "(nat \<times> ptr) list \<Rightarrow> nat list" where
  "task_blocks ns = concat (map (\<lambda>(a, t). case t of NULL \<Rightarrow> [] | Addr k \<Rightarrow> [k]) ns)"

lemma task_blocks_Cons [simp]:
  "task_blocks ((a, t) # ns) = (case t of NULL \<Rightarrow> [] | Addr k \<Rightarrow> [k]) @ task_blocks ns"
  by (simp add: task_blocks_def)

lemma task_blocks_Nil [simp]: "task_blocks [] = []"
  by (simp add: task_blocks_def)

lemma destroy_loop_ok:
  assumes "chain (nodes h) p ns" and "distinct (map fst ns @ task_blocks ns)"
    and "set (map fst ns @ task_blocks ns) \<subseteq> live (cq_mem h)"
  shows "\<exists>h'. destroy_loop h p = Some (Inr h') \<and>
    cq_mem h' = (cq_mem h)\<lparr>live := live (cq_mem h) - set (map fst ns @ task_blocks ns)\<rparr> \<and>
    nodes h' = (\<lambda>a. if a \<in> fst ` set ns then None else nodes h a)"
  using assms
proof (induction ns arbitrary: h p)
  case Nil
  then show ?case by (auto simp: destroy_loop.simps [of h NULL])
next
  case (Cons n ns)
  obtain a t where n: "n = (a, t)" by (cases n)
  from Cons.prems n obtain nx where nx: "p = Addr a" "nodes h a = Some \<lparr>p_task = t, p_next = nx\<rparr>"
    "chain (nodes h) nx ns" by auto
  define h1 where "h1 = h\<lparr>cq_mem := (cq_mem h)\<lparr>live := live (cq_mem h) - set (map fst [n] @ task_blocks [n])\<rparr>,
    nodes := (nodes h)(a := None)\<rparr>"
  have step: "destroy_loop h p = destroy_loop h1 nx"
  proof -
    have "and_then (free_ptr (cq_mem h) t) (\<lambda>m. free_node (h\<lparr>cq_mem := m\<rparr>) p) = Inr h1"
      using Cons.prems(2,3) n nx(1)
      by (cases t) (auto simp: free_ptr_def free_node_def mem_simps h1_def insert_commute Diff_insert2 [symmetric])
    with nx show ?thesis
      by (subst destroy_loop.simps) (simp add: node_at_def)
  qed
  have "chain (nodes h1) nx ns"
    using nx(3) Cons.prems(2) n chain_upd [of "nodes h" nx ns a None] by (simp add: h1_def)
  moreover have "distinct (map fst ns @ task_blocks ns)"
    using Cons.prems(2) n by auto
  moreover have "set (map fst ns @ task_blocks ns) \<subseteq> live (cq_mem h1)"
    using Cons.prems(2,3) n by (auto simp: h1_def split: ptr.splits)
  ultimately obtain h' where h': "destroy_loop h1 nx = Some (Inr h')"
    "cq_mem h' = (cq_mem h1)\<lparr>live := live (cq_mem h1) - set (map fst ns @ task_blocks ns)\<rparr>"
    "nodes h' = (\<lambda>b. if b \<in> fst ` set ns then None else nodes h1 b)"
    using Cons.IH by blast
  have "live (cq_mem h1) - set (map fst ns @ task_blocks ns) =
      live (cq_mem h) - set (map fst (n # ns) @ task_blocks (n # ns))"
    using n by (auto simp: h1_def)
  with h' step show ?case
    using n by (auto simp: h1_def fun_eq_iff)
qed

lemma cq_destroy_ok:
  assumes "cq_rep h q ns" and "b \<in> live (cq_mem h)"
    and "distinct (b # map fst ns @ task_blocks ns)" and "set (task_blocks ns) \<subseteq> live (cq_mem h)"
  shows "\<exists>h'. coin_queue_destroy h (Own b q) = Some (Inr (COIN_SUCCESS, h')) \<and>
    live (cq_mem h') = live (cq_mem h) - ({b} \<union> set (map fst ns) \<union> set (task_blocks ns)) \<and>
    nodes h' = Map.empty \<and> grant (cq_mem h') = grant (cq_mem h) \<and> asked (cq_mem h') = asked (cq_mem h)"
proof -
  have dom: "dom (nodes h) = fst ` set ns" "fst ` set ns \<subseteq> live (cq_mem h)"
    using assms(1) by (auto simp: cq_rep_def)
  obtain h' where h': "destroy_loop h (p_head q) = Some (Inr h')"
    "cq_mem h' = (cq_mem h)\<lparr>live := live (cq_mem h) - set (map fst ns @ task_blocks ns)\<rparr>"
    "nodes h' = (\<lambda>a. if a \<in> fst ` set ns then None else nodes h a)"
    using destroy_loop_ok [of h "p_head q" ns] assms dom(2) by (auto simp: cq_rep_def)
  have "nodes h' = Map.empty" using h'(3) dom(1) by (auto simp: fun_eq_iff)
  moreover have "b \<in> live (cq_mem h')" using h'(2) assms(2,3) by auto
  ultimately show ?thesis
    using h'(1,2) by (auto simp: coin_queue_destroy_def mem_simps)
qed

subsection \<open>The queue as a fifo\<close>

definition coin_enq ::
    "cq_heap \<times> nat \<times> coin_queue_t \<Rightarrow> ptr \<Rightarrow> cfault + (bool \<times> cq_heap \<times> nat \<times> coin_queue_t)" where
  "coin_enq s x = (case s of (h, b, q) \<Rightarrow>
     and_then (coin_queue_push h (Own b q) x) (\<lambda>(st, p, h).
       case p of ONull \<Rightarrow> Inl Null_Deref | Own b q \<Rightarrow> Inr (st = COIN_SUCCESS, h, b, q)))"

definition coin_deq ::
    "cq_heap \<times> nat \<times> coin_queue_t \<Rightarrow> cfault + (ptr option \<times> cq_heap \<times> nat \<times> coin_queue_t)" where
  "coin_deq s = (case s of (h, b, q) \<Rightarrow>
     and_then (coin_queue_pop h (Own b q) (Some NULL)) (\<lambda>(st, out, p, h).
       case p of ONull \<Rightarrow> Inl Null_Deref
       | Own b q \<Rightarrow> Inr (if st = COIN_SUCCESS then out else None, h, b, q)))"

definition coin_inv :: "cq_heap \<times> nat \<times> coin_queue_t \<Rightarrow> bool" where
  "coin_inv s \<longleftrightarrow> (case s of (h, b, q) \<Rightarrow> \<exists>ns. cq_rep h q ns)"

definition coin_contents :: "cq_heap \<times> nat \<times> coin_queue_t \<Rightarrow> ptr list" where
  "coin_contents s = (case s of (h, b, q) \<Rightarrow> cq_items h q)"

text \<open>A push asks the allocator for one node; it is taken when the request is granted.\<close>

fun coin_admit :: "(nat \<Rightarrow> bool) \<times> nat \<Rightarrow> nat \<Rightarrow> bool \<times> (nat \<Rightarrow> bool) \<times> nat" where
  "coin_admit (g, k) n = (g k, g, Suc k)"

definition coin_room :: "cq_heap \<times> nat \<times> coin_queue_t \<Rightarrow> (nat \<Rightarrow> bool) \<times> nat" where
  "coin_room s = (grant (cq_mem (fst s)), asked (cq_mem (fst s)))"

lemma coin_enq_law:
  assumes "coin_inv s" and "x \<noteq> NULL"
    and "coin_admit (coin_room s) (length (coin_contents s)) = (ok, r)"
  shows "\<exists>s'. coin_enq s x = Inr (ok, s') \<and> coin_inv s' \<and> coin_room s' = r \<and>
    coin_contents s' = (if ok then coin_contents s @ [x] else coin_contents s)"
proof -
  obtain h b q where s: "s = (h, b, q)" by (cases s) auto
  then obtain ns where rep: "cq_rep h q ns" using assms(1) by (auto simp: coin_inv_def)
  have ok: "ok = grant (cq_mem h) (asked (cq_mem h))" "r = (grant (cq_mem h), Suc (asked (cq_mem h)))"
    using assms(3) s by (simp_all add: coin_room_def)
  obtain st q' h' where push: "coin_queue_push h (Own b q) x = Inr (st, Own b q', h')"
    "if ok then st = COIN_SUCCESS \<and> (\<exists>a. cq_rep h' q' (ns @ [(a, x)]))
     else st \<noteq> COIN_SUCCESS \<and> cq_rep h' q' ns" "coin_room (h', b, q') = r"
    using cq_push_ok [OF rep assms(2), of b] ok by (auto simp: coin_room_def split: if_splits; blast)
  have "coin_enq s x = Inr (ok, h', b, q')"
    using push(1,2) s by (auto simp: coin_enq_def split: if_splits)
  moreover have "coin_inv (h', b, q') \<and>
      coin_contents (h', b, q') = (if ok then coin_contents s @ [x] else coin_contents s)"
    using push(2) s cq_rep_items [OF rep] cq_rep_items [of h' q']
    by (auto simp: coin_inv_def coin_contents_def split: if_splits)
  ultimately show ?thesis using push(3) by blast
qed

lemma coin_deq_cons:
  assumes "coin_inv s" and "coin_contents s = x # xs"
  shows "\<exists>s'. coin_deq s = Inr (Some x, s') \<and> coin_inv s' \<and> coin_room s' = coin_room s \<and>
    coin_contents s' = xs"
proof -
  obtain h b q where s: "s = (h, b, q)" by (cases s) auto
  then obtain ns where rep: "cq_rep h q ns" "map snd ns = x # xs"
    using assms cq_rep_items by (auto simp: coin_inv_def coin_contents_def)
  then obtain a ns' where ns: "ns = (a, x) # ns'" "map snd ns' = xs" by auto
  with rep(1) obtain q' h' where
    "coin_queue_pop h (Own b q) (Some NULL) = Inr (COIN_SUCCESS, Some x, Own b q', h')" "cq_rep h' q' ns'"
    "cq_mem h' = (cq_mem h)\<lparr>live := live (cq_mem h) - {a}\<rparr>"
    using cq_pop_ok by blast
  then show ?thesis
    using s ns(2) cq_rep_items [of h' q' ns']
    by (intro exI [of _ "(h', b, q')"]) (auto simp: coin_deq_def coin_inv_def coin_contents_def coin_room_def)
qed

lemma coin_deq_empty: "coin_inv s \<Longrightarrow> coin_contents s = [] \<Longrightarrow> coin_deq s = Inr (None, s)"
  by (cases s) (auto simp: coin_inv_def coin_contents_def coin_deq_def cq_rep_items cq_pop_empty)

interpretation coin: fifo coin_inv coin_contents coin_room coin_admit "\<lambda>x. x \<noteq> NULL" coin_enq coin_deq
  by unfold_locales (rule coin_enq_law coin_deq_empty coin_deq_cons; assumption)+

subsection \<open>Properties\<close>

definition demo_cq_heap :: cq_heap where
  "demo_cq_heap = \<lparr>cq_mem = \<lparr>grant = (\<lambda>n. n < 9), asked = 5, live = {0, 1, 2, 3, 4}\<rparr>,
     nodes = [1 \<mapsto> \<lparr>p_task = Addr 3, p_next = Addr 2\<rparr>, 2 \<mapsto> \<lparr>p_task = Addr 4, p_next = NULL\<rparr>]\<rparr>"

definition demo_cq :: coin_queue_t where
  "demo_cq = \<lparr>p_head = Addr 1, p_tail = Addr 2, cq_size = 2\<rparr>"

lemma demo_cq_rep: "cq_rep demo_cq_heap demo_cq [(1, Addr 3), (2, Addr 4)]"
  by (auto simp: cq_rep_def demo_cq_heap_def demo_cq_def last_ptr_def mem_ok_def)

text \<open>
  C29: over any sequence of pushes of tasks and pops the linked list gives the answers of a plain
  list, one by one, and ends with its contents: a pop is refused only when nothing is there and
  otherwise yields the oldest task; a push makes one request to the allocator and is refused
  only when that is. So what it held followed by what it accepted is what came out followed by
  what it holds, and no pointer to a freed node is ever followed.
\<close>

theorem coin_queue_fifo:
  assumes "cq_rep h q ns" and "\<forall>x. Enq x \<in> set ops \<longrightarrow> x \<noteq> NULL"
    and "list_run coin_admit ops (map snd ns) (grant (cq_mem h), asked (cq_mem h)) = (ans, ys, g, k)"
  shows "\<exists>h' b' q' ns'. fifo_run coin_enq coin_deq ops (h, b, q) = Inr (ans, h', b', q') \<and>
    cq_rep h' q' ns' \<and> map snd ns' = ys \<and> asked (cq_mem h') = k \<and>
    map snd ns @ admitted ops ans = delivered ans @ ys"
proof -
  have inv: "coin_inv (h, b, q)" "coin_contents (h, b, q) = map snd ns"
    using assms(1) cq_rep_items by (auto simp: coin_inv_def coin_contents_def)
  with coin.run_refines [of "(h, b, q)" ops ans ys "(g, k)"] assms(2,3)
  obtain h' b' q' where run: "fifo_run coin_enq coin_deq ops (h, b, q) = Inr (ans, h', b', q')"
    "coin_inv (h', b', q')" "coin_contents (h', b', q') = ys" "coin_room (h', b', q') = (g, k)"
    by (auto simp: coin_room_def)
  then obtain ns' where "cq_rep h' q' ns'" "map snd ns' = ys"
    using cq_rep_items by (auto simp: coin_inv_def coin_contents_def)
  with run show ?thesis
    using list_run_order [OF assms(3)] by (auto simp: coin_room_def)
qed

theorem coin_queue_fifo_witness:
  "\<exists>h' b' q' ns'. fifo_run coin_enq coin_deq
       [Deq, Enq (Addr 7), Deq, Deq, Deq, Enq (Addr 8), Enq (Addr 8), Enq (Addr 8), Enq (Addr 8)]
       (demo_cq_heap, 0, demo_cq) =
     Inr ([Got (Addr 3), Accepted, Got (Addr 4), Got (Addr 7), Was_Empty, Accepted, Accepted, Accepted, Refused],
       h', b', q') \<and> cq_rep h' q' ns' \<and> map snd ns' = [Addr 8, Addr 8, Addr 8]"
  using coin_queue_fifo [OF demo_cq_rep,
      of "[Deq, Enq (Addr 7), Deq, Deq, Deq, Enq (Addr 8), Enq (Addr 8), Enq (Addr 8), Enq (Addr 8)]"]
  by (fastforce simp: demo_cq_heap_def)

text \<open>
  C32: \<open>coin_queue_destroy\<close> terminates on every well-formed queue, faults nowhere, and frees
  exactly the queue's record, its nodes and the tasks still queued.
\<close>

theorem coin_queue_destroy_frees:
  assumes "cq_rep h q ns" and "b \<in> live (cq_mem h)"
    and "distinct (b # map fst ns @ task_blocks ns)" and "set (task_blocks ns) \<subseteq> live (cq_mem h)"
  shows "\<exists>h'. coin_queue_destroy h (Own b q) = Some (Inr (COIN_SUCCESS, h')) \<and>
    live (cq_mem h') = live (cq_mem h) - ({b} \<union> set (map fst ns) \<union> set (task_blocks ns)) \<and>
    nodes h' = Map.empty"
  using cq_destroy_ok [OF assms] by blast

theorem coin_queue_destroy_frees_witness:
  "\<exists>h'. coin_queue_destroy demo_cq_heap (Own 0 demo_cq) = Some (Inr (COIN_SUCCESS, h')) \<and>
     live (cq_mem h') = {}"
  using coin_queue_destroy_frees [OF demo_cq_rep, of 0] by (auto simp: demo_cq_heap_def)

end
