(* ===== verification/Conn_Ctx.thy ===== *)
theory Conn_Ctx
  imports Ez_Array
begin

text \<open>
  The connection context of \<open>src/libs/connmgr/connmgr.h\<close> and the sizes of \<open>src/common.h\<close>. The
  fields of \<open>conn_ctx_t\<close> carry the prefix \<open>cc_\<close>. The mutex and the two buffer pointers are
  cells, because \<open>connmgr_create_new_conn\<close> leaves them uninitialised in an internal connection;
  \<open>Val ()\<close> is a mutex that \<open>pthread_mutex_init\<close> has set up. The unused \<open>addr\<close> is left out.
\<close>

definition HEADER_SIZE :: nat where
  "HEADER_SIZE = 3"

definition IO_BUF_SIZE :: nat where
  "IO_BUF_SIZE = 1024"

definition MAX_CONNECTIONS :: nat where
  "MAX_CONNECTIONS = 1024"

lemma sizes [simp]: "HEADER_SIZE = 3" "IO_BUF_SIZE = 1024" "MAX_CONNECTIONS = 1024"
  by (simp_all add: HEADER_SIZE_def IO_BUF_SIZE_def MAX_CONNECTIONS_def)

datatype conn_type_t = INTERNAL_CONN | INBOUND_CONN

datatype conn_state = READ_HEADER | READ_CONTENT | WRITE_RESPONSE | PENDING_CLOSE | SPECIAL_CONN

record conn_ctx =
  cc_type :: conn_type_t
  cc_mutex :: "unit cell"
  cc_ref_count :: int
  cc_fd :: int
  cc_recv_buf :: "byte cell list owned cell"
  cc_bytes_read :: size_t
  cc_bytes_to_read :: size_t
  cc_send_buf :: "byte cell list owned cell"
  cc_bytes_sent :: size_t
  cc_bytes_to_send :: size_t
  cc_state :: conn_state

text \<open>Using a variable that may not have been initialised.\<close>

definition get_cell :: "'a cell \<Rightarrow> cfault + 'a" where
  "get_cell c = (case c of Indet \<Rightarrow> Inl Indet_Read | Val x \<Rightarrow> Inr x)"

lemma get_cell_Val [simp]: "get_cell (Val x) = Inr x"
  by (simp add: get_cell_def)

lemma get_cell_Indet [simp]: "get_cell Indet = Inl Indet_Read"
  by (simp add: get_cell_def)

end
