(* ===== verification/Free_Func.thy ===== *)
theory Free_Func
  imports Ez_Queue
begin

text \<open>
  The interface between a container and the \<open>free_func\<close> its client passes: \<open>ezq_clear\<close> of
  \<open>src/libs/ezlibs/ezqueue.c\<close> calls it on each item, and \<open>connmgr_destroy_all_conns\<close> on each active
  connection. The client promises what happens to one item that it owns; what happens to a whole
  container follows here. \<open>Conn_Mgr\<close> interprets it on \<open>connmgr_destroy_conn\<close>.
\<close>

text \<open>The non-\<open>NULL\<close> pointers of a list, as addresses.\<close>

definition addrs :: "ptr list \<Rightarrow> nat list" where
  "addrs xs = concat (map (\<lambda>p. case p of NULL \<Rightarrow> [] | Addr a \<Rightarrow> [a]) xs)"

lemma addrs_simps [simp]:
  "addrs [] = []" "addrs (NULL # xs) = addrs xs" "addrs (Addr a # xs) = a # addrs xs"
  "addrs (xs @ ys) = addrs xs @ addrs ys" "addrs (map Addr as) = as"
  by (simp_all add: addrs_def) (induction as; simp)

text \<open>
  \<open>own as s\<close>: exactly the items at \<open>as\<close> are still to be freed in \<open>s\<close>. Freeing the first of them
  cannot fail, records its \<open>key\<close> in the \<open>trace\<close> and leaves the keys of the others alone.
\<close>

locale free_func =
  fixes free :: "ptr \<Rightarrow> 's \<Rightarrow> cfault + 's" and own :: "nat list \<Rightarrow> 's \<Rightarrow> bool"
    and key :: "'s \<Rightarrow> nat \<Rightarrow> 'e" and trace :: "'s \<Rightarrow> 'e list"
  assumes frees: "own (a # as) s \<Longrightarrow> \<exists>s'. free (Addr a) s = Inr s' \<and> own as s' \<and>
    trace s' = trace s @ [key s a] \<and> (\<forall>k \<in> set as. key s' k = key s k)"
begin

lemma visit_frees:
  assumes "own (addrs xs @ as) s"
  shows "\<exists>s'. visit (Some free) xs s = Inr s' \<and> own as s' \<and>
    trace s' = trace s @ map (key s) (addrs xs) \<and> (\<forall>k \<in> set as. key s' k = key s k)"
  using assms
proof (induction xs arbitrary: s)
  case (Cons x xs)
  show ?case
  proof (cases x)
    case (Addr a)
    then obtain s1 where s1: "free (Addr a) s = Inr s1" "own (addrs xs @ as) s1"
      "trace s1 = trace s @ [key s a]" "\<forall>k \<in> set (addrs xs @ as). key s1 k = key s k"
      using frees [of a "addrs xs @ as" s] Cons.prems by auto
    from Cons.IH [OF s1(2)] obtain s2 where "visit (Some free) xs s1 = Inr s2" "own as s2"
      "trace s2 = trace s1 @ map (key s1) (addrs xs)" "\<forall>k \<in> set as. key s2 k = key s1 k"
      by blast
    then show ?thesis using Addr s1 by auto
  qed (use Cons in simp)
qed simp

text \<open>Clearing a queue frees everything in it, oldest first, and keeps its block.\<close>

lemma clear_frees:
  assumes "eq_rep m q b xs" and "own (addrs xs @ as) s"
  shows "\<exists>q' s'. ezq_clear (Some q) (Some free) s = Inr (0, Some q', s') \<and> eq_rep m q' b [] \<and>
    own as s' \<and> trace s' = trace s @ map (key s) (addrs xs) \<and> (\<forall>k \<in> set as. key s' k = key s k)"
proof -
  obtain q' where q': "eq_rep m q' b []"
    "\<And>s :: 's. clear_loop (Some free) q s = and_then (visit (Some free) xs s) (\<lambda>s'. Inr (q', s'))"
    using clear_loop_ok [OF assms(1), of "Some free"] by blast
  with visit_frees [OF assms(2)] show ?thesis
    by (fastforce simp: ezq_clear_def)
qed

end

end
