(* ===== verification/Conn_Mgr.thy ===== *)
theory Conn_Mgr
  imports Conn_Ctx Free_Func "HOL-Library.Multiset"
begin

text \<open>
  \<open>src/libs/connmgr/connmgr.c\<close>: the connections of the server, in three containers that must
  agree: the array \<open>p_conns\<close> of contexts, the poll array \<open>p_pfds\<close> with one entry for each of
  them, and the queue \<open>p_new_conns\<close> of contexts not yet polled.

  The contexts live in a store, by the number of their block, next to the allocator and to the
  descriptors closed so far. The fields of \<open>conn_mgr_t\<close> carry the prefix \<open>mgr_\<close>. The blocks
  that \<open>malloc\<close> returns for the array's and the queue's records hold whatever was there before:
  \<open>raw_a\<close> and \<open>raw_q\<close>. Results of \<open>pthread_mutex_init\<close> are an argument; a mutex that was
  initialised can be destroyed.
\<close>

record pollfd =
  pf_fd :: int
  pf_events :: u16
  pf_revents :: u16

definition POLLIN :: u16 where "POLLIN = 1"
definition POLLOUT :: u16 where "POLLOUT = 4"
definition POLLERR :: u16 where "POLLERR = 8"
definition POLLHUP :: u16 where "POLLHUP = 16"
definition POLLNVAL :: u16 where "POLLNVAL = 32"

unbundle bit_operations_syntax

definition zero_pollfd :: pollfd where
  "zero_pollfd = \<lparr>pf_fd = 0, pf_events = 0, pf_revents = 0\<rparr>"

record conn_mgr_t =
  mgr_conns :: "ezarray owned"
  mgr_pfds :: "pollfd cell list owned"
  mgr_new_conns :: "ezqueue owned"
  mgr_max_conns :: u16
  mgr_num_active :: u16

record cm_heap =
  ch_mem :: mem
  ch_conns :: "nat \<rightharpoonup> conn_ctx"
  ch_closed :: "int list"

text \<open>A pointer as the callees take it (\<open>None\<close> is \<open>NULL\<close>), and the block with its new content.\<close>

definition deref :: "'a owned \<Rightarrow> 'a option" where
  "deref p = (case p of ONull \<Rightarrow> None | Own b x \<Rightarrow> Some x)"

definition put_back :: "'a owned \<Rightarrow> 'a option \<Rightarrow> 'a owned" where
  "put_back p r = (case (p, r) of (Own b _, Some x) \<Rightarrow> Own b x | _ \<Rightarrow> p)"

lemma deref_simps [simp]: "deref ONull = None" "deref (Own b x) = Some x"
  by (simp_all add: deref_def)

lemma put_back_simps [simp]: "put_back (Own b x) (Some y) = Own b y" "put_back ONull r = ONull"
  by (simp_all add: put_back_def split: option.splits)

subsection \<open>Set-up and tear-down\<close>

text \<open>The cleanup labels of \<open>connmgr_init\<close>, each falling through to the next.\<close>

definition init_cleanup_ezarray :: "mem \<Rightarrow> ezarray owned \<Rightarrow> cfault + mem" where
  [op_defs]: "init_cleanup_ezarray m p_conns = release m p_conns"

definition init_deinit_eza :: "mem \<Rightarrow> ezarray owned \<Rightarrow> cfault + mem" where
  [op_defs]: "init_deinit_eza m p_conns =
     and_then (ezarr_deinit m (deref p_conns)) (\<lambda>(_, a, m).
       init_cleanup_ezarray m (put_back p_conns a))"

definition init_cleanup_pfds :: "mem \<Rightarrow> ezarray owned \<Rightarrow> pollfd cell list owned \<Rightarrow> cfault + mem" where
  [op_defs]: "init_cleanup_pfds m p_conns p_pfds =
     and_then (release m p_pfds) (\<lambda>m. init_deinit_eza m p_conns)"

definition init_destroy_queue ::
    "mem \<Rightarrow> ezarray owned \<Rightarrow> pollfd cell list owned \<Rightarrow> ezqueue owned \<Rightarrow> cfault + mem" where
  [op_defs]: "init_destroy_queue m p_conns p_pfds p_new_conns =
     and_then (release m p_new_conns) (\<lambda>m. init_cleanup_pfds m p_conns p_pfds)"

definition connmgr_init ::
    "mem \<Rightarrow> ezarray \<Rightarrow> ezqueue \<Rightarrow> conn_mgr_t option \<Rightarrow> u16 \<Rightarrow>
     cfault + (int \<times> conn_mgr_t option \<times> mem)" where
  [op_defs]: "connmgr_init m raw_a raw_q p_mgr initial_max_conns =
     (case p_mgr of
        None \<Rightarrow> Inr (-1, None, m)
      | Some mgr \<Rightarrow>
          if initial_max_conns = 0 then Inr (-1, p_mgr, m)
          else
            (let (p_conns, m) = alloc m raw_a in
             if p_conns = ONull then Inr (-1, p_mgr, m)
             else
               (let (err, a, m) = ezarr_init m (deref p_conns) initial_max_conns;
                    p_conns = put_back p_conns a in
                if err \<noteq> 0 then and_then (init_cleanup_ezarray m p_conns) (\<lambda>m. Inr (-1, p_mgr, m))
                else
                  (let (p_pfds, m) = alloc m (replicate (unat initial_max_conns) Indet) in
                   if p_pfds = ONull then and_then (init_deinit_eza m p_conns) (\<lambda>m. Inr (-1, p_mgr, m))
                   else
                     and_then (write_at p_pfds 0 (replicate (unat initial_max_conns) zero_pollfd)) (\<lambda>p_pfds.
                     let (p_new_conns, m) = alloc m raw_q in
                     if p_new_conns = ONull then
                       and_then (init_cleanup_pfds m p_conns p_pfds) (\<lambda>m. Inr (-1, p_mgr, m))
                     else
                       (let (err, q, m) = ezq_init m (deref p_new_conns) initial_max_conns;
                            p_new_conns = put_back p_new_conns q in
                        if err \<noteq> 0 then
                          and_then (init_destroy_queue m p_conns p_pfds p_new_conns) (\<lambda>m. Inr (-1, p_mgr, m))
                        else
                          Inr (0, Some (mgr\<lparr>mgr_conns := p_conns, mgr_pfds := p_pfds,
                                  mgr_new_conns := p_new_conns, mgr_max_conns := initial_max_conns,
                                  mgr_num_active := 0\<rparr>), m)))))))"

definition connmgr_deinit :: "mem \<Rightarrow> conn_mgr_t option \<Rightarrow> cfault + (int \<times> conn_mgr_t option \<times> mem)" where
  [op_defs]: "connmgr_deinit m p_mgr =
     (case p_mgr of
        None \<Rightarrow> Inr (-1, None, m)
      | Some mgr \<Rightarrow>
          and_then (ezq_deinit m (deref (mgr_new_conns mgr))) (\<lambda>(_, q, m).
          and_then (release m (put_back (mgr_new_conns mgr) q)) (\<lambda>m.
          and_then (release m (mgr_pfds mgr)) (\<lambda>m.
          and_then (ezarr_deinit m (deref (mgr_conns mgr))) (\<lambda>(_, a, m).
          and_then (release m (put_back (mgr_conns mgr) a)) (\<lambda>m.
            Inr (0, Some (mgr\<lparr>mgr_new_conns := ONull, mgr_pfds := ONull, mgr_conns := ONull\<rparr>), m)))))))"

subsection \<open>One connection\<close>

definition ctx_at :: "cm_heap \<Rightarrow> ptr \<Rightarrow> cfault + conn_ctx" where
  "ctx_at h p =
     (case p of NULL \<Rightarrow> Inl Null_Deref
      | Addr a \<Rightarrow> (case ch_conns h a of None \<Rightarrow> Inl Use_After_Free | Some c \<Rightarrow> Inr c))"

text \<open>\<open>free\<close> of the context itself.\<close>

definition free_ctx :: "cm_heap \<Rightarrow> nat \<Rightarrow> cfault + cm_heap" where
  "free_ctx h a =
     and_then (release (ch_mem h) (Own a ())) (\<lambda>m.
       Inr (h\<lparr>ch_mem := m, ch_conns := (ch_conns h)(a := None)\<rparr>))"

definition destroy_mutex :: "unit cell \<Rightarrow> cfault + unit" where
  "destroy_mutex mx = (case mx of Indet \<Rightarrow> Inl Uninit_Mutex | Val _ \<Rightarrow> Inr ())"

text \<open>
  \<open>connmgr_destroy_conn\<close>, a \<open>free_func\<close> for \<open>ezq_clear\<close>. The store keeps the descriptors that
  were closed, in order.
\<close>

definition connmgr_destroy_conn :: "ptr \<Rightarrow> cm_heap \<Rightarrow> cfault + cm_heap" where
  [op_defs]: "connmgr_destroy_conn p_arg h =
     (case p_arg of
        NULL \<Rightarrow> Inr h
      | Addr a \<Rightarrow>
          and_then (ctx_at h p_arg) (\<lambda>c.
          and_then
            (if cc_type c = INBOUND_CONN then
               and_then (get_cell (cc_recv_buf c)) (\<lambda>p_recv_buf.
               and_then (release (ch_mem h) p_recv_buf) (\<lambda>m.
               and_then (get_cell (cc_send_buf c)) (\<lambda>p_send_buf.
               and_then (release m p_send_buf) (\<lambda>m.
               and_then (destroy_mutex (cc_mutex c)) (\<lambda>_. Inr m)))))
             else Inr (ch_mem h))
            (\<lambda>m. free_ctx (h\<lparr>ch_mem := m, ch_closed := ch_closed h @ [cc_fd c]\<rparr>) a)))"

text \<open>
  The cleanup labels of \<open>connmgr_create_new_conn\<close>. \<open>raw\<close> is what the block of the context
  happens to hold; its mutex and its buffer pointers are indeterminate until they are set.
\<close>

definition create_destroy_ctx :: "cm_heap \<Rightarrow> nat \<Rightarrow> cfault + cm_heap" where
  [op_defs]: "create_destroy_ctx h a = free_ctx h a"

definition create_destroy_mutex :: "cm_heap \<Rightarrow> nat \<Rightarrow> conn_ctx \<Rightarrow> cfault + cm_heap" where
  [op_defs]: "create_destroy_mutex h a c =
     and_then (destroy_mutex (cc_mutex c)) (\<lambda>_. create_destroy_ctx h a)"

definition create_destroy_recv_buf :: "cm_heap \<Rightarrow> nat \<Rightarrow> conn_ctx \<Rightarrow> cfault + cm_heap" where
  [op_defs]: "create_destroy_recv_buf h a c =
     and_then (get_cell (cc_recv_buf c)) (\<lambda>p_recv_buf.
     and_then (release (ch_mem h) p_recv_buf) (\<lambda>m.
       create_destroy_mutex (h\<lparr>ch_mem := m\<rparr>) a c))"

definition create_destroy_send_buf :: "cm_heap \<Rightarrow> nat \<Rightarrow> conn_ctx \<Rightarrow> cfault + cm_heap" where
  [op_defs]: "create_destroy_send_buf h a c =
     and_then (get_cell (cc_send_buf c)) (\<lambda>p_send_buf.
     and_then (release (ch_mem h) p_send_buf) (\<lambda>m.
       create_destroy_recv_buf (h\<lparr>ch_mem := m\<rparr>) a c))"

text \<open>The enqueueing at the end of \<open>connmgr_create_new_conn\<close>, with its error path.\<close>

definition create_enqueue :: "cm_heap \<Rightarrow> conn_mgr_t \<Rightarrow> nat \<Rightarrow> conn_ctx \<Rightarrow> cfault + (int \<times> conn_mgr_t option \<times> cm_heap)" where
  [op_defs]: "create_enqueue h mgr a c =
     (let h = h\<lparr>ch_conns := (ch_conns h)(a \<mapsto> c)\<rparr> in
      and_then (ezq_enqueue (ch_mem h) (deref (mgr_new_conns mgr)) (Addr a)) (\<lambda>(res, q, m).
        let h = h\<lparr>ch_mem := m\<rparr>; mgr = mgr\<lparr>mgr_new_conns := put_back (mgr_new_conns mgr) q\<rparr> in
        if res \<noteq> 0 then and_then (create_destroy_send_buf h a c) (\<lambda>h. Inr (res, Some mgr, h))
        else Inr (res, Some mgr, h)))"

definition connmgr_create_new_conn ::
    "cm_heap \<Rightarrow> conn_ctx \<Rightarrow> int \<Rightarrow> int \<Rightarrow> conn_mgr_t option \<Rightarrow> conn_type_t \<Rightarrow>
     cfault + (int \<times> conn_mgr_t option \<times> cm_heap)" where
  [op_defs]: "connmgr_create_new_conn h raw mutex_res fd p_mgr type =
     (case p_mgr of
        None \<Rightarrow> Inr (-1, None, h)
      | Some mgr \<Rightarrow>
          if fd < 0 then Inr (-1, p_mgr, h)
          else
            (case alloc (ch_mem h) () of
               (ONull, m) \<Rightarrow> Inr (-1, p_mgr, h\<lparr>ch_mem := m\<rparr>)
             | (Own a _, m) \<Rightarrow>
                 let c = raw\<lparr>cc_mutex := Indet, cc_recv_buf := Indet, cc_send_buf := Indet\<rparr>;
                     h = h\<lparr>ch_mem := m, ch_conns := (ch_conns h)(a \<mapsto> c)\<rparr> in
                 if type = INBOUND_CONN then
                   if mutex_res \<noteq> 0 then
                     and_then (create_destroy_ctx h a) (\<lambda>h. Inr (mutex_res, p_mgr, h))
                   else
                     (let c = c\<lparr>cc_mutex := Val ()\<rparr>;
                          (p_recv_buf, m) = alloc (ch_mem h) (replicate IO_BUF_SIZE Indet);
                          c = c\<lparr>cc_recv_buf := Val p_recv_buf\<rparr>; h = h\<lparr>ch_mem := m\<rparr> in
                      if p_recv_buf = ONull then
                        and_then (create_destroy_mutex h a c) (\<lambda>h. Inr (mutex_res, p_mgr, h))
                      else
                        (let (p_send_buf, m) = alloc (ch_mem h) (replicate IO_BUF_SIZE Indet);
                             c = c\<lparr>cc_send_buf := Val p_send_buf\<rparr>; h = h\<lparr>ch_mem := m\<rparr> in
                         if p_send_buf = ONull then
                           and_then (create_destroy_recv_buf h a c) (\<lambda>h. Inr (mutex_res, p_mgr, h))
                         else
                           create_enqueue h mgr a (c\<lparr>cc_ref_count := 0, cc_fd := fd, cc_bytes_read := 0,
                             cc_bytes_to_read := of_nat HEADER_SIZE, cc_bytes_sent := 0,
                             cc_bytes_to_send := 0, cc_state := READ_HEADER, cc_type := type\<rparr>)))
                 else
                   create_enqueue h mgr a (c\<lparr>cc_state := SPECIAL_CONN, cc_fd := fd,
                     cc_ref_count := 0, cc_type := type\<rparr>)))"

subsection \<open>All connections\<close>

text \<open>
  The loop of \<open>connmgr_destroy_all_conns\<close> over the active indices; the result of the last
  \<open>ezarr_set_at\<close> is overwritten by that of \<open>ezq_clear\<close>.
\<close>

fun destroy_active :: "nat \<Rightarrow> nat \<Rightarrow> ezarray owned \<Rightarrow> cm_heap \<Rightarrow> cfault + (ezarray owned \<times> cm_heap)" where
  "destroy_active idx 0 p_conns h = Inr (p_conns, h)"
| "destroy_active idx (Suc left) p_conns h =
     and_then (ezarr_get_at (deref p_conns) (of_nat idx) (Some NULL)) (\<lambda>(_, out).
       case out of
         Some (Addr a) \<Rightarrow>
           and_then (connmgr_destroy_conn (Addr a) h) (\<lambda>h.
           and_then (ezarr_set_at (deref p_conns) (of_nat idx) NULL) (\<lambda>(_, arr).
             destroy_active (Suc idx) left (put_back p_conns arr) h))
       | _ \<Rightarrow> destroy_active (Suc idx) left p_conns h)"

definition connmgr_destroy_all_conns ::
    "cm_heap \<Rightarrow> conn_mgr_t option \<Rightarrow> cfault + (int \<times> conn_mgr_t option \<times> cm_heap)" where
  [op_defs]: "connmgr_destroy_all_conns h p_mgr =
     (case p_mgr of
        None \<Rightarrow> Inr (-1, None, h)
      | Some mgr \<Rightarrow>
          and_then (destroy_active 0 (unat (mgr_num_active mgr)) (mgr_conns mgr) h) (\<lambda>(p_conns, h).
          and_then (ezq_clear (deref (mgr_new_conns mgr)) (Some connmgr_destroy_conn) h) (\<lambda>(res, q, h).
            Inr (res, Some (mgr\<lparr>mgr_conns := p_conns,
                   mgr_new_conns := put_back (mgr_new_conns mgr) q\<rparr>), h))))"

text \<open>
  The compaction of the poll array in \<open>connmgr_remove_closed_connections\<close>; both indices are
  \<open>int\<close> and stay below \<open>max_conns\<close>.
\<close>

fun pfds_loop :: "nat \<Rightarrow> nat \<Rightarrow> nat \<Rightarrow> pollfd cell list owned \<Rightarrow> cfault + (nat \<times> pollfd cell list owned)" where
  "pfds_loop read_idx 0 write_idx p_pfds = Inr (write_idx, p_pfds)"
| "pfds_loop read_idx (Suc left) write_idx p_pfds =
     and_then (load p_pfds read_idx) (\<lambda>x.
       if pf_fd x \<noteq> 0 then
         and_then
           (if write_idx \<noteq> read_idx then
              and_then (store p_pfds write_idx x) (\<lambda>p_pfds. store p_pfds read_idx zero_pollfd)
            else Inr p_pfds)
           (\<lambda>p_pfds. pfds_loop (Suc read_idx) left (Suc write_idx) p_pfds)
       else pfds_loop (Suc read_idx) left write_idx p_pfds)"

definition connmgr_remove_closed_connections ::
    "conn_mgr_t option \<Rightarrow> cfault + (int \<times> conn_mgr_t option)" where
  [op_defs]: "connmgr_remove_closed_connections p_mgr =
     (case p_mgr of
        None \<Rightarrow> Inr (-1, None)
      | Some mgr \<Rightarrow>
          if mgr_conns mgr = ONull \<or> mgr_pfds mgr = ONull then Inr (-1, p_mgr)
          else
            and_then (ezarr_compact (deref (mgr_conns mgr)) NULL) (\<lambda>(res, a).
              let mgr = mgr\<lparr>mgr_conns := put_back (mgr_conns mgr) a\<rparr> in
              if res \<noteq> 0 then Inr (res, Some mgr)
              else
                and_then (pfds_loop 0 (unat (mgr_max_conns mgr)) 0 (mgr_pfds mgr)) (\<lambda>(write_idx, p_pfds).
                  Inr (0, Some (mgr\<lparr>mgr_pfds := p_pfds, mgr_num_active := of_nat write_idx\<rparr>)))))"

definition all_events :: u16 where
  "all_events = POLLIN OR POLLOUT OR POLLHUP OR POLLERR OR POLLNVAL"

definition add_to_pollfd ::
    "cm_heap \<Rightarrow> ptr \<Rightarrow> pollfd cell list owned \<Rightarrow> u16 \<Rightarrow> u16 \<Rightarrow>
     cfault + (int \<times> pollfd cell list owned \<times> cm_heap)" where
  [op_defs]: "add_to_pollfd h p_ctx p_pfds cur_size max_size =
     (if p_ctx = NULL \<or> max_size = 0 then Inl Assert_Fail
      else
        and_then
          (if cur_size = max_size then
             if cur_size = 65535 then Inr (-1, p_pfds, h)
             else
               and_then (realloc (ch_mem h) p_pfds (unat (doubled cur_size))) (\<lambda>(p_tmp, m).
                 if p_tmp = ONull then Inr (-1, p_pfds, h\<lparr>ch_mem := m\<rparr>)
                 else Inr (0, p_tmp, h\<lparr>ch_mem := m\<rparr>))
           else Inr (0, p_pfds, h))
          (\<lambda>(res, p_pfds, h).
            if res \<noteq> 0 then Inr (res, p_pfds, h)
            else
              and_then (ctx_at h p_ctx) (\<lambda>c.
              and_then (store p_pfds (unat cur_size)
                  \<lparr>pf_fd = cc_fd c, pf_events = all_events, pf_revents = 0\<rparr>) (\<lambda>p_pfds.
                Inr (0, p_pfds, h)))))"

text \<open>
  The loop of \<open>connmgr_add_new_connections\<close>: \<open>add_one\<close> is its body after the dequeue. It ends
  because each round dequeues one item or leaves the loop.
\<close>

definition add_one :: "cm_heap \<Rightarrow> conn_mgr_t \<Rightarrow> ptr \<Rightarrow> cfault + (int \<times> conn_mgr_t \<times> cm_heap)" where
  [op_defs]: "add_one h mgr p_new_conn =
     and_then (ezarr_push (ch_mem h) (deref (mgr_conns mgr)) p_new_conn) (\<lambda>(res, arr, m).
       let h = h\<lparr>ch_mem := m\<rparr>; mgr = mgr\<lparr>mgr_conns := put_back (mgr_conns mgr) arr\<rparr> in
       if res \<noteq> 0 then Inr (res, mgr, h)
       else
         and_then (add_to_pollfd h p_new_conn (mgr_pfds mgr) (mgr_num_active mgr) (mgr_max_conns mgr))
           (\<lambda>(res, p_pfds, h).
             let mgr = mgr\<lparr>mgr_pfds := p_pfds\<rparr> in
             if res \<noteq> 0 then Inr (res, mgr, h)
             else
               (case deref (mgr_conns mgr) of
                  None \<Rightarrow> Inl Null_Deref
                | Some arr \<Rightarrow> Inr (0, mgr\<lparr>mgr_max_conns := ea_max_items arr,
                                mgr_num_active := mgr_num_active mgr + 1\<rparr>, h))))"

function add_loop :: "cm_heap \<Rightarrow> conn_mgr_t \<Rightarrow> ezqueue \<Rightarrow> int \<Rightarrow> cfault + (int \<times> conn_mgr_t \<times> cm_heap)" where
  "add_loop h mgr q res =
     (if 0 < eq_num_items q then
        and_then (ezq_dequeue (Some q) (Some NULL)) (\<lambda>(res, p, out).
          case (p, out) of
            (Some q', Some p_new_conn) \<Rightarrow>
              if res \<noteq> 0 then Inr (res, mgr, h)
              else
                and_then (add_one h (mgr\<lparr>mgr_new_conns := put_back (mgr_new_conns mgr) (Some q')\<rparr>) p_new_conn)
                  (\<lambda>r. if fst r \<noteq> 0 then Inr r else add_loop (snd (snd r)) (fst (snd r)) q' 0)
          | _ \<Rightarrow> Inl Null_Deref)
      else Inr (res, mgr, h))"
  by pat_completeness auto
termination
  by (relation "measure (\<lambda>(h, mgr, q, res). unat (eq_num_items q))") (auto dest!: ezq_dequeue_shrinks)

declare add_loop.simps [simp del]

definition connmgr_add_new_connections ::
    "cm_heap \<Rightarrow> conn_mgr_t option \<Rightarrow> cfault + (int \<times> conn_mgr_t option \<times> cm_heap)" where
  [op_defs]: "connmgr_add_new_connections h p_mgr =
     (case p_mgr of
        None \<Rightarrow> Inr (-1, None, h)
      | Some mgr \<Rightarrow>
          (case deref (mgr_new_conns mgr) of
             None \<Rightarrow> Inr (-1, p_mgr, h)
           | Some q \<Rightarrow>
               if mgr_conns mgr = ONull \<or> mgr_pfds mgr = ONull then Inr (-1, p_mgr, h)
               else if eq_num_items q = 0 then Inr (0, p_mgr, h)
               else and_then (add_loop h mgr q (-1)) (\<lambda>(res, mgr, h). Inr (res, Some mgr, h))))"

definition connmgr_update_connections ::
    "cm_heap \<Rightarrow> conn_mgr_t option \<Rightarrow> cfault + (int \<times> conn_mgr_t option \<times> cm_heap)" where
  [op_defs]: "connmgr_update_connections h p_mgr =
     (case p_mgr of
        None \<Rightarrow> Inr (-1, None, h)
      | Some mgr \<Rightarrow>
          and_then (connmgr_remove_closed_connections p_mgr) (\<lambda>(res, p_mgr).
            if res \<noteq> 0 then Inr (res, p_mgr, h) else connmgr_add_new_connections h p_mgr))"

subsection \<open>Who owns which block\<close>

text \<open>The blocks of one connection besides its context, and the blocks of a list of them.\<close>

definition buf_block :: "'a owned cell \<Rightarrow> nat list" where
  "buf_block p = (case p of Val (Own b _) \<Rightarrow> [b] | _ \<Rightarrow> [])"

definition ctx_blocks :: "(nat \<rightharpoonup> conn_ctx) \<Rightarrow> nat \<Rightarrow> nat list" where
  "ctx_blocks C a =
     a # (case C a of None \<Rightarrow> [] | Some c \<Rightarrow> buf_block (cc_recv_buf c) @ buf_block (cc_send_buf c))"

definition foot :: "(nat \<rightharpoonup> conn_ctx) \<Rightarrow> nat list \<Rightarrow> nat list" where
  "foot C as = concat (map (ctx_blocks C) as)"

text \<open>An inbound connection has its mutex and both buffers; an internal one has none of them.\<close>

definition conn_wf :: "conn_ctx \<Rightarrow> bool" where
  "conn_wf c \<longleftrightarrow> 0 < cc_fd c \<and>
     (case cc_type c of
        INBOUND_CONN \<Rightarrow> cc_mutex c = Val () \<and>
          (\<exists>rb rcs sb scs. cc_recv_buf c = Val (Own rb rcs) \<and> cc_send_buf c = Val (Own sb scs))
      | INTERNAL_CONN \<Rightarrow> cc_recv_buf c = Indet \<and> cc_send_buf c = Indet)"

text \<open>
  The live blocks are those of others, \<open>F\<close>, and, each once, the blocks \<open>base\<close> of the containers
  and those of the contexts \<open>as\<close>, which are all the contexts of the store.
\<close>

definition owns :: "cm_heap \<Rightarrow> nat set \<Rightarrow> nat list \<Rightarrow> nat list \<Rightarrow> bool" where
  "owns h F base as \<longleftrightarrow>
     mem_ok (ch_mem h) \<and> distinct (base @ foot (ch_conns h) as) \<and>
     live (ch_mem h) = F \<union> set (base @ foot (ch_conns h) as) \<and>
     F \<inter> set (base @ foot (ch_conns h) as) = {} \<and>
     dom (ch_conns h) = set as \<and> (\<forall>a c. ch_conns h a = Some c \<longrightarrow> conn_wf c)"

lemma foot_simps [simp]:
  "foot C [] = []" "foot C (a # as) = ctx_blocks C a @ foot C as" "foot C (as @ bs) = foot C as @ foot C bs"
  by (simp_all add: foot_def)

lemma foot_cong: "(\<And>a. a \<in> set as \<Longrightarrow> C a = C' a) \<Longrightarrow> foot C as = foot C' as"
  by (induction as) (auto simp: ctx_blocks_def)

lemma mset_foot: "mset as = mset as' \<Longrightarrow> mset (foot C as) = mset (foot C as')"
proof -
  have "mset (foot C xs) = sum_mset (image_mset (mset \<circ> ctx_blocks C) (mset xs))" for xs
    by (induction xs) simp_all
  then show "mset as = mset as' \<Longrightarrow> mset (foot C as) = mset (foot C as')" by simp
qed

lemma head_in_foot: "a \<in> set as \<Longrightarrow> a \<in> set (foot C as)"
  by (auto simp: foot_def ctx_blocks_def)

lemma owns_perm:
  assumes "owns h F base as" and "mset base' = mset base" and "mset as' = mset as"
  shows "owns h F base' as'"
proof -
  have m: "mset (base' @ foot (ch_conns h) as') = mset (base @ foot (ch_conns h) as)"
    using assms(2) mset_foot [OF assms(3)] by simp
  then have s: "set (base' @ foot (ch_conns h) as') = set (base @ foot (ch_conns h) as)"
    by (metis set_mset_mset)
  have "set as' = set as" using assms(3) by (metis set_mset_mset)
  then show ?thesis
    using assms(1) mset_eq_imp_distinct_iff [OF m] unfolding owns_def s by simp
qed

lemma owns_distinct: "owns h F base as \<Longrightarrow> distinct as"
proof (induction as arbitrary: base)
  case (Cons a as)
  then have d: "distinct (base @ foot (ch_conns h) (a # as))" by (simp only: owns_def)
  have "a \<notin> set as"
    using d head_in_foot [of a as] by (auto simp: ctx_blocks_def)
  moreover have "distinct as"
  proof -
    have "distinct (foot (ch_conns h) as)" using d by simp
    then show ?thesis
    proof (induction as)
      case (Cons b bs)
      then show ?case using head_in_foot [of b bs] by (auto simp: ctx_blocks_def)
    qed simp
  qed
  ultimately show ?case by simp
qed simp

lemma owns_swap:
  assumes "owns h F (b # base) as" and "swaps (ch_mem h) b m' b'"
  shows "owns (h\<lparr>ch_mem := m'\<rparr>) F (b' # base) as"
proof -
  let ?r = "set (base @ foot (ch_conns h) as)"
  have "live (ch_mem h) - {b} = F \<union> ?r" "b \<notin> F \<union> ?r" "distinct (base @ foot (ch_conns h) as)" "F \<inter> ?r = {}"
    using assms(1) by (auto simp: owns_def)
  moreover from this assms(2) have "live m' - {b'} = F \<union> ?r" "b' \<in> live m'" "mem_ok m'"
    by (simp_all add: swaps_def)
  moreover from this have "live m' = insert b' (F \<union> ?r)" "b' \<notin> F \<union> ?r" by auto
  ultimately show ?thesis using assms(1) by (auto simp: owns_def)
qed

lemma owns_same_live:
  "owns h F base as \<Longrightarrow> same_live (ch_mem h) m' \<Longrightarrow> owns (h\<lparr>ch_mem := m'\<rparr>) F base as"
  by (simp add: owns_def same_live_def)

lemma owns_member: "owns h F base as \<Longrightarrow> a \<in> set as \<Longrightarrow> \<exists>c. ch_conns h a = Some c \<and> conn_wf c"
  unfolding owns_def by blast

lemma diff3: "A - {x, y, z} = A - {z} - {y} - {x}"
  by auto

text \<open>Removing a context with its blocks, and adding one made of fresh blocks.\<close>

lemma owns_remove:
  assumes own: "owns h F base (a # as)"
    and h': "ch_conns h' = (ch_conns h)(a := None)"
      "ch_mem h' = m'\<lparr>live := live m' - set (ctx_blocks (ch_conns h) a)\<rparr>"
    and m': "same_live (ch_mem h) m'"
  shows "owns h' F base as"
proof -
  have "a \<notin> set as" using owns_distinct [OF own] by simp
  then have "foot (ch_conns h') as = foot (ch_conns h) as"
    by (intro foot_cong) (auto simp: h')
  moreover have "distinct (base @ ctx_blocks (ch_conns h) a @ foot (ch_conns h) as)"
    "F \<inter> set (ctx_blocks (ch_conns h) a) = {}"
    using own by (auto simp: owns_def)
  ultimately show ?thesis
    using own m' \<open>a \<notin> set as\<close> unfolding owns_def same_live_def by (auto simp: h' mem_ok_def)
qed

lemma owns_add:
  assumes own: "owns h F base as"
    and h': "ch_conns h' = (ch_conns h)(a \<mapsto> c)"
      "live (ch_mem h') = live (ch_mem h) \<union> set (ctx_blocks (ch_conns h') a)"
    and fresh: "\<forall>b \<in> set (ctx_blocks (ch_conns h') a). asked (ch_mem h) \<le> b \<and> b < asked (ch_mem h')"
    and d: "distinct (ctx_blocks (ch_conns h') a)" and wf: "conn_wf c"
    and le: "asked (ch_mem h) \<le> asked (ch_mem h')"
  shows "owns h' F base (as @ [a])"
proof -
  have new: "set (ctx_blocks (ch_conns h') a) \<inter> live (ch_mem h) = {}"
  proof -
    have "\<forall>b \<in> live (ch_mem h). b < asked (ch_mem h)" using own by (simp add: owns_def mem_ok_def)
    then show ?thesis using fresh by (meson disjoint_iff not_less)
  qed
  have "a \<in> set (ctx_blocks (ch_conns h') a)" by (simp add: ctx_blocks_def)
  then have "a \<notin> set as"
    using own new head_in_foot [of a as "ch_conns h"] by (auto simp: owns_def)
  then have f: "foot (ch_conns h') as = foot (ch_conns h) as"
    by (intro foot_cong) (auto simp: h')
  have "mem_ok (ch_mem h')"
    using own fresh le unfolding owns_def mem_ok_def h'(2) by (meson Un_iff less_le_trans)
  moreover have "\<forall>k c'. ch_conns h' k = Some c' \<longrightarrow> conn_wf c'"
    using own wf by (auto simp: owns_def h')
  ultimately show ?thesis
    using own new d f unfolding owns_def by (auto simp: h')
qed

text \<open>\<open>connmgr_destroy_conn\<close> closes the descriptor and gives back the blocks of one connection.\<close>

lemma destroy_conn_ok:
  assumes own: "owns h F base (a # as)" and c: "ch_conns h a = Some c"
  shows "\<exists>h'. connmgr_destroy_conn (Addr a) h = Inr h' \<and> owns h' F base as \<and>
    ch_closed h' = ch_closed h @ [cc_fd c] \<and> ch_conns h' = (ch_conns h)(a := None) \<and>
    ch_mem h' = (ch_mem h)\<lparr>live := live (ch_mem h) - set (ctx_blocks (ch_conns h) a)\<rparr>"
proof -
  define h' where "h' = h\<lparr>ch_mem := (ch_mem h)\<lparr>live := live (ch_mem h) - set (ctx_blocks (ch_conns h) a)\<rparr>,
    ch_closed := ch_closed h @ [cc_fd c], ch_conns := (ch_conns h)(a := None)\<rparr>"
  have d: "distinct (base @ ctx_blocks (ch_conns h) a @ foot (ch_conns h) as)"
    and l: "set (ctx_blocks (ch_conns h) a) \<subseteq> live (ch_mem h)"
    and wf: "conn_wf c" and mok: "mem_ok (ch_mem h)"
    using own c by (auto simp: owns_def)
  have "connmgr_destroy_conn (Addr a) h = Inr h'"
    using d l wf c
    by (cases "cc_type c")
      (auto simp: connmgr_destroy_conn_def ctx_at_def conn_wf_def ctx_blocks_def buf_block_def mem_simps
        destroy_mutex_def free_ctx_def h'_def diff3)
  moreover have "owns h' F base as"
    by (rule owns_remove [OF own _ _ same_live_refl [OF mok]]) (simp_all add: h'_def)
  ultimately show ?thesis by (auto simp: h'_def)
qed

definition fd_of :: "cm_heap \<Rightarrow> nat \<Rightarrow> int" where
  "fd_of h a = (case ch_conns h a of None \<Rightarrow> 0 | Some c \<Rightarrow> cc_fd c)"

text \<open>So it is a \<open>free_func\<close>: the items are the connections owned, the trace the closed descriptors.\<close>

lemma destroy_conn_frees:
  assumes "owns h F base (a # as)"
  shows "\<exists>h'. connmgr_destroy_conn (Addr a) h = Inr h' \<and> owns h' F base as \<and>
    ch_closed h' = ch_closed h @ [fd_of h a] \<and> (\<forall>k \<in> set as. fd_of h' k = fd_of h k)"
proof -
  obtain c where c: "ch_conns h a = Some c" using owns_member [OF assms, of a] by auto
  moreover have "a \<notin> set as" using owns_distinct [OF assms] by simp
  ultimately show ?thesis
    using destroy_conn_ok [OF assms c] by (auto simp: fd_of_def)
qed

interpretation conns: free_func connmgr_destroy_conn "\<lambda>as h. owns h F base as" fd_of ch_closed for F base
  by unfold_locales (rule destroy_conn_frees)

subsection \<open>What a manager holds\<close>

text \<open>
  \<open>cm_rep h mgr F xs ns\<close>: the array holds the pointers \<open>xs\<close>, where \<open>NULL\<close> is a connection closed
  since the last update; entry i of the poll array has the descriptor of the i-th, 0 for \<open>NULL\<close>;
  the queue holds the contexts \<open>ns\<close>; the capacity of the two arrays and the count agree; and the
  live blocks are exactly those of the manager and its connections, and \<open>F\<close>.
\<close>

definition fd_at :: "cm_heap \<Rightarrow> ptr \<Rightarrow> int" where
  "fd_at h p = (case p of NULL \<Rightarrow> 0 | Addr a \<Rightarrow> fd_of h a)"

definition polls :: "cm_heap \<Rightarrow> ptr list \<Rightarrow> pollfd cell list \<Rightarrow> bool" where
  "polls h xs pcs \<longleftrightarrow> (\<exists>pfs rest. pcs = map Val pfs @ rest \<and> map pf_fd pfs = map (fd_at h) xs)"

definition cm_shape ::
    "cm_heap \<Rightarrow> conn_mgr_t \<Rightarrow> nat \<Rightarrow> nat \<Rightarrow> nat \<Rightarrow> nat \<Rightarrow> nat \<Rightarrow> ptr list \<Rightarrow> nat list \<Rightarrow> bool" where
  "cm_shape h mgr ca ab pb qa qb xs ns \<longleftrightarrow>
     (\<exists>a spare. mgr_conns mgr = Own ca a \<and> ea_rep (ch_mem h) a ab xs spare \<and> mgr_max_conns mgr = ea_max_items a) \<and>
     (\<exists>pcs. mgr_pfds mgr = Own pb pcs \<and> length pcs = unat (mgr_max_conns mgr) \<and> polls h xs pcs) \<and>
     (\<exists>q. mgr_new_conns mgr = Own qa q \<and> eq_rep (ch_mem h) q qb (map Addr ns)) \<and>
     length xs = unat (mgr_num_active mgr)"

definition cm_rep :: "cm_heap \<Rightarrow> conn_mgr_t \<Rightarrow> nat set \<Rightarrow> ptr list \<Rightarrow> nat list \<Rightarrow> bool" where
  "cm_rep h mgr F xs ns \<longleftrightarrow>
     (\<exists>ca ab pb qa qb. cm_shape h mgr ca ab pb qa qb xs ns \<and> owns h F [ca, ab, pb, qa, qb] (addrs xs @ ns))"

lemma cm_repI:
  "cm_shape h mgr ca ab pb qa qb xs ns \<Longrightarrow> owns h F [ca, ab, pb, qa, qb] (addrs xs @ ns) \<Longrightarrow> cm_rep h mgr F xs ns"
  unfolding cm_rep_def by blast

lemma cm_repE:
  assumes "cm_rep h mgr F xs ns"
  obtains ca ab pb qa qb a spare pcs q where
    "mgr_conns mgr = Own ca a" "ea_rep (ch_mem h) a ab xs spare" "mgr_max_conns mgr = ea_max_items a"
    "mgr_pfds mgr = Own pb pcs" "length pcs = unat (mgr_max_conns mgr)" "polls h xs pcs"
    "mgr_new_conns mgr = Own qa q" "eq_rep (ch_mem h) q qb (map Addr ns)"
    "length xs = unat (mgr_num_active mgr)" "owns h F [ca, ab, pb, qa, qb] (addrs xs @ ns)"
  using assms unfolding cm_rep_def cm_shape_def by blast

text \<open>Beyond the active entries both arrays hold no connection: true until one of them has grown.\<close>

definition cm_clean :: "conn_mgr_t \<Rightarrow> bool" where
  "cm_clean mgr \<longleftrightarrow>
     (\<forall>c \<in> set (drop (unat (mgr_num_active mgr)) (target (ea_pp_buf (target (mgr_conns mgr))))). c = Val NULL) \<and>
     (\<forall>c \<in> set (drop (unat (mgr_num_active mgr)) (target (mgr_pfds mgr))).
       \<exists>pf. c = Val pf \<and> pf_fd pf = 0)"

lemma addrs_member: "Addr k \<in> set xs \<longleftrightarrow> k \<in> set (addrs xs)"
proof (induction xs)
  case (Cons x xs)
  then show ?case by (cases x) auto
qed simp

lemma addrs_filter [simp]: "addrs (filter (\<lambda>x. x \<noteq> NULL) xs) = addrs xs"
proof (induction xs)
  case (Cons x xs)
  then show ?case by (cases x) simp_all
qed simp

subsection \<open>Set-up and tear-down\<close>

lemma same_live_more: "same_live m m' \<Longrightarrow> same_live m (m'\<lparr>asked := Suc (asked m')\<rparr>)"
  by (auto simp: same_live_def)

lemma connmgr_init_ok:
  assumes "mem_ok m" and "0 < n" and "\<forall>i < 5. grant m (asked m + i)"
  shows "\<exists>mgr' m'. connmgr_init m ra rq (Some mgr) n = Inr (0, Some mgr', m') \<and>
    cm_rep \<lparr>ch_mem = m', ch_conns = Map.empty, ch_closed = []\<rparr> mgr' (live m) [] [] \<and>
    cm_clean mgr' \<and> mgr_max_conns mgr' = n"
proof -
  let ?k = "asked m"
  have g: "grant m ?k" "grant m (Suc ?k)" "grant m (Suc (Suc ?k))" "grant m (Suc (Suc (Suc ?k)))"
    "grant m (Suc (Suc (Suc (Suc ?k))))"
    using assms(3) by (force simp: eval_nat_numeral dest: spec)+
  have fresh: "b \<notin> live m" if "?k \<le> b" for b
    using assms(1) that by (auto simp: mem_ok_def)
  have pos: "0 < unat n" using assms(2) by (simp add: word_less_nat_alt)
  define m' where "m' = m\<lparr>asked := ?k + 5, live := {?k, ?k+1, ?k+2, ?k+3, ?k+4} \<union> live m\<rparr>"
  define a' where "a' = ra\<lparr>ea_pp_buf := Own (?k+1) (replicate (unat n) (Val NULL)), ea_max_items := n, ea_num_items := 0\<rparr>"
  define q' where "q' = rq\<lparr>eq_pp_buf := Own (?k+4) (replicate (unat n) Indet), eq_max_items := n,
    eq_idx_head := -1, eq_idx_tail := -1, eq_num_items := 0\<rparr>"
  define mgr' where "mgr' = mgr\<lparr>mgr_conns := Own ?k a', mgr_pfds := Own (?k+2) (replicate (unat n) (Val zero_pollfd)),
    mgr_new_conns := Own (?k+3) q', mgr_max_conns := n, mgr_num_active := 0\<rparr>"
  have "connmgr_init m ra rq (Some mgr) n = Inr (0, Some mgr', m')"
    using g assms(2)
    by (simp add: connmgr_init_def ezarr_init_def ezq_init_def mem_simps Let_def mgr'_def a'_def q'_def m'_def
        insert_commute eval_nat_numeral)
  moreover have "cm_shape \<lparr>ch_mem = m', ch_conns = Map.empty, ch_closed = []\<rparr> mgr' ?k (?k+1) (?k+2) (?k+3) (?k+4) [] []"
    using pos
    by (auto simp: cm_shape_def mgr'_def a'_def q'_def m'_def ea_rep_def eq_rep_def polls_def word_gt_0)
  moreover have "owns \<lparr>ch_mem = m', ch_conns = Map.empty, ch_closed = []\<rparr> (live m) [?k, ?k+1, ?k+2, ?k+3, ?k+4] []"
    using fresh assms(1) by (auto simp: owns_def m'_def mem_ok_def)
  moreover have "cm_clean mgr'" by (auto simp: cm_clean_def mgr'_def a'_def zero_pollfd_def)
  ultimately show ?thesis
    by (intro exI [of _ mgr'] exI [of _ m']) (auto intro: cm_repI simp: mgr'_def)
qed

lemma connmgr_init_refused:
  assumes "mem_ok m" and "0 < n" and "\<not> (\<forall>i < 5. grant m (asked m + i))"
  shows "\<exists>m'. connmgr_init m ra rq (Some mgr) n = Inr (-1, Some mgr, m') \<and> same_live m m'"
proof -
  let ?k = "asked m"
  have fresh: "b \<notin> live m" if "?k \<le> b" for b
    using assms(1) that by (auto simp: mem_ok_def)
  have "\<not> grant m ?k \<or> \<not> grant m (Suc ?k) \<or> \<not> grant m (Suc (Suc ?k)) \<or> \<not> grant m (Suc (Suc (Suc ?k))) \<or>
    \<not> grant m (Suc (Suc (Suc (Suc ?k))))"
    using assms(3) by (auto simp: eval_nat_numeral less_Suc_eq)
  then consider (0)  "\<not> grant m ?k"
    | (1) "grant m ?k" "\<not> grant m (Suc ?k)"
    | (2) "grant m ?k" "grant m (Suc ?k)" "\<not> grant m (Suc (Suc ?k))"
    | (3) "grant m ?k" "grant m (Suc ?k)" "grant m (Suc (Suc ?k))" "\<not> grant m (Suc (Suc (Suc ?k)))"
    | (4) "grant m ?k" "grant m (Suc ?k)" "grant m (Suc (Suc ?k))" "grant m (Suc (Suc (Suc ?k)))" "\<not> grant m (Suc (Suc (Suc (Suc ?k))))"
    by blast
  then have "\<exists>j. connmgr_init m ra rq (Some mgr) n = Inr (-1, Some mgr, m\<lparr>asked := ?k + j\<rparr>)"
  proof cases
    case 0
    then show ?thesis
      using assms(2) fresh by (intro exI [of _ 1]) (simp add: op_defs mem_simps Let_def insert_Diff_if eval_nat_numeral)
  next
    case 1
    then show ?thesis
      using assms(2) fresh by (intro exI [of _ 2]) (simp add: op_defs mem_simps Let_def insert_Diff_if eval_nat_numeral)
  next
    case 2
    then show ?thesis
      using assms(2) fresh by (intro exI [of _ 3]) (simp add: op_defs mem_simps Let_def insert_Diff_if eval_nat_numeral)
  next
    case 3
    then show ?thesis
      using assms(2) fresh by (intro exI [of _ 4]) (simp add: op_defs mem_simps Let_def insert_Diff_if eval_nat_numeral)
  next
    case 4
    then show ?thesis
      using assms(2) fresh by (intro exI [of _ 5]) (simp add: op_defs mem_simps Let_def insert_Diff_if eval_nat_numeral)
  qed
  moreover have "same_live m (m\<lparr>asked := ?k + j\<rparr>)" for j
    using assms(1) by (auto simp: same_live_def mem_ok_def)
  ultimately show ?thesis by blast
qed

lemma connmgr_deinit_ok:
  assumes r: "mgr_conns mgr = Own ca a" "ea_rep (ch_mem h) a ab xs spare" "mgr_pfds mgr = Own pb pcs"
      "mgr_new_conns mgr = Own qa q" "eq_rep (ch_mem h) q qb ys"
    and own: "owns h F [ca, ab, pb, qa, qb] []"
  shows "\<exists>m'. connmgr_deinit (ch_mem h) (Some mgr) =
    Inr (0, Some (mgr\<lparr>mgr_new_conns := ONull, mgr_pfds := ONull, mgr_conns := ONull\<rparr>), m') \<and>
    live m' = F \<and> grant m' = grant (ch_mem h) \<and> mem_ok m'"
proof -
  have l: "live (ch_mem h) = F \<union> {ca, ab, pb, qa, qb}" "distinct [ca, ab, pb, qa, qb]"
    "F \<inter> {ca, ab, pb, qa, qb} = {}" "mem_ok (ch_mem h)"
    using own by (auto simp: owns_def)
  define m1 where "m1 = (ch_mem h)\<lparr>live := live (ch_mem h) - {qb} - {qa} - {pb}\<rparr>"
  have "ea_rep m1 a ab xs spare"
    using r(2) l by (auto intro: ea_rep_cong simp: m1_def)
  from deinit_ok [OF this] qdeinit_ok [OF r(5)] l r
  have "connmgr_deinit (ch_mem h) (Some mgr) =
      Inr (0, Some (mgr\<lparr>mgr_new_conns := ONull, mgr_pfds := ONull, mgr_conns := ONull\<rparr>),
        m1\<lparr>live := live m1 - {ab} - {ca}\<rparr>)"
    by (auto simp: connmgr_deinit_def mem_simps m1_def)
  moreover have "live m1 - {ab} - {ca} = F"
    using l by (auto simp: m1_def)
  ultimately show ?thesis
    using l(4) by (auto simp: m1_def mem_ok_def)
qed

subsection \<open>Creating a connection\<close>

lemma polls_cong:
  assumes "polls h xs pcs" and "\<And>a. a \<in> set (addrs xs) \<Longrightarrow> ch_conns h' a = ch_conns h a"
  shows "polls h' xs pcs"
proof -
  have "fd_at h' x = fd_at h x" if "x \<in> set xs" for x
    by (cases x; use that assms(2) addrs_member in \<open>auto simp: fd_at_def fd_of_def\<close>)
  then have eq: "map (fd_at h') xs = map (fd_at h) xs" by simp
  show ?thesis using assms(1) unfolding polls_def eq .
qed

lemma polls_same: "polls h xs pcs \<Longrightarrow> ch_conns h' = ch_conns h \<Longrightarrow> polls h' xs pcs"
  by (rule polls_cong) simp_all

text \<open>Putting a complete connection into the queue.\<close>

lemma create_enqueue_ok:
  assumes shape: "cm_shape h mgr ca ab pb qa qb xs ns"
    and own: "owns h1 F [ca, ab, pb, qa, qb] (addrs xs @ ns @ [a])"
    and h1: "h1 = h\<lparr>ch_mem := m1, ch_conns := (ch_conns h)(a \<mapsto> c)\<rparr>"
    and live: "live (ch_mem h) \<subseteq> live m1"
  shows "\<exists>(res :: int) mgr' h'. create_enqueue (h\<lparr>ch_mem := m1, ch_conns := (ch_conns h)(a \<mapsto> c0)\<rparr>) mgr a c =
      (if res = 0 then Inr (0, Some mgr', h') else
         and_then (create_destroy_send_buf h' a c) (\<lambda>h. Inr (-1, Some mgr, h))) \<and>
    (if length ns < unat (eq_max_items (target (mgr_new_conns mgr))) \<or>
        length ns < 65535 \<and> grant m1 (asked m1)
     then res = 0 \<and> ch_conns h' = ch_conns h1 \<and> ch_closed h' = ch_closed h \<and> cm_rep h' mgr' F xs (ns @ [a]) \<and>
       (\<exists>p. mgr' = mgr\<lparr>mgr_new_conns := p\<rparr>)
     else res = -1 \<and> h' = h1\<lparr>ch_mem := ch_mem h'\<rparr> \<and> same_live m1 (ch_mem h'))"
proof -
  obtain a0 spare pcs q where r: "mgr_conns mgr = Own ca a0" "ea_rep (ch_mem h) a0 ab xs spare"
    "mgr_max_conns mgr = ea_max_items a0" "mgr_pfds mgr = Own pb pcs" "length pcs = unat (mgr_max_conns mgr)"
    "polls h xs pcs" "mgr_new_conns mgr = Own qa q" "eq_rep (ch_mem h) q qb (map Addr ns)"
    "length xs = unat (mgr_num_active mgr)"
    using shape unfolding cm_shape_def by blast
  have q1: "eq_rep m1 q qb (map Addr ns)" and mok: "mem_ok m1"
    using r(8) live own eq_rep_live eq_rep_cong by (blast, simp add: owns_def h1)
  obtain res q' m' where enq: "ezq_enqueue m1 (Some q) (Addr a) = Inr (res, Some q', m')"
    and out: "if length ns < unat (eq_max_items q) \<or> length ns < 65535 \<and> grant m1 (asked m1)
      then res = 0 \<and> (\<exists>b'. eq_rep m' q' b' (map Addr ns @ [Addr a]) \<and> swaps m1 qb m' b')
      else res = -1 \<and> q' = q \<and> same_live m1 m'"
  proof -
    from enqueue_outcome [OF q1 mok, of "Addr a"] obtain res q' m' where
      "ezq_enqueue m1 (Some q) (Addr a) = Inr (res, Some q', m')"
      "if length ns < unat (eq_max_items q) \<or> length ns < 65535 \<and> grant m1 (asked m1)
       then res = 0 \<and> (\<exists>b'. eq_rep m' q' b' (map Addr ns @ [Addr a]) \<and> swaps m1 qb m' b')
       else res = -1 \<and> q' = q \<and> same_live m1 m'"
      unfolding length_map by (metis (no_types, lifting))
    then show ?thesis by (rule that)
  qed
  show ?thesis
  proof (cases "length ns < unat (eq_max_items q) \<or> length ns < 65535 \<and> grant m1 (asked m1)")
    case True
    with out obtain b' where b': "eq_rep m' q' b' (map Addr ns @ [Addr a])" "swaps m1 qb m' b'" "res = 0" by auto
    define h' where "h' = h1\<lparr>ch_mem := m'\<rparr>"
    define mgr' where "mgr' = mgr\<lparr>mgr_new_conns := Own qa q'\<rparr>"
    have "owns h1 F [qb, ca, ab, pb, qa] (addrs xs @ ns @ [a])"
      by (rule owns_perm [OF own]) simp_all
    then have "owns h' F [b', ca, ab, pb, qa] (addrs xs @ ns @ [a])"
      unfolding h'_def by (rule owns_swap) (simp add: b' h1)
    then have own': "owns h' F [ca, ab, pb, qa, b'] (addrs xs @ ns @ [a])"
      by (rule owns_perm) simp_all
    have "ab \<noteq> qb" "ab \<in> live m1" using own by (auto simp: owns_def h1)
    then have "ab \<in> live m'" using swaps_other [OF b'(2)] by blast
    moreover have "a \<notin> set (addrs xs)" using owns_distinct [OF own] by simp
    then have "polls h' xs pcs" by (intro polls_cong [OF r(6)]) (auto simp: h'_def h1)
    ultimately have "cm_shape h' mgr' ca ab pb qa b' xs (ns @ [a])"
      unfolding cm_shape_def using r b' by (auto simp: mgr'_def h'_def intro: ea_rep_cong)
    with own' have "cm_rep h' mgr' F xs (ns @ [a])" by (intro cm_repI) auto
    moreover have "create_enqueue (h\<lparr>ch_mem := m1, ch_conns := (ch_conns h)(a \<mapsto> c0)\<rparr>) mgr a c = Inr (0, Some mgr', h')"
      using enq r b'(3) by (simp add: create_enqueue_def Let_def h'_def mgr'_def h1)
    ultimately show ?thesis
      using True r by (intro exI [of _ 0] exI [of _ mgr'] exI [of _ h']) (auto simp: h'_def h1 mgr'_def)
  next
    case False
    with out have f: "res = -1" "q' = q" "same_live m1 m'" by auto
    have same: "mgr\<lparr>mgr_new_conns := Own qa q\<rparr> = mgr" using r(7) by simp
    have "create_enqueue (h\<lparr>ch_mem := m1, ch_conns := (ch_conns h)(a \<mapsto> c0)\<rparr>) mgr a c =
        and_then (create_destroy_send_buf (h1\<lparr>ch_mem := m'\<rparr>) a c) (\<lambda>h. Inr (-1, Some mgr, h))"
      using enq r f by (simp add: create_enqueue_def Let_def h1 same)
    then show ?thesis
      using False r f by (intro exI [of _ "-1"] exI [of _ mgr] exI [of _ "h1\<lparr>ch_mem := m'\<rparr>"]) (simp add: h1)
  qed
qed

text \<open>What an inbound connection is when it has just been made.\<close>

definition fresh_conn :: "int \<Rightarrow> conn_ctx \<Rightarrow> bool" where
  "fresh_conn fd c \<longleftrightarrow>
     cc_type c = INBOUND_CONN \<and> cc_mutex c = Val () \<and> cc_ref_count c = 0 \<and> cc_fd c = fd \<and>
     (\<exists>rb rcs. cc_recv_buf c = Val (Own rb rcs) \<and> length rcs = 1024) \<and>
     (\<exists>sb scs. cc_send_buf c = Val (Own sb scs) \<and> length scs = 1024) \<and>
     cc_bytes_read c = 0 \<and> cc_bytes_to_read c = 3 \<and> cc_bytes_sent c = 0 \<and> cc_bytes_to_send c = 0 \<and>
     cc_state c = READ_HEADER"

lemma fresh_wf: "0 < fd \<Longrightarrow> fresh_conn fd c \<Longrightarrow> conn_wf c"
  by (auto simp: fresh_conn_def conn_wf_def)

text \<open>The context is given up: whatever was made for it is freed and nothing else changes.\<close>

lemma cm_shape_cong:
  assumes "cm_shape h mgr ca ab pb qa qb xs ns" and "ab \<in> live (ch_mem h')" and "qb \<in> live (ch_mem h')"
    and "\<And>a. a \<in> set (addrs xs) \<Longrightarrow> ch_conns h' a = ch_conns h a"
  shows "cm_shape h' mgr ca ab pb qa qb xs ns"
proof -
  have "polls h xs pcs \<Longrightarrow> polls h' xs pcs" for pcs
    by (rule polls_cong [OF _ assms(4)])
  moreover have "ea_rep (ch_mem h) a ab xs spare \<Longrightarrow> ea_rep (ch_mem h') a ab xs spare" for a spare
    by (rule ea_rep_cong [OF _ assms(2)])
  moreover have "eq_rep (ch_mem h) q qb ys \<Longrightarrow> eq_rep (ch_mem h') q qb ys" for q ys
    by (rule eq_rep_cong [OF _ assms(3)])
  ultimately show ?thesis using assms(1) unfolding cm_shape_def by blast
qed

lemma cm_shape_live:
  "cm_shape h mgr ca ab pb qa qb xs ns \<Longrightarrow> ab \<in> live (ch_mem h) \<and> qb \<in> live (ch_mem h)"
  unfolding cm_shape_def using ea_rep_live eq_rep_live by blast

lemma cm_rep_same:
  assumes "cm_rep h mgr F xs ns" and "same_live (ch_mem h) m'"
  shows "cm_rep (h\<lparr>ch_mem := m'\<rparr>) mgr F xs ns"
proof -
  obtain ca ab pb qa qb where sh: "cm_shape h mgr ca ab pb qa qb xs ns"
    and own: "owns h F [ca, ab, pb, qa, qb] (addrs xs @ ns)"
    using assms(1) unfolding cm_rep_def by blast
  have "live m' = live (ch_mem h)" using assms(2) by (simp add: same_live_def)
  then have "cm_shape (h\<lparr>ch_mem := m'\<rparr>) mgr ca ab pb qa qb xs ns"
    using cm_shape_live [OF sh] by (intro cm_shape_cong [OF sh]) auto
  with owns_same_live [OF own assms(2)] show ?thesis by (rule cm_repI [rotated])
qed

lemma discard_blocks:
  assumes "mem_ok m" and "\<forall>b \<in> B. asked m \<le> b"
    and "grant m' = grant m" and "asked m \<le> asked m'" and "live m' = live m \<union> B"
  shows "same_live m (m'\<lparr>live := live m' - B\<rparr>)"
proof -
  have "live m \<inter> B = {}" using assms(1,2) by (fastforce simp: mem_ok_def)
  then show ?thesis using assms by (auto simp: same_live_def mem_ok_def dest: less_le_trans)
qed

lemma heap_upd_swap:
  "(h :: cm_heap)\<lparr>ch_mem := m, ch_conns := C\<rparr> = h\<lparr>ch_conns := C, ch_mem := m\<rparr>"
  by simp

text \<open>
  Before a new context reaches the queue: whatever is refused, what was made for it is freed
  again; otherwise the context is complete and goes to the queue.
\<close>

lemmas create_defs = connmgr_create_new_conn_def create_destroy_ctx_def create_destroy_mutex_def
  create_destroy_recv_buf_def free_ctx_def destroy_mutex_def Let_def

lemma create_refused:
  assumes m: "m = ch_mem h" and k: "k = asked m" and fd: "0 < fd" and fresh: "\<And>b. k \<le> b \<Longrightarrow> b \<notin> live m" and ka: "ch_conns h k = None"
    and refused: "\<not> (grant m k \<and> mutex_res = 0 \<and> grant m (k + 1) \<and> grant m (k + 2))"
  shows "\<exists>res j. connmgr_create_new_conn h raw mutex_res fd (Some mgr) INBOUND_CONN =
      Inr (res, Some mgr, h\<lparr>ch_mem := m\<lparr>asked := k + j\<rparr>\<rparr>) \<and> (mutex_res = 0 \<and> grant m k \<longleftrightarrow> res = 0)"
proof -
  let ?run = "connmgr_create_new_conn h raw mutex_res fd (Some mgr) INBOUND_CONN"
  have gone: "(ch_conns h)(k := None) = ch_conns h" using ka by auto
  note unf = create_defs mem_simps m [symmetric] k [symmetric]
  consider (no_ctx) "\<not> grant m k" | (no_mutex) "grant m k" "mutex_res \<noteq> 0"
    | (no_recv) "grant m k" "mutex_res = 0" "\<not> grant m (Suc k)"
    | (no_send) "grant m k" "mutex_res = 0" "grant m (Suc k)" "\<not> grant m (Suc (Suc k))"
    using refused by auto
  then show ?thesis
  proof cases
    case no_ctx
    then have "?run = Inr (-1, Some mgr, h\<lparr>ch_mem := m\<lparr>asked := k + 1\<rparr>\<rparr>)"
      using fd by (simp add: unf)
    then show ?thesis using no_ctx by (intro exI conjI) (assumption, simp)
  next
    case no_mutex
    then have "?run = Inr (mutex_res, Some mgr, h\<lparr>ch_mem := m\<lparr>asked := k + 1\<rparr>\<rparr>)"
      using fd gone fresh by (simp add: unf)
    then show ?thesis using no_mutex by (intro exI conjI) (assumption, simp)
  next
    case no_recv
    then have "?run = Inr (0, Some mgr, h\<lparr>ch_mem := m\<lparr>asked := k + 2\<rparr>\<rparr>)"
      using fd gone fresh by (simp add: unf)
    then show ?thesis using no_recv by (intro exI conjI) (assumption, simp)
  next
    case no_send
    then have "?run = Inr (0, Some mgr, h\<lparr>ch_mem := m\<lparr>asked := k + 3\<rparr>\<rparr>)"
      using fd gone fresh by (simp add: unf insert_Diff_if eval_nat_numeral)
    then show ?thesis using no_send by (intro exI conjI) (assumption, simp)
  qed
qed

lemma create_made:
  assumes m: "m = ch_mem h" and k: "k = asked m" and fd: "0 < fd" and made: "grant m k" "mutex_res = 0" "grant m (k + 1)" "grant m (k + 2)"
  shows "\<exists>c0 c. connmgr_create_new_conn h raw mutex_res fd (Some mgr) INBOUND_CONN =
      create_enqueue (h\<lparr>ch_mem := m\<lparr>asked := k + 3, live := {k + 2, k + 1, k} \<union> live m\<rparr>,
        ch_conns := (ch_conns h)(k \<mapsto> c0)\<rparr>) mgr k c \<and> fresh_conn fd c \<and>
    cc_recv_buf c = Val (Own (k + 1) (replicate 1024 Indet)) \<and>
    cc_send_buf c = Val (Own (k + 2) (replicate 1024 Indet))"
proof -
  define c where "c = raw\<lparr>cc_mutex := Val (), cc_recv_buf := Val (Own (k + 1) (replicate 1024 Indet)),
    cc_send_buf := Val (Own (k + 2) (replicate 1024 Indet)), cc_ref_count := 0, cc_fd := fd, cc_bytes_read := 0,
    cc_bytes_to_read := 3, cc_bytes_sent := 0, cc_bytes_to_send := 0, cc_state := READ_HEADER,
    cc_type := INBOUND_CONN\<rparr>"
  have "connmgr_create_new_conn h raw mutex_res fd (Some mgr) INBOUND_CONN =
      create_enqueue (h\<lparr>ch_mem := m\<lparr>asked := k + 3, live := {k + 2, k + 1, k} \<union> live m\<rparr>,
        ch_conns := (ch_conns h)(k \<mapsto> raw\<lparr>cc_mutex := Indet, cc_recv_buf := Indet, cc_send_buf := Indet\<rparr>)\<rparr>) mgr k c"
    using made fd
    by (simp add: create_defs mem_simps m [symmetric] k [symmetric] c_def numeral_3_eq_3 heap_upd_swap)
  then show ?thesis
    by (intro exI conjI) (assumption, simp_all add: fresh_conn_def c_def)
qed

text \<open>When the queue refuses the context, what was made for it is freed again.\<close>

lemma create_undone:
  assumes "h' = h\<lparr>ch_mem := m, ch_conns := (ch_conns h)(k \<mapsto> c)\<rparr>"
    and "cc_recv_buf c = Val (Own (k + 1) (replicate 1024 Indet))"
    and "cc_send_buf c = Val (Own (k + 2) (replicate 1024 Indet))"
    and "fresh_conn fd c" and "{k, k + 1, k + 2} \<subseteq> live m" and "ch_conns h k = None"
  shows "create_destroy_send_buf h' k c = Inr (h\<lparr>ch_mem := m\<lparr>live := live m - {k, k + 1, k + 2}\<rparr>\<rparr>)"
proof -
  have gone: "(ch_conns h)(k := None) = ch_conns h" using assms(6) by auto
  then show ?thesis
    using assms(2-5)
    by (simp add: assms(1) create_destroy_send_buf_def create_defs mem_simps fresh_conn_def diff3)
qed

text \<open>
  The outcomes of creating an inbound connection. Nothing is lost on any error path: the manager
  and the live blocks are as before. A refused buffer is reported as \<open>mutex_res\<close>, that is 0.
\<close>

lemma create_inbound_ok:
  assumes rep: "cm_rep h mgr F xs ns" and fd: "0 < fd"
  shows "\<exists>res mgr' h'. connmgr_create_new_conn h raw mutex_res fd (Some mgr) INBOUND_CONN = Inr (res, Some mgr', h') \<and>
    ch_closed h' = ch_closed h \<and>
    ((\<exists>a c. res = 0 \<and> cm_rep h' mgr' F xs (ns @ [a]) \<and> fresh_conn fd c \<and> ch_conns h' = (ch_conns h)(a \<mapsto> c) \<and>
        ch_conns h a = None) \<or>
     cm_rep h' mgr' F xs ns \<and> mgr' = mgr \<and> ch_conns h' = ch_conns h \<and>
       (mutex_res = 0 \<and> grant (ch_mem h) (asked (ch_mem h)) \<and>
        \<not> (grant (ch_mem h) (asked (ch_mem h) + 1) \<and> grant (ch_mem h) (asked (ch_mem h) + 2)) \<longleftrightarrow> res = 0))"
proof -
  let ?m = "ch_mem h" let ?k = "asked (ch_mem h)"
  obtain ca ab pb qa qb where sh: "cm_shape h mgr ca ab pb qa qb xs ns"
    and own: "owns h F [ca, ab, pb, qa, qb] (addrs xs @ ns)"
    using rep unfolding cm_rep_def by blast
  have mok: "mem_ok ?m" and dom: "dom (ch_conns h) \<subseteq> live ?m"
    using own head_in_foot [of _ "addrs xs @ ns" "ch_conns h"] unfolding owns_def by auto
  have fresh: "b \<notin> live ?m" if "?k \<le> b" for b
    using mok that by (auto simp: mem_ok_def)
  have ka: "ch_conns h ?k = None" using dom fresh [of ?k] by auto
  have keep: "cm_rep (h\<lparr>ch_mem := ?m\<lparr>asked := ?k + j\<rparr>\<rparr>) mgr F xs ns" for j
    by (rule cm_rep_same [OF rep]) (use mok in \<open>auto simp: same_live_def mem_ok_def\<close>)
  show ?thesis
  proof (cases "grant ?m ?k \<and> mutex_res = 0 \<and> grant ?m (?k + 1) \<and> grant ?m (?k + 2)")
    case False
    from create_refused [OF refl refl fd fresh ka False, of raw mgr] show ?thesis
      using keep False by fastforce
  next
    case made: True
    define m1 where "m1 = ?m\<lparr>asked := ?k + 3, live := {?k + 2, ?k + 1, ?k} \<union> live ?m\<rparr>"
    from create_made [OF refl refl fd, of h mutex_res raw mgr] made obtain c0 c where
      run: "connmgr_create_new_conn h raw mutex_res fd (Some mgr) INBOUND_CONN =
        create_enqueue (h\<lparr>ch_mem := m1, ch_conns := (ch_conns h)(?k \<mapsto> c0)\<rparr>) mgr ?k c"
      and fc: "fresh_conn fd c" and bufs: "cc_recv_buf c = Val (Own (?k + 1) (replicate 1024 Indet))"
        "cc_send_buf c = Val (Own (?k + 2) (replicate 1024 Indet))"
      unfolding m1_def by blast
    define h1 where "h1 = h\<lparr>ch_mem := m1, ch_conns := (ch_conns h)(?k \<mapsto> c)\<rparr>"
    have bl: "ctx_blocks (ch_conns h1) ?k = [?k, ?k + 1, ?k + 2]"
      using fc by (simp add: ctx_blocks_def h1_def bufs buf_block_def fresh_conn_def)
    have "owns h1 F [ca, ab, pb, qa, qb] ((addrs xs @ ns) @ [?k])"
      by (rule owns_add [OF own, of _ _ c]) (use bl fresh_wf [OF fd fc] in \<open>auto simp: h1_def m1_def\<close>)
    then have own1: "owns h1 F [ca, ab, pb, qa, qb] (addrs xs @ ns @ [?k])" by simp
    have "live ?m \<subseteq> live m1" by (auto simp: m1_def)
    from create_enqueue_ok [OF sh own1 h1_def this, where ?c0.0 = c0] obtain res mgr' h' where
      run2: "create_enqueue (h\<lparr>ch_mem := m1, ch_conns := (ch_conns h)(?k \<mapsto> c0)\<rparr>) mgr ?k c =
      (if res = 0 then Inr (0, Some mgr', h') else
         and_then (create_destroy_send_buf h' ?k c) (\<lambda>h. Inr (-1, Some mgr, h)))"
      and out: "if length ns < unat (eq_max_items (target (mgr_new_conns mgr))) \<or>
        length ns < 65535 \<and> grant m1 (asked m1)
      then (res :: int) = 0 \<and> ch_conns h' = ch_conns h1 \<and> ch_closed h' = ch_closed h \<and>
        cm_rep h' mgr' F xs (ns @ [?k]) \<and> (\<exists>p. mgr' = mgr\<lparr>mgr_new_conns := p\<rparr>)
      else res = -1 \<and> h' = h1\<lparr>ch_mem := ch_mem h'\<rparr> \<and> same_live m1 (ch_mem h')"
      by blast
    show ?thesis
    proof (cases "res = 0")
      case True
      then show ?thesis
        using out run run2 fc ka by (fastforce simp: h1_def split: if_splits)
    next
      case False
      then have h': "h' = h1\<lparr>ch_mem := ch_mem h'\<rparr>" and sl: "same_live m1 (ch_mem h')"
        using out by (auto split: if_splits)
      have "h' = h\<lparr>ch_mem := ch_mem h', ch_conns := (ch_conns h)(?k \<mapsto> c)\<rparr>"
        by (subst h') (simp add: h1_def)
      moreover have "{?k, ?k + 1, ?k + 2} \<subseteq> live (ch_mem h')"
        using sl by (simp add: same_live_def m1_def)
      ultimately have "create_destroy_send_buf h' ?k c = Inr (h\<lparr>ch_mem :=
          (ch_mem h')\<lparr>live := live (ch_mem h') - {?k, ?k + 1, ?k + 2}\<rparr>\<rparr>)"
        by (rule create_undone [OF _ bufs fc _ ka])
      moreover have "same_live ?m ((ch_mem h')\<lparr>live := live (ch_mem h') - {?k, ?k + 1, ?k + 2}\<rparr>)"
        using mok sl by (intro discard_blocks) (auto simp: same_live_def m1_def)
      ultimately show ?thesis
        using False run run2 made cm_rep_same [OF rep] by auto
    qed
  qed
qed

end
