(* ===== verification/Conn_Update.thy ===== *)
theory Conn_Update
  imports Conn_Mgr
begin

text \<open>
  What the three operations of \<open>src/libs/connmgr/connmgr.c\<close> that work on all connections do with
  the containers: \<open>connmgr_update_connections\<close> (closing up the arrays, then moving the new
  connections into them) and \<open>connmgr_destroy_all_conns\<close>. The definitions are in \<open>Conn_Mgr\<close>.
\<close>

subsection \<open>Moving new connections into the arrays\<close>

lemma polls_mem [simp]: "polls (h\<lparr>ch_mem := m\<rparr>) xs pcs = polls h xs pcs"
  by (intro iffI; erule polls_cong) simp_all

lemma polls_snoc:
  assumes "polls h xs pcs" and "length xs < length pcs" and "pf_fd pf = fd_of h k"
  shows "polls h (xs @ [Addr k]) (pcs[length xs := Val pf])"
proof -
  obtain pfs rest where p: "pcs = map Val pfs @ rest" "map pf_fd pfs = map (fd_at h) xs"
    using assms(1) by (auto simp: polls_def)
  then have len: "length pfs = length xs" by (metis length_map)
  then obtain r rs where r: "rest = r # rs" using assms(2) p(1) by (cases rest) auto
  have "pcs[length xs := Val pf] = map Val (pfs @ [pf]) @ rs"
    using p(1) r len by (simp add: list_update_append)
  moreover have "map pf_fd (pfs @ [pf]) = map (fd_at h) (xs @ [Addr k])"
    using p(2) assms(3) by (simp add: fd_at_def)
  ultimately show ?thesis unfolding polls_def by blast
qed

lemma polls_resize:
  assumes "polls h xs pcs" and "length pcs \<le> n"
  shows "polls h xs (resize_cells n pcs)"
proof -
  obtain pfs rest where p: "pcs = map Val pfs @ rest" "map pf_fd pfs = map (fd_at h) xs"
    using assms(1) by (auto simp: polls_def)
  then have "resize_cells n pcs = map Val pfs @ (rest @ replicate (n - length pcs) Indet)"
    using assms(2) by (simp add: resize_cells_def)
  then show ?thesis using p(2) unfolding polls_def by blast
qed

lemma add_to_pollfd_ok:
  assumes mok: "mem_ok (ch_mem h)" and pb: "pb \<in> live (ch_mem h)"
    and len: "length pcs = unat mx" "length xs = unat cur" and le: "cur \<le> mx" and pos: "0 < mx"
    and pl: "polls h xs pcs" and c: "ch_conns h k = Some c"
  shows "\<exists>res p' m'. add_to_pollfd h (Addr k) (Own pb pcs) cur mx = Inr (res, p', h\<lparr>ch_mem := m'\<rparr>) \<and>
    (if cur \<noteq> mx \<or> cur \<noteq> 65535 \<and> grant (ch_mem h) (asked (ch_mem h))
     then res = 0 \<and> (\<exists>pb' pcs'. p' = Own pb' pcs' \<and> polls h (xs @ [Addr k]) pcs' \<and>
       length pcs' = unat (if cur = mx then doubled mx else mx) \<and> swaps (ch_mem h) pb m' pb' \<and>
       (cur \<noteq> mx \<longrightarrow> m' = ch_mem h \<and> drop (Suc (length xs)) pcs' = drop (Suc (length xs)) pcs))
     else res = -1 \<and> p' = Own pb pcs \<and> same_live (ch_mem h) m')"
proof -
  let ?pf = "\<lparr>pf_fd = cc_fd c, pf_events = all_events, pf_revents = 0\<rparr>" and ?m = "ch_mem h"
  have at: "ctx_at h (Addr k) = Inr c" using c by (simp add: ctx_at_def)
  have fd: "pf_fd ?pf = fd_of h k" using c by (simp add: fd_of_def)
  have mx: "mx \<noteq> 0" using pos by auto
  show ?thesis
  proof (cases "cur = mx")
    case False
    then have lt: "length xs < length pcs" using le len by (simp add: word_le_nat_alt word_unat_eq_iff)
    let ?pcs' = "pcs[length xs := Val ?pf]"
    have "add_to_pollfd h (Addr k) (Own pb pcs) cur mx = Inr (0, Own pb ?pcs', h\<lparr>ch_mem := ?m\<rparr>)"
      using False mx at lt len by (simp add: add_to_pollfd_def)
    moreover have "polls h (xs @ [Addr k]) ?pcs'" using polls_snoc [OF pl lt fd] .
    ultimately show ?thesis using False len swaps_refl [OF mok pb] by auto
  next
    case True
    show ?thesis
    proof (cases "cur \<noteq> 65535 \<and> grant ?m (asked ?m)")
      case refused: False
      have "\<exists>m'. add_to_pollfd h (Addr k) (Own pb pcs) cur mx = Inr (-1, Own pb pcs, h\<lparr>ch_mem := m'\<rparr>) \<and>
        same_live ?m m'"
      proof (cases "cur = 65535")
        case True
        then show ?thesis
          using \<open>cur = mx\<close> mok by (intro exI [of _ ?m]) (simp add: add_to_pollfd_def same_live_refl)
      next
        case False
        then show ?thesis
          using refused \<open>cur = mx\<close> mok pb mx
          by (intro exI [of _ "?m\<lparr>asked := Suc (asked ?m)\<rparr>"])
            (simp add: add_to_pollfd_def realloc_def mem_simps same_live_asked)
      qed
      then show ?thesis using True refused by auto
    next
      case grow: True
      let ?n = "unat (doubled mx)"
      let ?m' = "?m\<lparr>asked := Suc (asked ?m), live := insert (asked ?m) (live ?m) - {pb}\<rparr>"
      let ?cs = "resize_cells ?n pcs"
      let ?pcs' = "?cs[length xs := Val ?pf]"
      have lt: "length xs < ?n"
        using doubled_grows [OF pos] grow True len by simp
      have "pb \<noteq> asked ?m" using mok pb by (rule mem_ok_freshD)
      then have "add_to_pollfd h (Addr k) (Own pb pcs) cur mx = Inr (0, Own (asked ?m) ?pcs', h\<lparr>ch_mem := ?m'\<rparr>)"
        using True grow mx at lt len pb by (auto simp: add_to_pollfd_def realloc_def mem_simps ctx_at_def)
      moreover have "polls h xs ?cs" using polls_resize [OF pl] len lt True by simp
      then have "polls h (xs @ [Addr k]) ?pcs'" using polls_snoc [OF _ _ fd] lt by simp
      ultimately show ?thesis using True grow swaps_grown [OF mok pb] by auto
    qed
  qed
qed

lemma owns_swap_at:
  assumes "owns h F (us @ b # vs) as" and "swaps (ch_mem h) b m' b'"
  shows "owns (h\<lparr>ch_mem := m'\<rparr>) F (us @ b' # vs) as"
proof -
  have "owns h F (b # us @ vs) as" by (rule owns_perm [OF assms(1)]) simp_all
  from owns_swap [OF this assms(2)] show ?thesis by (rule owns_perm) simp_all
qed

text \<open>The two arrays after a connection went into both, with room in both.\<close>

lemma clean_snoc:
  assumes "cm_clean mgr" and "ea_pp_buf (target (mgr_conns mgr)) = Own ab (map Val xs @ spare)"
    and "mgr_pfds mgr = Own pb pcs" and "length xs = unat (mgr_num_active mgr)"
    and "ea_pp_buf (target (mgr_conns mgr')) = Own ab (map Val (xs @ [x]) @ tl spare)"
    and "mgr_pfds mgr' = Own pb' pcs'" and "drop (Suc (length xs)) pcs' = drop (Suc (length xs)) pcs"
    and "unat (mgr_num_active mgr') = Suc (length xs)"
  shows "cm_clean mgr'"
proof -
  have "\<forall>c \<in> set spare. c = Val NULL" "\<forall>c \<in> set (drop (length xs) pcs). \<exists>pf. c = Val pf \<and> pf_fd pf = 0"
    using assms(1-4) by (simp_all add: cm_clean_def)
  moreover have "set (drop (Suc (length xs)) pcs) \<subseteq> set (drop (length xs) pcs)"
    by (rule set_drop_subset_set_drop) simp
  moreover have "set (tl spare) \<subseteq> set spare" by (cases spare) auto
  moreover have "drop (Suc (length xs)) (map Val (xs @ [x]) @ tl spare) = tl spare" by simp
  ultimately show ?thesis
    using assms(5-8) unfolding cm_clean_def by (simp del: map_append) blast
qed

text \<open>Both arrays have been extended by the same connection.\<close>

lemma added_shape:
  assumes shape: "cm_shape h mgr ca ab pb qa qb xs ns"
    and own: "owns (h\<lparr>ch_mem := m1\<rparr>) F [ca, ab1, pb, qa, qb] (addrs xs @ k # ns)"
    and ea: "ea_rep m1 a1 ab1 (xs @ [Addr k]) spare1" and sw: "swaps m1 pb m2 pb'"
    and pl: "polls h (xs @ [Addr k]) pcs'" "length pcs' = unat (ea_max_items a1)"
    and mgr2: "mgr2 = mgr\<lparr>mgr_conns := Own ca a1, mgr_pfds := Own pb' pcs', mgr_max_conns := ea_max_items a1,
      mgr_num_active := mgr_num_active mgr + 1\<rparr>"
  shows "cm_shape (h\<lparr>ch_mem := m2\<rparr>) mgr2 ca ab1 pb' qa qb (xs @ [Addr k]) ns \<and>
    owns (h\<lparr>ch_mem := m2\<rparr>) F [ca, ab1, pb', qa, qb] (addrs xs @ k # ns) \<and>
    unat (mgr_num_active mgr2) = Suc (length xs)"
proof -
  have own2: "owns (h\<lparr>ch_mem := m2\<rparr>) F [ca, ab1, pb', qa, qb] (addrs xs @ k # ns)"
    using owns_swap_at [of "h\<lparr>ch_mem := m1\<rparr>" F "[ca, ab1]" pb "[qa, qb]"] own sw by simp
  then have lv2: "ab1 \<in> live m2" "qb \<in> live m2" by (auto simp: owns_def)
  have len: "length xs = unat (mgr_num_active mgr)"
    and q: "\<exists>q. mgr_new_conns mgr = Own qa q \<and> eq_rep (ch_mem h) q qb (map Addr ns)"
    using shape by (simp_all add: cm_shape_def)
  have "unat (mgr_num_active mgr + 1) = length (xs @ [Addr k])"
    using ea len u16_max [of "ea_max_items a1"] unat_u16_of_nat [of "length xs + 1"]
    by (simp add: ea_rep_def unat_word_ariths)
  moreover obtain q where "mgr_new_conns mgr = Own qa q" "eq_rep m2 q qb (map Addr ns)"
    using q eq_rep_cong [OF _ lv2(2)] by blast
  ultimately show ?thesis
    unfolding cm_shape_def mgr2 using pl own2 ea_rep_cong [OF ea lv2(1)] by auto
qed

text \<open>
  One connection moved from the queue into both arrays: the step after the push was accepted, and
  the whole step. When it fails the connection is in no container, or in the array only; its
  blocks stay live.
\<close>

definition added ::
    "cm_heap \<Rightarrow> conn_mgr_t \<Rightarrow> nat set \<Rightarrow> ptr list \<Rightarrow> nat \<Rightarrow> nat list \<Rightarrow> int \<Rightarrow> conn_mgr_t \<Rightarrow> cm_heap \<Rightarrow>
     nat \<Rightarrow> nat \<Rightarrow> nat \<Rightarrow> nat \<Rightarrow> bool" where
  "added h mgr F xs k ns res mgr' h' ca pb qa qb \<longleftrightarrow>
     h' = h\<lparr>ch_mem := ch_mem h'\<rparr> \<and> mgr_new_conns mgr' = mgr_new_conns mgr \<and>
     (res = 0 \<longrightarrow> (\<exists>ab' pb'. cm_shape h' mgr' ca ab' pb' qa qb (xs @ [Addr k]) ns \<and>
        owns h' F [ca, ab', pb', qa, qb] (addrs xs @ k # ns))) \<and>
     (length xs < unat (mgr_max_conns mgr) \<longrightarrow> res = 0 \<and> ch_mem h' = ch_mem h \<and>
        mgr_max_conns mgr' = mgr_max_conns mgr \<and> (cm_clean mgr \<longrightarrow> cm_clean mgr')) \<and>
     (res \<noteq> 0 \<longrightarrow> mgr_num_active mgr' = mgr_num_active mgr \<and>
        (\<exists>ab'. owns h' F [ca, ab', pb, qa, qb] (addrs xs @ k # ns)))"

lemma add_one_pushed:
  assumes shape: "cm_shape h mgr ca ab pb qa qb xs ns"
    and own: "owns h F [ca, ab, pb, qa, qb] (addrs xs @ k # ns)"
    and a: "mgr_conns mgr = Own ca a" "ea_rep (ch_mem h) a ab xs spare" "mgr_max_conns mgr = ea_max_items a"
    and push: "ezarr_push (ch_mem h) (Some a) (Addr k) = Inr (0, Some a1, m1)"
    and p: "ea_rep m1 a1 ab1 (xs @ [Addr k]) spare1" "swaps (ch_mem h) ab m1 ab1"
      "spare \<noteq> [] \<longrightarrow> m1 = ch_mem h \<and> ab1 = ab \<and> spare1 = tl spare"
    and mx: "ea_max_items a1 = (if spare = [] then doubled (ea_max_items a) else ea_max_items a)"
  shows "\<exists>res mgr' h'. add_one h mgr (Addr k) = Inr (res, mgr', h') \<and>
    added h mgr F xs k ns res mgr' h' ca pb qa qb"
proof -
  obtain pcs where r: "mgr_pfds mgr = Own pb pcs" "length pcs = unat (mgr_max_conns mgr)"
    "polls h xs pcs" "length xs = unat (mgr_num_active mgr)"
    using shape unfolding cm_shape_def by blast
  obtain c where c: "ch_conns h k = Some c" using owns_member [OF own, of k] by auto
  have spare: "length xs + length spare = unat (mgr_max_conns mgr)" "0 < mgr_max_conns mgr"
    using a by (simp_all add: ea_rep_def)
  have le: "mgr_num_active mgr \<le> mgr_max_conns mgr" using spare r(4) by (simp add: word_le_nat_alt)
  have full: "mgr_num_active mgr = mgr_max_conns mgr \<longleftrightarrow> spare = []"
    using spare r(4) by (auto simp: word_unat_eq_iff)
  let ?h1 = "h\<lparr>ch_mem := m1\<rparr>"
  have own1: "owns ?h1 F [ca, ab1, pb, qa, qb] (addrs xs @ k # ns)"
    using owns_swap_at [of h F "[ca]" ab "[pb, qa, qb]"] own p(2) by simp
  then have "mem_ok (ch_mem ?h1)" "pb \<in> live (ch_mem ?h1)" "polls ?h1 xs pcs" "ch_conns ?h1 k = Some c"
    using c r(3) by (simp_all add: owns_def)
  from add_to_pollfd_ok [OF this(1,2) r(2,4) le spare(2) this(3,4)]
  obtain res p' m2 where add: "add_to_pollfd ?h1 (Addr k) (Own pb pcs) (mgr_num_active mgr) (mgr_max_conns mgr) =
      Inr (res, p', ?h1\<lparr>ch_mem := m2\<rparr>)"
    and ao: "if mgr_num_active mgr \<noteq> mgr_max_conns mgr \<or>
        mgr_num_active mgr \<noteq> 65535 \<and> grant (ch_mem ?h1) (asked (ch_mem ?h1))
     then res = 0 \<and> (\<exists>pb' pcs'. p' = Own pb' pcs' \<and> polls ?h1 (xs @ [Addr k]) pcs' \<and>
       length pcs' = unat (if mgr_num_active mgr = mgr_max_conns mgr then doubled (mgr_max_conns mgr)
         else mgr_max_conns mgr) \<and> swaps (ch_mem ?h1) pb m2 pb' \<and>
       (mgr_num_active mgr \<noteq> mgr_max_conns mgr \<longrightarrow>
         m2 = ch_mem ?h1 \<and> drop (Suc (length xs)) pcs' = drop (Suc (length xs)) pcs))
     else res = -1 \<and> p' = Own pb pcs \<and> same_live (ch_mem ?h1) m2"
    by blast
  have run: "add_one h mgr (Addr k) = Inr (res,
      (let mgr1 = mgr\<lparr>mgr_conns := Own ca a1, mgr_pfds := p'\<rparr> in if res = 0
      then mgr1\<lparr>mgr_max_conns := ea_max_items a1, mgr_num_active := mgr_num_active mgr + 1\<rparr> else mgr1),
      h\<lparr>ch_mem := m2\<rparr>)"
    using push a r(1) add by (simp add: add_one_def Let_def)
  show ?thesis
  proof (cases "res = 0")
    case False
    then have "same_live m1 m2" "spare = []" using ao full by (auto split: if_splits)
    then have "owns (h\<lparr>ch_mem := m2\<rparr>) F [ca, ab1, pb, qa, qb] (addrs xs @ k # ns)"
      using owns_same_live [OF own1] by simp
    then show ?thesis
      using False run \<open>spare = []\<close> spare by (auto simp: added_def)
  next
    case zero: True
    then obtain pb' pcs' where pf: "p' = Own pb' pcs'" "polls h (xs @ [Addr k]) pcs'"
      "length pcs' = unat (ea_max_items a1)" "swaps m1 pb m2 pb'"
      "spare \<noteq> [] \<longrightarrow> m2 = m1 \<and> drop (Suc (length xs)) pcs' = drop (Suc (length xs)) pcs"
      using ao mx a(3) full by (auto split: if_splits)
    define mgr2 where "mgr2 = mgr\<lparr>mgr_conns := Own ca a1, mgr_pfds := Own pb' pcs',
      mgr_max_conns := ea_max_items a1, mgr_num_active := mgr_num_active mgr + 1\<rparr>"
    note sh2 = added_shape [OF shape own1 p(1) pf(4,2,3) mgr2_def]
    have "cm_clean mgr2" if "cm_clean mgr" "spare \<noteq> []"
      by (rule clean_snoc [OF that(1), of ab xs spare pb pcs mgr2 "Addr k" pb' pcs'])
        (use that a(1,2) p r pf sh2 in \<open>simp_all add: mgr2_def ea_rep_def\<close>)
    moreover have "add_one h mgr (Addr k) = Inr (0, mgr2, h\<lparr>ch_mem := m2\<rparr>)"
      using run zero pf(1) by (simp add: mgr2_def Let_def)
    moreover have "spare \<noteq> []" if "length xs < unat (mgr_max_conns mgr)" using that spare by auto
    moreover have "mgr_new_conns mgr2 = mgr_new_conns mgr" "mgr_max_conns mgr2 = ea_max_items a1"
      by (simp_all add: mgr2_def)
    ultimately show ?thesis
      using sh2 p(3) pf(5) mx a(3)
      by (intro exI [of _ 0] exI [of _ mgr2] exI [of _ "h\<lparr>ch_mem := m2\<rparr>"]) (auto simp: added_def)
  qed
qed

lemma add_one_ok:
  assumes shape: "cm_shape h mgr ca ab pb qa qb xs ns"
    and own: "owns h F [ca, ab, pb, qa, qb] (addrs xs @ k # ns)"
  shows "\<exists>res mgr' h'. add_one h mgr (Addr k) = Inr (res, mgr', h') \<and>
    added h mgr F xs k ns res mgr' h' ca pb qa qb"
proof -
  obtain a spare where a: "mgr_conns mgr = Own ca a" "ea_rep (ch_mem h) a ab xs spare"
    "mgr_max_conns mgr = ea_max_items a"
    using shape unfolding cm_shape_def by blast
  have "mem_ok (ch_mem h)" using own by (simp add: owns_def)
  from push_outcome [OF a(2) this, of "Addr k"] obtain res a1 m1 where
    push: "ezarr_push (ch_mem h) (Some a) (Addr k) = Inr (res, Some a1, m1)"
    and po: "if spare \<noteq> [] \<or> length xs < 65535 \<and> grant (ch_mem h) (asked (ch_mem h))
     then res = 0 \<and> ea_max_items a1 = (if spare = [] then doubled (ea_max_items a) else ea_max_items a) \<and>
       (\<exists>b' spare'. ea_rep m1 a1 b' (xs @ [Addr k]) spare' \<and> swaps (ch_mem h) ab m1 b' \<and>
          (spare \<noteq> [] \<longrightarrow> m1 = ch_mem h \<and> b' = ab \<and> spare' = tl spare))
     else res = -1 \<and> a1 = a \<and> same_live (ch_mem h) m1"
    by blast
  show ?thesis
  proof (cases "res = 0")
    case True
    then show ?thesis
      using add_one_pushed [OF shape own a, of a1 m1] push po by (auto split: if_splits)
  next
    case False
    then have f: "res = -1" "a1 = a" "same_live (ch_mem h) m1" "spare = []" using po by (auto split: if_splits)
    have "add_one h mgr (Addr k) = Inr (-1, mgr, h\<lparr>ch_mem := m1\<rparr>)"
      using push a f by (simp add: add_one_def Let_def)
    then show ?thesis
      using a f owns_same_live [OF own f(3)] by (auto simp: added_def ea_rep_def)
  qed
qed

lemma added_same:
  assumes "added h mgr F xs k ns res mgr' h' ca pb qa qb"
  shows "ch_conns h' = ch_conns h" "ch_closed h' = ch_closed h"
proof -
  have "h' = h\<lparr>ch_mem := ch_mem h'\<rparr>" using assms by (simp add: added_def)
  then show "ch_conns h' = ch_conns h" "ch_closed h' = ch_closed h"
    by (metis cm_heap.select_convs cm_heap.surjective cm_heap.update_convs)+
qed

lemma add_loop_ok:
  assumes "cm_shape h mgr ca ab pb qa qb xs ns" and "mgr_new_conns mgr = Own qa q"
    and "owns h F [ca, ab, pb, qa, qb] (addrs xs @ ns)" and "ns \<noteq> [] \<or> res0 = 0"
  shows "\<exists>res mgr' h'. add_loop h mgr q res0 = Inr (res, mgr', h') \<and> ch_conns h' = ch_conns h \<and> ch_closed h' = ch_closed h \<and>
    (res = 0 \<longrightarrow> cm_rep h' mgr' F (xs @ map Addr ns) []) \<and>
    (length xs + length ns \<le> unat (mgr_max_conns mgr) \<longrightarrow>
       res = 0 \<and> (cm_clean mgr \<longrightarrow> cm_clean mgr') \<and> mgr_max_conns mgr' = mgr_max_conns mgr) \<and>
    (res \<noteq> 0 \<longrightarrow> (\<exists>ab' pb'. owns h' F [ca, ab', pb', qa, qb] (addrs xs @ ns)))"
  using assms
proof (induction ns arbitrary: xs h mgr q res0 ab pb)
  case Nil
  then have "eq_rep (ch_mem h) q qb (map Addr [])" by (simp add: cm_shape_def)
  then have "\<not> 0 < eq_num_items q" by (auto simp: eq_rep_def unat_eq_zero word_less_nat_alt)
  then have "add_loop h mgr q res0 = Inr (0, mgr, h)" using Nil by (subst add_loop.simps) simp
  moreover have "cm_rep h mgr F (xs @ map Addr []) []" using Nil by (auto intro: cm_repI)
  ultimately show ?case by auto
next
  case (Cons k ns)
  have rep: "eq_rep (ch_mem h) q qb (Addr k # map Addr ns)" using Cons.prems by (simp add: cm_shape_def)
  obtain q1 where q1: "ezq_dequeue (Some q) (Some NULL) = Inr (0, Some q1, Some (Addr k))"
    "eq_rep (ch_mem h) q1 qb (map Addr ns)"
    using dequeue_cons [OF rep] by blast
  have pos: "0 < eq_num_items q" using eq_rep_len [OF rep] by (simp add: word_less_nat_alt)
  define mgr1 where "mgr1 = mgr\<lparr>mgr_new_conns := Own qa q1\<rparr>"
  have sh1: "cm_shape h mgr1 ca ab pb qa qb xs ns"
    using Cons.prems(1) q1 by (auto simp: cm_shape_def mgr1_def)
  have cl: "cm_clean mgr1 = cm_clean mgr" "mgr_max_conns mgr1 = mgr_max_conns mgr"
    by (simp_all add: cm_clean_def mgr1_def)
  obtain res mgr2 h2 where one: "add_one h mgr1 (Addr k) = Inr (res, mgr2, h2)"
    and ad: "added h mgr1 F xs k ns res mgr2 h2 ca pb qa qb"
    using add_one_ok [OF sh1 Cons.prems(3)] by blast
  have step: "add_loop h mgr q res0 = (if res \<noteq> 0 then Inr (res, mgr2, h2) else add_loop h2 mgr2 q1 0)"
    using q1 pos one Cons.prems(2) by (subst add_loop.simps) (simp add: mgr1_def)
  show ?case
  proof (cases "res = 0")
    case False
    then show ?thesis using step ad cl added_same [OF ad] by (auto simp: added_def)
  next
    case True
    then obtain ab2 pb2 where s2: "cm_shape h2 mgr2 ca ab2 pb2 qa qb (xs @ [Addr k]) ns"
      "owns h2 F [ca, ab2, pb2, qa, qb] (addrs (xs @ [Addr k]) @ ns)" "mgr_new_conns mgr2 = Own qa q1"
      and h2: "ch_conns h2 = ch_conns h" "ch_closed h2 = ch_closed h"
      and room: "length xs < unat (mgr_max_conns mgr) \<Longrightarrow> mgr_max_conns mgr2 = mgr_max_conns mgr \<and>
        (cm_clean mgr \<longrightarrow> cm_clean mgr2)"
      using ad cl added_same [OF ad] by (auto simp: added_def mgr1_def)
    obtain res' mgr' h' where run: "add_loop h2 mgr2 q1 0 = Inr (res', mgr', h')" and h': "ch_conns h' = ch_conns h2" "ch_closed h' = ch_closed h2"
      and ok: "res' = 0 \<longrightarrow> cm_rep h' mgr' F ((xs @ [Addr k]) @ map Addr ns) []"
      and room': "length (xs @ [Addr k]) + length ns \<le> unat (mgr_max_conns mgr2) \<longrightarrow>
         res' = 0 \<and> (cm_clean mgr2 \<longrightarrow> cm_clean mgr') \<and> mgr_max_conns mgr' = mgr_max_conns mgr2"
      and bad: "res' \<noteq> 0 \<longrightarrow> (\<exists>ab' pb'. owns h' F [ca, ab', pb', qa, qb] (addrs (xs @ [Addr k]) @ ns))"
      using Cons.IH [OF s2(1,3,2)] by blast
    show ?thesis
      using step True run ok room room' bad h' h2 by (intro exI [of _ res'] exI [of _ mgr'] exI [of _ h']) auto
  qed
qed

lemma add_new_ok:
  assumes "cm_rep h mgr F xs ns"
  shows "\<exists>res mgr' h'. connmgr_add_new_connections h (Some mgr) = Inr (res, Some mgr', h') \<and>
    ch_conns h' = ch_conns h \<and> ch_closed h' = ch_closed h \<and>
    (res = 0 \<longrightarrow> cm_rep h' mgr' F (xs @ map Addr ns) []) \<and>
    (length xs + length ns \<le> unat (mgr_max_conns mgr) \<longrightarrow>
       res = 0 \<and> (cm_clean mgr \<longrightarrow> cm_clean mgr') \<and> mgr_max_conns mgr' = mgr_max_conns mgr)"
proof -
  obtain ca ab pb qa qb where sh: "cm_shape h mgr ca ab pb qa qb xs ns"
    and own: "owns h F [ca, ab, pb, qa, qb] (addrs xs @ ns)"
    using assms unfolding cm_rep_def by blast
  obtain q where q: "mgr_new_conns mgr = Own qa q" "eq_rep (ch_mem h) q qb (map Addr ns)"
    and nn: "mgr_conns mgr \<noteq> ONull" "mgr_pfds mgr \<noteq> ONull"
    using sh by (auto simp: cm_shape_def)
  have num: "eq_num_items q = 0 \<longleftrightarrow> ns = []"
    using eq_rep_len [OF q(2)] by (auto simp: unat_eq_zero)
  show ?thesis
  proof (cases "ns = []")
    case True
    then show ?thesis using assms q nn num by (auto simp: connmgr_add_new_connections_def)
  next
    case False
    then show ?thesis
      using add_loop_ok [OF sh q(1) own, of "-1"] q nn num
      by (auto simp: connmgr_add_new_connections_def)
  qed
qed

subsection \<open>Closing up the arrays\<close>

lemma pfds_loop_ok:
  assumes "p = Own b (map Val (A @ J @ zs))" and "length A = w" and "w + length J = r"
    and "\<forall>j \<in> set J. pf_fd j = 0"
  shows "\<exists>J'. pfds_loop r (length zs) w p =
      Inr (w + length (filter (\<lambda>x. pf_fd x \<noteq> 0) zs), Own b (map Val (A @ filter (\<lambda>x. pf_fd x \<noteq> 0) zs @ J'))) \<and>
    (\<forall>j \<in> set J'. pf_fd j = 0) \<and>
    length (A @ filter (\<lambda>x. pf_fd x \<noteq> 0) zs @ J') = length (A @ J @ zs)"
  using assms
proof (induction zs arbitrary: A J w r p)
  case Nil
  then show ?case by (intro exI [of _ J]) simp
next
  case (Cons z zs)
  have ld: "load p r = Inr z" using Cons.prems by (simp add: nth_append)
  show ?case
  proof (cases "pf_fd z = 0")
    case True
    have "p = Own b (map Val (A @ (J @ [z]) @ zs))" using Cons.prems by simp
    from Cons.IH [OF this, of w "Suc r"] show ?thesis using Cons.prems True ld by auto
  next
    case nz: False
    show ?thesis
    proof (cases J)
      case Nil
      then have "p = Own b (map Val ((A @ [z]) @ [] @ zs))" using Cons.prems by simp
      from Cons.IH [OF this, of "Suc w" "Suc r"] show ?thesis using Cons.prems Nil nz ld by auto
    next
      case (Cons j js)
      let ?p1 = "Own b (map Val (A @ z # js @ z # zs))"
      let ?p2 = "Own b (map Val ((A @ [z]) @ (js @ [zero_pollfd]) @ zs))"
      have "store p w z = Inr ?p1" "store ?p1 r zero_pollfd = Inr ?p2" "w \<noteq> r"
        using Cons Cons.prems by (auto simp: list_update_append)
      moreover have "\<forall>j \<in> set (js @ [zero_pollfd]). pf_fd j = 0"
        using Cons Cons.prems by (simp add: zero_pollfd_def)
      moreover have "Suc w + length (js @ [zero_pollfd]) = Suc r" using Cons Cons.prems by simp
      ultimately show ?thesis
        using Cons.IH [of ?p2 "A @ [z]" "js @ [zero_pollfd]" "Suc w" "Suc r"] ld nz Cons Cons.prems(2)
        by auto
    qed
  qed
qed

lemma fd_at_pos:
  assumes "owns h F base as" and "set (addrs xs) \<subseteq> set as" and "x \<in> set xs"
  shows "fd_at h x \<noteq> 0 \<longleftrightarrow> x \<noteq> NULL"
proof (cases x)
  case (Addr a)
  then have "a \<in> set as" using assms(2,3) addrs_member [of a xs] by auto
  from owns_member [OF assms(1) this] show ?thesis
    using Addr by (auto simp: fd_at_def fd_of_def conn_wf_def)
qed (simp add: fd_at_def)

text \<open>Closing up either array: the entries of open connections stay, in order, and zeroes follow.\<close>

lemma conns_compact:
  assumes "ea_rep m a ab xs spare" and "\<forall>c \<in> set spare. c = Val NULL"
  shows "\<exists>a' n. ezarr_compact (Some a) NULL = Inr (0, Some a') \<and> ea_max_items a' = ea_max_items a \<and>
    ea_rep m a' ab (filter (\<lambda>x. x \<noteq> NULL) xs) (replicate n (Val NULL))"
proof -
  let ?n = "unat (ea_max_items a)" and ?ys = "filter (\<lambda>x. x \<noteq> NULL) xs"
  have a: "ea_pp_buf a = Own ab (map Val xs @ spare)" "length xs + length spare = ?n" "0 < ea_max_items a"
    using assms(1) by (simp_all add: ea_rep_def)
  have "spare = map Val (replicate (length spare) NULL)"
    using assms(2) by (simp add: map_replicate_const) (metis replicate_eqI)
  then have buf: "ea_pp_buf a = Own ab (map Val (xs @ replicate (length spare) NULL))"
    using a(1) by (metis map_append)
  obtain w where w: "unat w = length ?ys"
    "compact_loop NULL (ea_max_items a) 0 0 (ea_pp_buf a) =
      Inr (w, Own ab (map Val (?ys @ replicate (?n - unat w) NULL)))"
    using compact_loop_all [of "xs @ replicate (length spare) NULL" "ea_max_items a" NULL ab] a(2)
    unfolding buf by auto
  define a' where "a' = a\<lparr>ea_pp_buf := Own ab (map Val (?ys @ replicate (?n - unat w) NULL)), ea_num_items := w\<rparr>"
  have "ezarr_compact (Some a) NULL = Inr (0, Some a')"
    using w a by (simp add: ezarr_compact_def a'_def)
  moreover have "ea_rep m a' ab ?ys (replicate (?n - unat w) (Val NULL))"
    using assms(1) w(1) a length_filter_le [of "\<lambda>x. x \<noteq> NULL" xs] by (simp add: ea_rep_def a'_def)
  ultimately show ?thesis by (auto simp: a'_def)
qed

lemma pfds_compact:
  assumes own: "owns h F base as" and sub: "set (addrs xs) \<subseteq> set as" and pl: "polls h xs pcs"
    and clean: "\<forall>c \<in> set (drop (length xs) pcs). \<exists>pf. c = Val pf \<and> pf_fd pf = 0"
  defines "ys \<equiv> filter (\<lambda>x. x \<noteq> NULL) xs"
  shows "\<exists>pcs'. pfds_loop 0 (length pcs) 0 (Own pb pcs) = Inr (length ys, Own pb pcs') \<and>
    length pcs' = length pcs \<and> polls h ys pcs' \<and>
    (\<forall>c \<in> set (drop (length ys) pcs'). \<exists>pf. c = Val pf \<and> pf_fd pf = 0)"
proof -
  obtain pfs rest where p: "pcs = map Val pfs @ rest" "map pf_fd pfs = map (fd_at h) xs"
    using pl by (auto simp: polls_def)
  then have len: "length pfs = length xs" by (metis length_map)
  then have "\<forall>c \<in> set rest. \<exists>pf. c = Val pf \<and> pf_fd pf = 0" using clean p(1) by simp
  then obtain zs where zs: "rest = map Val zs" "\<forall>z \<in> set zs. pf_fd z = 0"
    by (induction rest) (auto, metis list.simps(9) set_ConsD)
  let ?qs = "filter (\<lambda>x. pf_fd x \<noteq> 0) pfs"
  have fz: "filter (\<lambda>x. pf_fd x \<noteq> 0) (pfs @ zs) = ?qs" using zs(2) by simp
  have "map pf_fd ?qs = filter (\<lambda>x. x \<noteq> 0) (map pf_fd pfs)" by (simp add: filter_map comp_def)
  also have "\<dots> = map (fd_at h) (filter (\<lambda>x. fd_at h x \<noteq> 0) xs)" by (simp add: p(2) filter_map comp_def)
  also have "filter (\<lambda>x. fd_at h x \<noteq> 0) xs = ys"
    unfolding ys_def by (rule filter_cong) (use fd_at_pos [OF own sub] in auto)
  finally have qs: "map pf_fd ?qs = map (fd_at h) ys" .
  then have lq: "length ?qs = length ys" by (metis length_map)
  obtain J where "pfds_loop 0 (length (pfs @ zs)) 0 (Own pb pcs) = Inr (length ys, Own pb (map Val (?qs @ J)))"
    "\<forall>j \<in> set J. pf_fd j = 0" "length (?qs @ J) = length (pfs @ zs)"
    using pfds_loop_ok [of "Own pb pcs" pb "[]" "[]" "pfs @ zs" 0 0] p(1) zs(1) lq unfolding fz by auto
  moreover have "polls h ys (map Val (?qs @ J))" for J
    unfolding polls_def using qs by (metis map_append)
  ultimately show ?thesis
    using p(1) zs(1) lq by (intro exI [of _ "map Val (?qs @ J)"]) auto
qed

lemma remove_ok:
  assumes rep: "cm_rep h mgr F xs ns" and clean: "cm_clean mgr"
  shows "\<exists>mgr'. connmgr_remove_closed_connections (Some mgr) = Inr (0, Some mgr') \<and>
    cm_rep h mgr' F (filter (\<lambda>x. x \<noteq> NULL) xs) ns \<and> cm_clean mgr' \<and> mgr_max_conns mgr' = mgr_max_conns mgr"
proof -
  obtain ca ab pb qa qb a spare pcs q where r: "mgr_conns mgr = Own ca a" "ea_rep (ch_mem h) a ab xs spare"
    "mgr_max_conns mgr = ea_max_items a" "mgr_pfds mgr = Own pb pcs" "length pcs = unat (mgr_max_conns mgr)"
    "polls h xs pcs" "mgr_new_conns mgr = Own qa q" "eq_rep (ch_mem h) q qb (map Addr ns)"
    "length xs = unat (mgr_num_active mgr)" and own: "owns h F [ca, ab, pb, qa, qb] (addrs xs @ ns)"
    using rep by (rule cm_repE)
  let ?ys = "filter (\<lambda>x. x \<noteq> NULL) xs"
  have a: "ea_pp_buf a = Own ab (map Val xs @ spare)" "length xs \<le> unat (mgr_max_conns mgr)"
    using r(2,3) by (simp_all add: ea_rep_def)
  have cl: "\<forall>c \<in> set spare. c = Val NULL" "\<forall>c \<in> set (drop (length xs) pcs). \<exists>pf. c = Val pf \<and> pf_fd pf = 0"
    using clean r a by (simp_all add: cm_clean_def)
  obtain a' n where comp: "ezarr_compact (Some a) NULL = Inr (0, Some a')" "ea_max_items a' = ea_max_items a"
    "ea_rep (ch_mem h) a' ab ?ys (replicate n (Val NULL))"
    using conns_compact [OF r(2) cl(1)] by blast
  obtain pcs' where pf: "pfds_loop 0 (length pcs) 0 (Own pb pcs) = Inr (length ?ys, Own pb pcs')"
    "length pcs' = length pcs" "polls h ?ys pcs'"
    "\<forall>c \<in> set (drop (length ?ys) pcs'). \<exists>pf. c = Val pf \<and> pf_fd pf = 0"
    using pfds_compact [OF own _ r(6) cl(2), of pb] by auto
  define mgr' where "mgr' = mgr\<lparr>mgr_conns := Own ca a', mgr_pfds := Own pb pcs',
    mgr_num_active := of_nat (length ?ys)\<rparr>"
  have num: "unat (mgr_num_active mgr') = length ?ys"
    using length_filter_le [of "\<lambda>x. x \<noteq> NULL" xs] r(9) u16_max [of "mgr_num_active mgr"] by (simp add: mgr'_def unat_u16_of_nat)
  have "connmgr_remove_closed_connections (Some mgr) = Inr (0, Some mgr')"
    using r(1,4,5) comp(1) pf(1) by (simp add: connmgr_remove_closed_connections_def Let_def mgr'_def)
  moreover have "cm_clean mgr'"
    using pf(4) comp(3) unfolding cm_clean_def num by (auto simp: mgr'_def ea_rep_def)
  moreover have "cm_shape h mgr' ca ab pb qa qb ?ys ns"
    unfolding cm_shape_def num using r comp(2,3) pf(2,3) by (auto simp: mgr'_def)
  ultimately show ?thesis
    using own by (auto intro: cm_repI simp: mgr'_def)
qed

text \<open>Both halves of an update.\<close>

lemma update_ok:
  assumes "cm_rep h mgr F xs ns" and "cm_clean mgr"
  shows "\<exists>res mgr' h'. connmgr_update_connections h (Some mgr) = Inr (res, Some mgr', h') \<and>
    ch_conns h' = ch_conns h \<and> ch_closed h' = ch_closed h \<and>
    (res = 0 \<longrightarrow> cm_rep h' mgr' F (filter (\<lambda>x. x \<noteq> NULL) xs @ map Addr ns) []) \<and>
    (length (filter (\<lambda>x. x \<noteq> NULL) xs) + length ns \<le> unat (mgr_max_conns mgr) \<longrightarrow> res = 0 \<and> cm_clean mgr')"
proof -
  obtain mgr1 where 1: "connmgr_remove_closed_connections (Some mgr) = Inr (0, Some mgr1)"
    "cm_rep h mgr1 F (filter (\<lambda>x. x \<noteq> NULL) xs) ns" "cm_clean mgr1" "mgr_max_conns mgr1 = mgr_max_conns mgr"
    using remove_ok [OF assms] by blast
  from add_new_ok [OF 1(2)] 1 show ?thesis
    by (auto simp: connmgr_update_connections_def)
qed

subsection \<open>Destroying everything\<close>

lemma destroy_active_ok:
  assumes "ea_rep (ch_mem h) a ab (pre @ xs) spare" and "owns h F base (addrs xs @ ns)"
    and "ab \<in> set base" and "length pre = idx"
  shows "\<exists>a' h'. destroy_active idx (length xs) (Own ca a) h = Inr (Own ca a', h') \<and>
    ea_rep (ch_mem h') a' ab (pre @ replicate (length xs) NULL) spare \<and> owns h' F base ns \<and>
    ch_closed h' = ch_closed h @ map (fd_of h) (addrs xs) \<and>
    (\<forall>k \<in> set ns. fd_of h' k = fd_of h k)"
  using assms
proof (induction xs arbitrary: h a pre idx)
  case Nil
  then show ?case by simp
next
  case (Cons x xs)
  have "length (pre @ x # xs) \<le> 65535" using ea_rep_bound [OF Cons.prems(1)] by simp
  then have idx: "unat (of_nat idx :: u16) = idx" using Cons.prems(4) by (intro unat_u16_of_nat) simp
  have get: "ezarr_get_at (Some a) (of_nat idx) (Some NULL) = Inr (0, Some x)"
    using get_at_item [OF Cons.prems(1), of "of_nat idx"] Cons.prems(4) idx by (simp add: nth_append)
  show ?case
  proof (cases x)
    case NULL
    then have "ea_rep (ch_mem h) a ab ((pre @ [NULL]) @ xs) spare" using Cons.prems(1) by simp
    from Cons.IH [OF this _ Cons.prems(3), of "Suc idx"] show ?thesis
      using NULL get Cons.prems(2,4) by auto
  next
    case (Addr k)
    obtain h1 where h1: "connmgr_destroy_conn (Addr k) h = Inr h1" "owns h1 F base (addrs xs @ ns)"
      "ch_closed h1 = ch_closed h @ [fd_of h k]" "\<forall>j \<in> set (addrs xs @ ns). fd_of h1 j = fd_of h j"
      using conns.frees [of h F base k "addrs xs @ ns"] Cons.prems(2) Addr by auto
    have "ab \<in> live (ch_mem h1)" using h1(2) Cons.prems(3) by (auto simp: owns_def)
    then have "ea_rep (ch_mem h1) a ab (pre @ x # xs) spare" by (rule ea_rep_cong [OF Cons.prems(1)])
    then obtain a1 where a1: "ezarr_set_at (Some a) (of_nat idx) NULL = Inr (0, Some a1)"
      "ea_rep (ch_mem h1) a1 ab ((pre @ [NULL]) @ xs) spare"
      using set_at_item [of "ch_mem h1" a ab "pre @ x # xs" spare "of_nat idx" NULL] idx Cons.prems(4)
      by (auto simp: list_update_append)
    have "map (fd_of h1) (addrs xs) = map (fd_of h) (addrs xs)" using h1(4) by simp
    then show ?thesis
      using Cons.IH [OF a1(2) h1(2) Cons.prems(3), of "Suc idx"] Addr get h1 a1 Cons.prems(4) by auto
  qed
qed

text \<open>
  A manager without connections: its containers are there, whatever is left in them. This is what
  \<open>connmgr_init\<close> makes, what \<open>connmgr_destroy_all_conns\<close> leaves and what \<open>connmgr_deinit\<close> takes.
\<close>

definition cm_bare :: "cm_heap \<Rightarrow> conn_mgr_t \<Rightarrow> nat set \<Rightarrow> bool" where
  "cm_bare h mgr F \<longleftrightarrow>
     (\<exists>ca ab pb qa qb a xs spare pcs q ys. mgr_conns mgr = Own ca a \<and> ea_rep (ch_mem h) a ab xs spare \<and>
       mgr_pfds mgr = Own pb pcs \<and> mgr_new_conns mgr = Own qa q \<and> eq_rep (ch_mem h) q qb ys \<and>
       owns h F [ca, ab, pb, qa, qb] [])"

lemma cm_rep_bare:
  assumes "cm_rep h mgr F [] []"
  shows "cm_bare h mgr F"
  using assms by (elim cm_repE) (auto simp: cm_bare_def)

text \<open>The blocks of others may change.\<close>

lemma cm_bare_frame:
  assumes bare: "cm_bare h mgr F" and m: "mem_ok m" "live m = (live (ch_mem h) - F) \<union> F'" "F' \<inter> (live (ch_mem h) - F) = {}"
  shows "cm_bare (h\<lparr>ch_mem := m\<rparr>) mgr F'"
proof -
  obtain ca ab pb qa qb a xs spare pcs q ys where r: "mgr_conns mgr = Own ca a" "ea_rep (ch_mem h) a ab xs spare"
    "mgr_pfds mgr = Own pb pcs" "mgr_new_conns mgr = Own qa q" "eq_rep (ch_mem h) q qb ys"
    and own: "owns h F [ca, ab, pb, qa, qb] []"
    using bare unfolding cm_bare_def by blast
  have l: "live (ch_mem h) - F = {ca, ab, pb, qa, qb}" using own by (auto simp: owns_def)
  have "owns (h\<lparr>ch_mem := m\<rparr>) F' [ca, ab, pb, qa, qb] []"
    using own m unfolding l owns_def by auto
  moreover have "ea_rep m a ab xs spare" "eq_rep m q qb ys"
    using r(2,5) m(2) unfolding l by (auto intro: ea_rep_cong eq_rep_cong)
  ultimately show ?thesis using r unfolding cm_bare_def by auto
qed

lemma deinit_bare:
  assumes "cm_bare h mgr F"
  shows "\<exists>m. connmgr_deinit (ch_mem h) (Some mgr) =
    Inr (0, Some (mgr\<lparr>mgr_new_conns := ONull, mgr_pfds := ONull, mgr_conns := ONull\<rparr>), m) \<and> live m = F"
  using assms connmgr_deinit_ok unfolding cm_bare_def by blast

lemma destroy_all_bare:
  assumes rep: "cm_rep h mgr F xs ns"
  shows "\<exists>mgr' h'. connmgr_destroy_all_conns h (Some mgr) = Inr (0, Some mgr', h') \<and>
    ch_conns h' = Map.empty \<and> ch_closed h' = ch_closed h @ map (fd_of h) (addrs xs @ ns) \<and> cm_bare h' mgr' F"
proof -
  obtain ca ab pb qa qb a spare pcs q where r: "mgr_conns mgr = Own ca a" "ea_rep (ch_mem h) a ab xs spare"
    "mgr_pfds mgr = Own pb pcs" "mgr_new_conns mgr = Own qa q" "eq_rep (ch_mem h) q qb (map Addr ns)"
    "length xs = unat (mgr_num_active mgr)" and own: "owns h F [ca, ab, pb, qa, qb] (addrs xs @ ns)"
    using rep by (elim cm_repE)
  obtain a' h1 where act: "destroy_active 0 (length xs) (Own ca a) h = Inr (Own ca a', h1)"
    "ea_rep (ch_mem h1) a' ab (replicate (length xs) NULL) spare" "owns h1 F [ca, ab, pb, qa, qb] ns"
    "ch_closed h1 = ch_closed h @ map (fd_of h) (addrs xs)" "\<forall>k \<in> set ns. fd_of h1 k = fd_of h k"
    using destroy_active_ok [of h a ab "[]" xs spare F "[ca, ab, pb, qa, qb]" ns 0 ca] r(2) own
    by (simp only: append_Nil list.size list.set insert_iff) blast
  obtain q' h' where h': "ezq_clear (Some q) (Some connmgr_destroy_conn) h1 = Inr (0, Some q', h')"
    "eq_rep (ch_mem h) q' qb []" "owns h' F [ca, ab, pb, qa, qb] []" "ch_closed h' = ch_closed h1 @ map (fd_of h1) ns"
    using conns.clear_frees [OF r(5), where as = "[]" and F = F and s = h1 and base = "[ca, ab, pb, qa, qb]"] act(3) by auto
  have lv: "qb \<in> live (ch_mem h')" "ab \<in> live (ch_mem h')" using h'(3) by (auto simp: owns_def)
  define mgr' where "mgr' = mgr\<lparr>mgr_conns := Own ca a', mgr_new_conns := Own qa q'\<rparr>"
  have "connmgr_destroy_all_conns h (Some mgr) = Inr (0, Some mgr', h')"
    using act(1) r h'(1) by (simp add: connmgr_destroy_all_conns_def mgr'_def)
  moreover have "ch_closed h' = ch_closed h @ map (fd_of h) (addrs xs @ ns)"
    using h'(4) act(4,5) by simp
  moreover have "ch_conns h' = Map.empty" using h'(3) by (simp add: owns_def)
  moreover have "cm_bare h' mgr' F"
    unfolding cm_bare_def
    using ea_rep_cong [OF act(2) lv(2)] eq_rep_cong [OF h'(2) lv(1)] h'(3) r(3) by (auto simp: mgr'_def)
  ultimately show ?thesis by blast
qed

lemma destroy_all_ok:
  assumes "cm_rep h mgr F xs ns"
  shows "\<exists>mgr' h'. connmgr_destroy_all_conns h (Some mgr) = Inr (0, Some mgr', h') \<and>
    ch_conns h' = Map.empty \<and> ch_closed h' = ch_closed h @ map (fd_of h) (addrs xs @ ns) \<and>
    (\<exists>m'. connmgr_deinit (ch_mem h') (Some mgr') =
       Inr (0, Some (mgr'\<lparr>mgr_new_conns := ONull, mgr_pfds := ONull, mgr_conns := ONull\<rparr>), m') \<and> live m' = F)"
  using destroy_all_bare [OF assms] deinit_bare by blast

subsection \<open>A manager to apply the properties to\<close>

definition demo_inbound :: "nat \<Rightarrow> int \<Rightarrow> conn_ctx" where
  "demo_inbound b fd = \<lparr>cc_type = INBOUND_CONN, cc_mutex = Val (), cc_ref_count = 0, cc_fd = fd,
     cc_recv_buf = Val (Own b (replicate 1024 Indet)), cc_bytes_read = 0, cc_bytes_to_read = 3,
     cc_send_buf = Val (Own (b + 1) (replicate 1024 Indet)), cc_bytes_sent = 0, cc_bytes_to_send = 0,
     cc_state = READ_HEADER\<rparr>"

text \<open>Two connections were closed, one is active and one waits in the queue; capacity 4.\<close>

definition demo_cm_heap :: cm_heap where
  "demo_cm_heap = \<lparr>ch_mem = \<lparr>grant = (\<lambda>_. True), asked = 11, live = {0, 1, 2, 3, 4, 5, 6, 7, 8, 9, 10}\<rparr>,
     ch_conns = [5 \<mapsto> demo_inbound 6 20, 8 \<mapsto> demo_inbound 9 21], ch_closed = [18, 19]\<rparr>"

definition demo_pollfd :: "int \<Rightarrow> pollfd" where
  "demo_pollfd fd = \<lparr>pf_fd = fd, pf_events = all_events, pf_revents = POLLIN\<rparr>"

definition demo_mgr :: conn_mgr_t where
  "demo_mgr = \<lparr>
     mgr_conns = Own 0 \<lparr>ea_pp_buf = Own 1 [Val NULL, Val (Addr 5), Val NULL, Val NULL],
       ea_num_items = 3, ea_max_items = 4\<rparr>,
     mgr_pfds = Own 2 [Val zero_pollfd, Val (demo_pollfd 20), Val zero_pollfd, Val zero_pollfd],
     mgr_new_conns = Own 3 \<lparr>eq_pp_buf = Own 4 [Indet, Val (Addr 8)], eq_num_items = 1, eq_max_items = 2,
       eq_idx_head = 1, eq_idx_tail = 1\<rparr>,
     mgr_max_conns = 4, mgr_num_active = 3\<rparr>"

lemma demo_mgr_rep: "cm_rep demo_cm_heap demo_mgr {} [NULL, Addr 5, NULL] [8]"
proof (rule cm_repI)
  have "polls demo_cm_heap [NULL, Addr 5, NULL] [Val zero_pollfd, Val (demo_pollfd 20), Val zero_pollfd, Val zero_pollfd]"
    unfolding polls_def
    by (intro exI [of _ "[zero_pollfd, demo_pollfd 20, zero_pollfd]"] exI [of _ "[Val zero_pollfd]"])
      (simp add: fd_at_def fd_of_def demo_cm_heap_def demo_inbound_def demo_pollfd_def zero_pollfd_def)
  then show "cm_shape demo_cm_heap demo_mgr 0 1 2 3 4 [NULL, Addr 5, NULL] [8]"
    by (simp add: cm_shape_def demo_mgr_def ea_rep_def eq_rep_def demo_cm_heap_def)
  show "owns demo_cm_heap {} [0, 1, 2, 3, 4] (addrs [NULL, Addr 5, NULL] @ [8])"
    by (auto simp: owns_def demo_cm_heap_def mem_ok_def ctx_blocks_def buf_block_def demo_inbound_def conn_wf_def
        split: if_splits)
qed

lemma demo_mgr_clean: "cm_clean demo_mgr"
  by (simp add: cm_clean_def demo_mgr_def zero_pollfd_def)

subsection \<open>Properties\<close>

text \<open>
  C30: \<open>connmgr_create_new_conn\<close> for an inbound descriptor never leaves defined behaviour. Either
  the new connection is last in the queue, complete (mutex, both buffers, waiting for a header),
  or everything made for it is freed and manager, connections and live blocks are as before. In
  the second case the result is 0 (no error for the caller) exactly when the mutex was created
  and one of the two buffers could not be allocated.
\<close>

theorem connmgr_create_inbound_correct:
  assumes "cm_rep h mgr F xs ns" and "0 < fd"
  shows "\<exists>res mgr' h'. connmgr_create_new_conn h raw mutex_res fd (Some mgr) INBOUND_CONN = Inr (res, Some mgr', h') \<and>
    ch_closed h' = ch_closed h \<and>
    ((\<exists>a c. res = 0 \<and> cm_rep h' mgr' F xs (ns @ [a]) \<and> fresh_conn fd c \<and> ch_conns h' = (ch_conns h)(a \<mapsto> c) \<and>
        ch_conns h a = None) \<or>
     cm_rep h' mgr' F xs ns \<and> mgr' = mgr \<and> ch_conns h' = ch_conns h \<and>
       (mutex_res = 0 \<and> grant (ch_mem h) (asked (ch_mem h)) \<and>
        \<not> (grant (ch_mem h) (asked (ch_mem h) + 1) \<and> grant (ch_mem h) (asked (ch_mem h) + 2)) \<longleftrightarrow> res = 0))"
  using assms by (rule create_inbound_ok)

theorem connmgr_create_inbound_correct_witness:
  "\<exists>res mgr' h'. connmgr_create_new_conn demo_cm_heap (demo_inbound 0 0) 0 22 (Some demo_mgr) INBOUND_CONN =
      Inr (res, Some mgr', h') \<and> ch_closed h' = [18, 19]"
  using connmgr_create_inbound_correct [OF demo_mgr_rep, of 22 "demo_inbound 0 0" 0]
  by (auto simp: demo_cm_heap_def)

text \<open>
  C14: \<open>connmgr_update_connections\<close>, on a manager whose arrays have not grown since they
  were made (\<open>cm_clean\<close>; after growth the same call reads unwritten cells): if it returns 0 the
  array holds the open connections in their old order followed by the new ones in the order of
  their arrival, the poll array agrees with it entry by entry, the queue is empty, and no context,
  descriptor or block is lost or freed; and it does return 0 when all of them fit the capacity.
\<close>

theorem connmgr_update_correct:
  assumes "cm_rep h mgr F xs ns" and "cm_clean mgr"
  shows "\<exists>res mgr' h'. connmgr_update_connections h (Some mgr) = Inr (res, Some mgr', h') \<and>
    ch_conns h' = ch_conns h \<and> ch_closed h' = ch_closed h \<and>
    (res = 0 \<longrightarrow> cm_rep h' mgr' F (filter (\<lambda>x. x \<noteq> NULL) xs @ map Addr ns) []) \<and>
    (length (filter (\<lambda>x. x \<noteq> NULL) xs) + length ns \<le> unat (mgr_max_conns mgr) \<longrightarrow> res = 0 \<and> cm_clean mgr')"
  using assms by (rule update_ok)

theorem connmgr_update_correct_witness:
  "\<exists>mgr' h'. connmgr_update_connections demo_cm_heap (Some demo_mgr) = Inr (0, Some mgr', h') \<and>
    cm_rep h' mgr' {} [Addr 5, Addr 8] []"
  using connmgr_update_correct [OF demo_mgr_rep demo_mgr_clean] by (auto simp: demo_mgr_def)

text \<open>
  C20: \<open>connmgr_destroy_all_conns\<close> followed by \<open>connmgr_deinit\<close>, in whatever state the manager is:
  both return 0, the descriptor of every active and every queued connection is closed exactly
  once, no context is left, and of all live blocks exactly those of others remain.
\<close>

theorem connmgr_shutdown_releases_all:
  assumes "cm_rep h mgr F xs ns"
  shows "\<exists>mgr' h'. connmgr_destroy_all_conns h (Some mgr) = Inr (0, Some mgr', h') \<and>
    ch_conns h' = Map.empty \<and> ch_closed h' = ch_closed h @ map (fd_of h) (addrs xs @ ns) \<and>
    (\<exists>m'. connmgr_deinit (ch_mem h') (Some mgr') =
       Inr (0, Some (mgr'\<lparr>mgr_new_conns := ONull, mgr_pfds := ONull, mgr_conns := ONull\<rparr>), m') \<and> live m' = F)"
  using assms by (rule destroy_all_ok)

theorem connmgr_shutdown_releases_all_witness:
  "\<exists>mgr' h'. connmgr_destroy_all_conns demo_cm_heap (Some demo_mgr) = Inr (0, Some mgr', h') \<and>
    ch_closed h' = [18, 19, 20, 21] \<and>
    (\<exists>m'. connmgr_deinit (ch_mem h') (Some mgr') =
       Inr (0, Some (mgr'\<lparr>mgr_new_conns := ONull, mgr_pfds := ONull, mgr_conns := ONull\<rparr>), m') \<and> live m' = {})"
  using connmgr_shutdown_releases_all [OF demo_mgr_rep]
  by (simp add: demo_cm_heap_def fd_of_def demo_inbound_def) blast

text \<open>
  C37: a queue that refuses an internal connection (it is full and cannot grow) takes
  \<open>connmgr_create_new_conn\<close> to the label \<open>destroy_send_buf\<close>, which frees buffer pointers that
  were never set for an internal connection: the code reads an indeterminate pointer.
\<close>

theorem internal_conn_cleanup_reads_indeterminate:
  assumes "cm_rep h mgr F xs ns" and "0 \<le> fd" and "grant (ch_mem h) (asked (ch_mem h))"
    and "length ns = unat (eq_max_items (target (mgr_new_conns mgr)))"
    and "length ns = 65535 \<or> \<not> grant (ch_mem h) (Suc (asked (ch_mem h)))"
  shows "connmgr_create_new_conn h raw mutex_res fd (Some mgr) INTERNAL_CONN = Inl Indet_Read"
proof -
  let ?m = "ch_mem h" let ?k = "asked (ch_mem h)"
  obtain ca ab pb qa qb a spare pcs q where q: "mgr_new_conns mgr = Own qa q" "eq_rep ?m q qb (map Addr ns)"
    and own: "owns h F [ca, ab, pb, qa, qb] (addrs xs @ ns)"
    using assms(1) by (elim cm_repE)
  define m1 where "m1 = ?m\<lparr>asked := Suc ?k, live := insert ?k (live ?m)\<rparr>"
  define c where "c = raw\<lparr>cc_mutex := Indet, cc_recv_buf := Indet, cc_send_buf := Indet, cc_state := SPECIAL_CONN,
    cc_fd := fd, cc_ref_count := 0, cc_type := INTERNAL_CONN\<rparr>"
  have q1: "eq_rep m1 q qb (map Addr ns)"
    by (rule eq_rep_cong [OF q(2)]) (use eq_rep_live [OF q(2)] in \<open>simp add: m1_def\<close>)
  have "mem_ok ?m" using own by (simp only: owns_def)
  then have "mem_ok m1" by (simp add: m1_def)
  from enqueue_outcome [OF q1 this, of "Addr ?k"] obtain m2 where
    enq: "ezq_enqueue m1 (Some q) (Addr ?k) = Inr (-1, Some q, m2)"
    using assms(4,5) q(1) by (auto simp: m1_def)
  have "connmgr_create_new_conn h raw mutex_res fd (Some mgr) INTERNAL_CONN =
      create_enqueue (h\<lparr>ch_mem := m1, ch_conns := (ch_conns h)(?k \<mapsto>
        raw\<lparr>cc_mutex := Indet, cc_recv_buf := Indet, cc_send_buf := Indet\<rparr>)\<rparr>) mgr ?k c"
    using assms(2,3) by (simp add: connmgr_create_new_conn_def mem_simps Let_def m1_def c_def heap_upd_swap)
  also have "\<dots> = Inl Indet_Read"
    using enq q(1) by (simp add: create_enqueue_def create_destroy_send_buf_def Let_def c_def)
  finally show ?thesis .
qed

definition demo_full_mgr :: conn_mgr_t where
  "demo_full_mgr = demo_mgr\<lparr>mgr_new_conns := Own 3 \<lparr>eq_pp_buf = Own 4 [Val (Addr 8)], eq_num_items = 1,
     eq_max_items = 1, eq_idx_head = 0, eq_idx_tail = 0\<rparr>\<rparr>"

definition demo_scarce_heap :: cm_heap where
  "demo_scarce_heap = demo_cm_heap\<lparr>ch_mem := (ch_mem demo_cm_heap)\<lparr>grant := (\<lambda>n. n < 12)\<rparr>\<rparr>"

lemma demo_full_rep: "cm_rep demo_scarce_heap demo_full_mgr {} [NULL, Addr 5, NULL] [8]"
proof (rule cm_repI)
  have "polls demo_scarce_heap [NULL, Addr 5, NULL] [Val zero_pollfd, Val (demo_pollfd 20), Val zero_pollfd, Val zero_pollfd]"
    unfolding polls_def
    by (intro exI [of _ "[zero_pollfd, demo_pollfd 20, zero_pollfd]"] exI [of _ "[Val zero_pollfd]"])
      (simp add: fd_at_def fd_of_def demo_scarce_heap_def demo_cm_heap_def demo_inbound_def demo_pollfd_def zero_pollfd_def)
  then show "cm_shape demo_scarce_heap demo_full_mgr 0 1 2 3 4 [NULL, Addr 5, NULL] [8]"
    by (simp add: cm_shape_def demo_mgr_def demo_full_mgr_def ea_rep_def eq_rep_def demo_scarce_heap_def demo_cm_heap_def)
  show "owns demo_scarce_heap {} [0, 1, 2, 3, 4] (addrs [NULL, Addr 5, NULL] @ [8])"
    by (auto simp: owns_def demo_scarce_heap_def demo_cm_heap_def mem_ok_def ctx_blocks_def buf_block_def
        demo_inbound_def conn_wf_def split: if_splits)
qed

theorem internal_conn_cleanup_reads_indeterminate_witness:
  "connmgr_create_new_conn demo_scarce_heap (demo_inbound 0 0) 0 5 (Some demo_full_mgr) INTERNAL_CONN = Inl Indet_Read"
  by (rule internal_conn_cleanup_reads_indeterminate [OF demo_full_rep])
    (simp_all add: demo_scarce_heap_def demo_cm_heap_def demo_full_mgr_def)

end
