(* ===== verification/Conn_Grow.thy ===== *)
theory Conn_Grow
  imports Conn_Update
begin

text \<open>
  The connection manager of \<open>src/libs/connmgr/connmgr.c\<close> after its arrays have grown. \<open>realloc\<close>
  leaves the new cells unwritten while \<open>connmgr_remove_closed_connections\<close> scans the arrays up to
  their capacity: an update of a manager that has grown either finds the arrays full, and is
  correct, or reads an unwritten cell.
\<close>

text \<open>Beyond the active entries there is no connection, but there may be unwritten cells.\<close>

definition cm_tidy :: "conn_mgr_t \<Rightarrow> bool" where
  "cm_tidy mgr \<longleftrightarrow>
     set (drop (unat (mgr_num_active mgr)) (target (ea_pp_buf (target (mgr_conns mgr))))) \<subseteq> {Indet, Val NULL} \<and>
     set (drop (unat (mgr_num_active mgr)) (target (mgr_pfds mgr))) \<subseteq> insert Indet (Val ` {pf. pf_fd pf = 0})"

lemma clean_tidy: "cm_clean mgr \<Longrightarrow> cm_tidy mgr"
  unfolding cm_clean_def cm_tidy_def by blast

lemma tidy_cong:
  "cm_tidy mgr \<Longrightarrow> mgr_conns mgr' = mgr_conns mgr \<Longrightarrow> mgr_pfds mgr' = mgr_pfds mgr \<Longrightarrow>
   mgr_num_active mgr' = mgr_num_active mgr \<Longrightarrow> cm_tidy mgr'"
  by (simp add: cm_tidy_def)

subsection \<open>Adding connections\<close>

text \<open>Behind the new last element of a grown array there are old cells or unwritten ones.\<close>

lemma resized_tail:
  assumes "length cs \<le> k"
  shows "set (drop (Suc k) ((resize_cells n cs)[k := c])) \<subseteq> {Indet}"
proof -
  have "drop (Suc k) (resize_cells n cs) = drop (Suc k - length (take n cs)) (replicate (n - length cs) Indet)"
    using assms by (simp add: resize_cells_def)
  then have "set (drop (Suc k) (resize_cells n cs)) \<subseteq> {Indet}"
    using set_drop_subset [of _ "replicate (n - length cs) Indet"] by fastforce
  then show ?thesis by simp
qed

lemma push_tail:
  assumes rep: "ea_rep m a ab xs spare" and mok: "mem_ok m"
    and push: "ezarr_push m (Some a) x = Inr (0, Some a', m')"
  shows "\<exists>b spare'. ea_pp_buf a' = Own b (map Val (xs @ [x]) @ spare') \<and> set spare' \<subseteq> insert Indet (set spare)"
proof (cases "spare = []")
  case True
  have "length xs < 65535 \<and> grant m (asked m)"
    using push_outcome [OF rep mok, of x] push True by (auto split: if_splits)
  then obtain k where "ea_rep m' a' (asked m) (xs @ [x]) (replicate k Indet)"
    using push_grow [of m a ab xs x] rep mok push True by auto
  then show ?thesis by (auto simp: ea_rep_def)
next
  case False
  then obtain b where "ea_rep m' a' b (xs @ [x]) (tl spare)"
    using push_outcome [OF rep mok, of x] push by auto
  moreover have "set (tl spare) \<subseteq> insert Indet (set spare)" by (cases spare) auto
  ultimately show ?thesis by (auto simp: ea_rep_def)
qed

lemma pollfd_tail:
  assumes add: "add_to_pollfd h (Addr k) (Own pb pcs) cur mx = Inr (0, p', h')"
    and len: "length pcs = unat mx"
  shows "set (drop (Suc (unat cur)) (target p')) \<subseteq> insert Indet (set (drop (unat cur) pcs))"
proof (cases "cur = mx")
  case False
  then have "\<exists>c. p' = Own pb (pcs[unat cur := c])"
    using add by (auto simp: add_to_pollfd_def and_then_eq_Inr split: if_splits)
  then show ?thesis
    using set_drop_subset_set_drop [of "unat cur" "Suc (unat cur)" pcs] by auto
next
  case True
  have "\<exists>b c n. p' = Own b ((resize_cells n pcs)[unat cur := c])"
    using add True
    by (auto simp: add_to_pollfd_def realloc_def alloc_def Let_def and_then_eq_Inr split: if_splits)
  then show ?thesis using resized_tail [of pcs "unat cur"] True len by fastforce
qed

lemma add_one_tidy:
  assumes shape: "cm_shape h mgr ca ab pb qa qb xs ns"
    and own: "owns h F [ca, ab, pb, qa, qb] (addrs xs @ k # ns)"
    and run: "add_one h mgr (Addr k) = Inr (0, mgr', h')" and tidy: "cm_tidy mgr"
  shows "cm_tidy mgr'"
proof -
  obtain a spare pcs where r: "mgr_conns mgr = Own ca a" "ea_rep (ch_mem h) a ab xs spare"
    "mgr_pfds mgr = Own pb pcs" "length pcs = unat (mgr_max_conns mgr)" "length xs = unat (mgr_num_active mgr)"
    using shape unfolding cm_shape_def by blast
  have mok: "mem_ok (ch_mem h)" using own by (simp add: owns_def)
  obtain res a1 m1 where push: "ezarr_push (ch_mem h) (Some a) (Addr k) = Inr (res, Some a1, m1)"
    using push_outcome [OF r(2) mok, of "Addr k"] by blast
  with run r(1) have zero: "res = 0" by (auto simp: add_one_def Let_def split: if_splits)
  obtain b spare1 where a1: "ea_pp_buf a1 = Own b (map Val (xs @ [Addr k]) @ spare1)"
    "set spare1 \<subseteq> insert Indet (set spare)"
    using push_tail [OF r(2) mok] push zero by blast
  obtain p' h2 where add: "add_to_pollfd (h\<lparr>ch_mem := m1\<rparr>) (Addr k) (Own pb pcs) (mgr_num_active mgr) (mgr_max_conns mgr)
      = Inr (0, p', h2)"
    and mgr': "mgr' = mgr\<lparr>mgr_conns := Own ca a1, mgr_pfds := p', mgr_max_conns := ea_max_items a1,
      mgr_num_active := mgr_num_active mgr + 1\<rparr>"
    using run push zero r(1,3) by (auto simp: add_one_def Let_def and_then_eq_Inr split: if_splits)
  have "unat (mgr_num_active mgr') = Suc (length xs)"
  proof -
    have "added h mgr F xs k ns 0 mgr' h' ca pb qa qb" using add_one_ok [OF shape own] run by auto
    then show ?thesis by (auto simp: added_def cm_shape_def)
  qed
  moreover have "set spare \<subseteq> {Indet, Val NULL}"
    "set (drop (length xs) pcs) \<subseteq> insert Indet (Val ` {pf. pf_fd pf = 0})"
    using tidy r(1,2,3,5) by (simp_all add: cm_tidy_def ea_rep_def)
  moreover have "set (drop (Suc (length xs)) (target p')) \<subseteq> insert Indet (set (drop (length xs) pcs))"
    using pollfd_tail [OF add r(4)] r(5) by simp
  ultimately show ?thesis
    using a1 unfolding cm_tidy_def by (simp add: mgr') blast
qed

lemma add_loop_tidy:
  assumes "cm_shape h mgr ca ab pb qa qb xs ns" and "mgr_new_conns mgr = Own qa q"
    and "owns h F [ca, ab, pb, qa, qb] (addrs xs @ ns)" and "cm_tidy mgr"
    and "add_loop h mgr q res0 = Inr (0, mgr', h')"
  shows "cm_tidy mgr'"
  using assms
proof (induction ns arbitrary: xs h mgr q res0 ab pb)
  case Nil
  then have "eq_rep (ch_mem h) q qb (map Addr [])" by (simp add: cm_shape_def)
  then have "\<not> 0 < eq_num_items q" by (auto simp: eq_rep_def unat_eq_zero word_less_nat_alt)
  then show ?case using Nil.prems(4,5) by (simp add: add_loop.simps)
next
  case (Cons k ns)
  have rep: "eq_rep (ch_mem h) q qb (Addr k # map Addr ns)" using Cons.prems by (simp add: cm_shape_def)
  obtain q1 where q1: "ezq_dequeue (Some q) (Some NULL) = Inr (0, Some q1, Some (Addr k))"
    "eq_rep (ch_mem h) q1 qb (map Addr ns)"
    using dequeue_cons [OF rep] by blast
  have pos: "0 < eq_num_items q" using eq_rep_len [OF rep] by (simp add: word_less_nat_alt)
  define mgr1 where "mgr1 = mgr\<lparr>mgr_new_conns := Own qa q1\<rparr>"
  have sh1: "cm_shape h mgr1 ca ab pb qa qb xs ns"
    using Cons.prems(1) q1 by (auto simp: cm_shape_def mgr1_def)
  obtain res mgr2 h2 where one: "add_one h mgr1 (Addr k) = Inr (res, mgr2, h2)"
    and ad: "added h mgr1 F xs k ns res mgr2 h2 ca pb qa qb"
    using add_one_ok [OF sh1 Cons.prems(3) [simplified]] by auto
  have "add_loop h mgr q res0 = (if res \<noteq> 0 then Inr (res, mgr2, h2) else add_loop h2 mgr2 q1 0)"
    using q1 pos one Cons.prems(2) by (subst add_loop.simps) (simp add: mgr1_def)
  then have z: "res = 0" "add_loop h2 mgr2 q1 0 = Inr (0, mgr', h')"
    using Cons.prems(5) by (auto split: if_splits)
  then obtain ab2 pb2 where s2: "cm_shape h2 mgr2 ca ab2 pb2 qa qb (xs @ [Addr k]) ns"
    "owns h2 F [ca, ab2, pb2, qa, qb] (addrs (xs @ [Addr k]) @ ns)" "mgr_new_conns mgr2 = Own qa q1"
    using ad by (auto simp: added_def mgr1_def)
  have "cm_tidy mgr1" using Cons.prems(4) by (rule tidy_cong) (simp_all add: mgr1_def)
  then have "cm_tidy mgr2" using add_one_tidy [OF sh1] Cons.prems(3) one z(1) by auto
  then show ?case using Cons.IH [OF s2(1,3,2)] z(2) by blast
qed

subsection \<open>Updating\<close>

lemma compact_loop_faults:
  assumes "length xs + length spare = unat n" and "set spare \<subseteq> {Indet, Val NULL}"
  shows "compact_loop NULL n 0 0 (Own b (map Val xs @ spare)) = Inl Indet_Read \<or> set spare \<subseteq> {Val NULL}"
proof (cases "Indet \<in> set spare")
  case False
  then show ?thesis using assms(2) by auto
next
  case True
  then obtain us vs where s: "spare = us @ Indet # vs" "Indet \<notin> set us" by (meson split_list_first)
  have "us = map Val (replicate (length us) NULL)"
    using s assms(2) by (simp add: map_replicate_const) (metis replicate_eqI subsetD UnCI insertE singletonD)
  then have "map Val xs @ spare = map Val (xs @ replicate (length us) NULL) @ Indet # vs"
    using s(1) by (metis append.assoc map_append)
  then show ?thesis
    using compact_loop_indet [of "xs @ replicate (length us) NULL" vs n NULL b] assms(1) s(1) by simp
qed

lemma pfds_loop_reads_all:
  assumes "pfds_loop r n w (Own b cs) = Inr y" and "w \<le> r" and "r \<le> i" and "i < r + n"
  shows "cs ! i \<noteq> Indet"
  using assms
proof (induction n arbitrary: r w cs)
  case (Suc n)
  from Suc.prems(1) obtain x where x: "r < length cs" "cs ! r = Val x"
    by (auto simp: and_then_eq_Inr split: if_splits cell.splits)
  obtain cs' w' where "pfds_loop (Suc r) n w' (Own b cs') = Inr y" "w' \<le> Suc r"
    "\<forall>j. r < j \<longrightarrow> cs' ! j = cs ! j"
    using Suc.prems(1,2) x by (auto simp: and_then_eq_Inr split: if_splits)
  then show ?case
    using Suc.IH [of "Suc r" w' cs'] Suc.prems(3,4) x(2) by (cases "i = r") auto
qed simp

lemma remove_needs_clean:
  assumes rep: "cm_rep h mgr F xs ns" and tidy: "cm_tidy mgr"
    and run: "connmgr_remove_closed_connections (Some mgr) = Inr y"
  shows "cm_clean mgr"
proof -
  obtain ca ab pb qa qb a spare pcs q where r: "mgr_conns mgr = Own ca a" "ea_rep (ch_mem h) a ab xs spare"
    "mgr_max_conns mgr = ea_max_items a" "mgr_pfds mgr = Own pb pcs" "length pcs = unat (mgr_max_conns mgr)"
    "length xs = unat (mgr_num_active mgr)"
    using rep by (rule cm_repE)
  have a: "ea_pp_buf a = Own ab (map Val xs @ spare)" "length xs + length spare = unat (ea_max_items a)"
    "ea_max_items a \<noteq> 0"
    using r(2) by (auto simp: ea_rep_def)
  have t: "set spare \<subseteq> {Indet, Val NULL}"
    "set (drop (length xs) pcs) \<subseteq> insert Indet (Val ` {pf. pf_fd pf = 0})"
    using tidy r a by (simp_all add: cm_tidy_def)
  obtain w p where comp: "compact_loop NULL (ea_max_items a) 0 0 (Own ab (map Val xs @ spare)) = Inr (w, p)"
    and pf: "\<exists>z. pfds_loop 0 (unat (mgr_max_conns mgr)) 0 (Own pb pcs) = Inr z"
    using run r a by (auto simp: connmgr_remove_closed_connections_def ezarr_compact_def and_then_eq_Inr Let_def)
  have "set spare \<subseteq> {Val NULL}" using compact_loop_faults [OF a(2) t(1), of ab] comp by simp
  moreover have "Indet \<notin> set pcs"
    using pf pfds_loop_reads_all [of 0 _ 0 pb pcs] r(5) by (metis in_set_conv_nth le0 add_0)
  then have "Indet \<notin> set (drop (length xs) pcs)" using in_set_dropD by fast
  ultimately show ?thesis
    using t r a unfolding cm_clean_def by auto
qed

lemma pfds_loop_faults:
  assumes "pfds_loop r n w (Own b cs) = Inl f" and "w \<le> r" and "r + n \<le> length cs"
  shows "f = Indet_Read"
  using assms
proof (induction n arbitrary: r w cs)
  case (Suc n)
  show ?case
  proof (cases "cs ! r")
    case Indet
    then show ?thesis using Suc.prems by simp
  next
    case (Val x)
    let ?cs = "if pf_fd x \<noteq> 0 \<and> w \<noteq> r then cs[w := Val x, r := Val zero_pollfd] else cs"
    have "pfds_loop (Suc r) n (if pf_fd x \<noteq> 0 then Suc w else w) (Own b ?cs) = Inl f"
      using Suc.prems Val by (auto split: if_splits)
    from Suc.IH [OF this] show ?thesis using Suc.prems(2,3) by (auto split: if_splits)
  qed
qed simp

lemma remove_faults:
  assumes rep: "cm_rep h mgr F xs ns" and tidy: "cm_tidy mgr"
    and run: "connmgr_remove_closed_connections (Some mgr) = Inl f"
  shows "f = Indet_Read"
proof -
  obtain ca ab pb qa qb a spare pcs q where r: "mgr_conns mgr = Own ca a" "ea_rep (ch_mem h) a ab xs spare"
    "mgr_max_conns mgr = ea_max_items a" "mgr_pfds mgr = Own pb pcs" "length pcs = unat (mgr_max_conns mgr)"
    "length xs = unat (mgr_num_active mgr)"
    using rep by (rule cm_repE)
  have a: "ea_pp_buf a = Own ab (map Val xs @ spare)" "length xs + length spare = unat (ea_max_items a)"
    "ea_max_items a \<noteq> 0"
    using r(2) by (auto simp: ea_rep_def)
  have t: "set spare \<subseteq> {Indet, Val NULL}" using tidy r a by (simp add: cm_tidy_def)
  from compact_loop_faults [OF a(2) t, of ab] show ?thesis
  proof
    assume "compact_loop NULL (ea_max_items a) 0 0 (Own ab (map Val xs @ spare)) = Inl Indet_Read"
    then show ?thesis using run r(1,4) a by (simp add: connmgr_remove_closed_connections_def ezarr_compact_def)
  next
    assume "set spare \<subseteq> {Val NULL}"
    then have "spare = map Val (replicate (length spare) NULL)"
      by (simp add: map_replicate_const) (metis replicate_eqI subsetD singletonD)
    then have "ea_pp_buf a = Own ab (map Val (xs @ replicate (length spare) NULL))" using a(1) by (metis map_append)
    moreover have "length (xs @ replicate (length spare) NULL) = unat (ea_max_items a)" using a(2) by simp
    ultimately obtain w p where "compact_loop NULL (ea_max_items a) 0 0 (ea_pp_buf a) = Inr (w, p)"
      using compact_loop_all by metis
    then show ?thesis
      using run r(1,4,5) a pfds_loop_faults [of 0 _ 0 pb pcs f]
      by (simp add: connmgr_remove_closed_connections_def ezarr_compact_def and_then_def Let_def split: sum.splits prod.splits)
  qed
qed

text \<open>Whatever an update that stays in defined behaviour returns.\<close>

lemma update_tidy:
  assumes rep: "cm_rep h mgr F xs ns" and tidy: "cm_tidy mgr"
    and run: "connmgr_update_connections h (Some mgr) = Inr (res, p, h')"
  shows "\<exists>mgr'. p = Some mgr' \<and> ch_conns h' = ch_conns h \<and> ch_closed h' = ch_closed h \<and>
    (res = 0 \<longrightarrow> cm_rep h' mgr' F (filter (\<lambda>x. x \<noteq> NULL) xs @ map Addr ns) [] \<and> cm_tidy mgr')"
proof -
  have clean: "cm_clean mgr"
    using run remove_needs_clean [OF rep tidy] by (auto simp: connmgr_update_connections_def and_then_eq_Inr)
  obtain mgr' where u: "p = Some mgr'" "ch_conns h' = ch_conns h" "ch_closed h' = ch_closed h"
    "res = 0 \<Longrightarrow> cm_rep h' mgr' F (filter (\<lambda>x. x \<noteq> NULL) xs @ map Addr ns) []"
    using update_ok [OF rep clean] run by auto
  moreover have "cm_tidy mgr'" if "res = 0"
  proof -
    obtain mgr1 where 1: "connmgr_remove_closed_connections (Some mgr) = Inr (0, Some mgr1)"
      "cm_rep h mgr1 F (filter (\<lambda>x. x \<noteq> NULL) xs) ns" "cm_clean mgr1"
      using remove_ok [OF rep clean] by blast
    obtain ca ab pb qa qb where sh: "cm_shape h mgr1 ca ab pb qa qb (filter (\<lambda>x. x \<noteq> NULL) xs) ns"
      and own: "owns h F [ca, ab, pb, qa, qb] (addrs (filter (\<lambda>x. x \<noteq> NULL) xs) @ ns)"
      using 1(2) unfolding cm_rep_def by blast
    obtain q where q: "mgr_new_conns mgr1 = Own qa q" using sh by (auto simp: cm_shape_def)
    have "connmgr_add_new_connections h (Some mgr1) = Inr (0, Some mgr', h')"
      using run 1(1) u(1) that by (simp add: connmgr_update_connections_def)
    then have "mgr' = mgr1 \<or> add_loop h mgr1 q (-1) = Inr (0, mgr', h')"
      using q by (auto simp: connmgr_add_new_connections_def and_then_eq_Inr split: if_splits)
    then show ?thesis
      using add_loop_tidy [OF sh q own clean_tidy [OF 1(3)]] clean_tidy [OF 1(3)] by blast
  qed
  ultimately show ?thesis by blast
qed

end
