(* ===== verification/Byte_Order.thy ===== *)
theory Byte_Order
  imports C_Prelude
begin

text \<open>
  Byte order: how a \<open>uint16_t\<close> lies in memory on a host, and \<open>htons\<close>/\<open>ntohs\<close>. The build
  names its target after the processor and takes a toolchain file, so the host's byte order is
  a parameter; the network order is big-endian.
\<close>

unbundle bit_operations_syntax

datatype endian = LE | BE

definition hi_byte :: "u16 \<Rightarrow> byte" where
  "hi_byte v = ucast (drop_bit 8 v)"

definition lo_byte :: "u16 \<Rightarrow> byte" where
  "lo_byte v = ucast v"

definition join16 :: "byte \<Rightarrow> byte \<Rightarrow> u16" where
  "join16 h l = push_bit 8 (ucast h) OR ucast l"

lemma hi_join [simp]: "hi_byte (join16 h l) = h"
  unfolding hi_byte_def join16_def by (rule bit_word_eqI) (auto simp: bit_simps dest: bit_imp_le_length)

lemma lo_join [simp]: "lo_byte (join16 h l) = l"
  unfolding lo_byte_def join16_def by (rule bit_word_eqI) (auto simp: bit_simps dest: bit_imp_le_length)

lemma join_hi_lo [simp]: "join16 (hi_byte v) (lo_byte v) = v"
  unfolding hi_byte_def lo_byte_def join16_def
  by (rule bit_word_eqI) (auto simp: bit_simps dest: bit_imp_le_length)

text \<open>The two bytes of a value in a host's memory, and the value of two bytes.\<close>

definition mem16 :: "endian \<Rightarrow> u16 \<Rightarrow> byte list" where
  "mem16 e v = (case e of LE \<Rightarrow> [lo_byte v, hi_byte v] | BE \<Rightarrow> [hi_byte v, lo_byte v])"

definition val16 :: "endian \<Rightarrow> byte \<Rightarrow> byte \<Rightarrow> u16" where
  "val16 e x y = (case e of LE \<Rightarrow> join16 y x | BE \<Rightarrow> join16 x y)"

definition htons :: "endian \<Rightarrow> u16 \<Rightarrow> u16" where
  "htons e v = (case e of LE \<Rightarrow> join16 (lo_byte v) (hi_byte v) | BE \<Rightarrow> v)"

definition ntohs :: "endian \<Rightarrow> u16 \<Rightarrow> u16" where
  "ntohs e v = htons e v"

lemma mem16_htons [simp]: "mem16 e (htons e v) = [hi_byte v, lo_byte v]"
  by (cases e) (simp_all add: mem16_def htons_def)

lemma ntohs_val16 [simp]: "ntohs e (val16 e h l) = join16 h l"
  by (cases e) (simp_all add: ntohs_def htons_def val16_def)

lemma length_mem16 [simp]: "length (mem16 e v) = 2"
  by (cases e) (simp_all add: mem16_def)

lemma ntohs_htons [simp]: "ntohs e (htons e v) = v"
  by (cases e) (simp_all add: ntohs_def htons_def)

lemma unat_hi_lo: "unat v = 256 * unat (hi_byte v) + unat (lo_byte v)"
proof -
  have "unat (hi_byte v) = unat v div 256"
    using u16_lt [of v]
    by (simp add: hi_byte_def unsigned_ucast_eq unsigned_drop_bit_eq take_bit_nat_def drop_bit_nat_def)
  moreover have "unat (lo_byte v) = unat v mod 256"
    by (simp add: lo_byte_def unsigned_ucast_eq take_bit_nat_def)
  ultimately show ?thesis by simp
qed

lemma unat_join16: "unat (join16 h l) = 256 * unat h + unat l"
  using unat_hi_lo [of "join16 h l"] by simp

end
