(* ===== verification/Pong.thy ===== *)
theory Pong
  imports Byte_Order Ez_Array
begin

text \<open>
  \<open>src/libs/protocols/pong.c\<close>: the reply to a ping. A \<open>ping_pong_t\<close> is packed, so it is 11
  bytes in memory. Both buffers are blocks of bytes; \<open>*p_out_len\<close> is an option, \<open>None\<close> when
  \<open>NULL\<close> is passed. The log lines are left out.
\<close>

datatype ping_pong_type_t = PING_TYPE | PONG_TYPE | PING_PONG_ERR

definition type_code :: "ping_pong_type_t \<Rightarrow> byte" where
  "type_code t = (case t of PING_TYPE \<Rightarrow> 0 | PONG_TYPE \<Rightarrow> 1 | PING_PONG_ERR \<Rightarrow> 2)"

record ping_pong_t =
  pp_type :: byte
  pp_len :: u16
  pp_cli_id :: u16
  pp_volley :: byte
  pp_buf :: "byte list"

definition PING_PONG_LEN :: nat where
  "PING_PONG_LEN = 5"

definition sizeof_ping_pong :: nat where
  "sizeof_ping_pong = 1 + 2 + 2 + 1 + PING_PONG_LEN"

definition pp_bytes :: "endian \<Rightarrow> ping_pong_t \<Rightarrow> byte list" where
  "pp_bytes e r =
     [pp_type r] @ mem16 e (pp_len r) @ mem16 e (pp_cli_id r) @ [pp_volley r] @ pp_buf r"

definition zero_response :: ping_pong_t where
  "zero_response = \<lparr>pp_type = 0, pp_len = 0, pp_cli_id = 0, pp_volley = 0,
     pp_buf = replicate PING_PONG_LEN 0\<rparr>"

definition ping_chars :: "byte list" where
  "ping_chars = [0x70, 0x69, 0x6E, 0x67]"

definition pong_chars :: "byte list" where
  "pong_chars = [0x70, 0x6F, 0x6E, 0x67, 0]"

text \<open>\<open>strncmp\<close> against a literal without a zero byte, up to its length: reads stop at the first
  difference.\<close>

fun strn_differs :: "byte cell list owned \<Rightarrow> nat \<Rightarrow> byte list \<Rightarrow> cfault + bool" where
  "strn_differs p i [] = Inr False"
| "strn_differs p i (c # cs) =
     and_then (load p i) (\<lambda>x. if x \<noteq> c then Inr True else strn_differs p (Suc i) cs)"

definition proto_pingpong_create_response ::
    "endian \<Rightarrow> byte cell list owned \<Rightarrow> byte cell list owned \<Rightarrow> u16 \<Rightarrow> u16 option \<Rightarrow>
     cfault + (int \<times> byte cell list owned \<times> u16 option)" where
  "proto_pingpong_create_response e p_in_buf p_out_buf inbuf_len p_out_len =
     (if p_in_buf = ONull \<or> p_out_buf = ONull \<or> p_out_len = None
      then Inr (-1, p_out_buf, p_out_len)
      else if of_nat sizeof_ping_pong \<noteq> inbuf_len then
        and_then
          (write_at p_out_buf 0 (pp_bytes e (zero_response\<lparr>
             pp_type := type_code PING_PONG_ERR, pp_len := htons e (of_nat sizeof_ping_pong),
             pp_cli_id := htons e 0, pp_volley := 0\<rparr>)))
          (\<lambda>p_out_buf. Inr (0, p_out_buf, Some (of_nat sizeof_ping_pong)))
      else
        and_then (load p_in_buf 3) (\<lambda>c0.
        and_then (load p_in_buf 4) (\<lambda>c1.
        let cli_id = ntohs e (val16 e c0 c1) in
        and_then (load p_in_buf 0) (\<lambda>t.
        and_then (if t \<noteq> type_code PING_TYPE then Inr True else strn_differs p_in_buf 6 ping_chars) (\<lambda>bad.
        if bad then
          and_then
            (write_at p_out_buf 0 (pp_bytes e (zero_response\<lparr>
               pp_type := type_code PING_PONG_ERR, pp_len := htons e (of_nat sizeof_ping_pong),
               pp_cli_id := htons e cli_id, pp_volley := 0\<rparr>)))
            (\<lambda>p_out_buf. Inr (0, p_out_buf, Some (of_nat sizeof_ping_pong)))
        else
          and_then (load p_in_buf 5) (\<lambda>v.
          and_then
            (write_at p_out_buf 0 (pp_bytes e (zero_response\<lparr>
               pp_type := type_code PONG_TYPE, pp_len := htons e (of_nat sizeof_ping_pong),
               pp_cli_id := htons e cli_id, pp_volley := v + 1, pp_buf := pong_chars\<rparr>)))
            (\<lambda>p_out_buf. Inr (0, p_out_buf, Some (of_nat sizeof_ping_pong)))))))))"

subsection \<open>What the reply is\<close>

lemma sizeof_ping_pong [simp]: "sizeof_ping_pong = 11"
  by (simp add: sizeof_ping_pong_def PING_PONG_LEN_def)

lemma length_pp_bytes: "length (pp_buf r) = 5 \<Longrightarrow> length (pp_bytes e r) = 11"
  by (simp add: pp_bytes_def)

text \<open>A ping and the two replies as they go on the wire.\<close>

definition ping_frame :: "u16 \<Rightarrow> byte \<Rightarrow> byte list" where
  "ping_frame cid v = [0, 0, 8, hi_byte cid, lo_byte cid, v] @ ping_chars @ [0]"

definition error_frame :: "u16 \<Rightarrow> byte list" where
  "error_frame cid = [2, 0, 11, hi_byte cid, lo_byte cid, 0, 0, 0, 0, 0, 0]"

definition pong_frame :: "u16 \<Rightarrow> byte \<Rightarrow> byte list" where
  "pong_frame cid v = [1, 0, 11, hi_byte cid, lo_byte cid, v + 1] @ pong_chars"

text \<open>The abstract protocol: the reply to a request is a function of its bytes.\<close>

definition reply_to :: "byte list \<Rightarrow> byte list" where
  "reply_to req =
     (if length req \<noteq> 11 then error_frame 0
      else if req ! 0 = 0 \<and> take 4 (drop 6 req) = ping_chars
      then pong_frame (join16 (req ! 3) (req ! 4)) (req ! 5)
      else error_frame (join16 (req ! 3) (req ! 4)))"

lemma hi_lo_11 [simp]: "hi_byte 11 = 0" "lo_byte 11 = 11" "hi_byte 0 = 0" "lo_byte 0 = 0"
  by (simp_all add: hi_byte_def lo_byte_def drop_bit_eq_div)

lemma pp_bytes_error:
  "pp_bytes e (zero_response\<lparr>pp_type := type_code PING_PONG_ERR, pp_len := htons e 11,
     pp_cli_id := htons e cid, pp_volley := 0\<rparr>) = error_frame cid"
  by (simp add: pp_bytes_def zero_response_def error_frame_def type_code_def PING_PONG_LEN_def
      numeral_eq_Suc)

lemma pp_bytes_pong:
  "pp_bytes e (zero_response\<lparr>pp_type := type_code PONG_TYPE, pp_len := htons e 11,
     pp_cli_id := htons e cid, pp_volley := v + 1, pp_buf := pong_chars\<rparr>) = pong_frame cid v"
  by (simp add: pp_bytes_def zero_response_def type_code_def pong_frame_def)

lemma length_frames [simp]: "length (error_frame cid) = 11" "length (pong_frame cid v) = 11"
  by (simp_all add: error_frame_def pong_frame_def pong_chars_def)

lemma ping_code: "type_code PING_TYPE = 0"
  by (simp add: type_code_def)

lemma length_reply_to: "length (reply_to req) = 11"
  by (simp add: reply_to_def)

lemma reply_type: "reply_to req ! 0 = 1 \<or> reply_to req ! 0 = 2"
  by (simp add: reply_to_def error_frame_def pong_frame_def)

lemma reply_to_ping: "reply_to (ping_frame cid v) = pong_frame cid v"
  by (simp add: reply_to_def ping_frame_def ping_chars_def numeral_eq_Suc)

lemma strn_differs_written:
  assumes "i + length cs \<le> length xs"
  shows "strn_differs (Own b (map Val xs @ rest)) i cs = Inr (take (length cs) (drop i xs) \<noteq> cs)"
  using assms
proof (induction cs arbitrary: i)
  case Nil
  then show ?case by simp
next
  case (Cons c cs)
  then have lt: "i < length xs" by simp
  have "take (Suc (length cs)) (drop i xs) = xs ! i # take (length cs) (drop (Suc i) xs)"
    using lt by (simp add: Cons_nth_drop_Suc [symmetric])
  then show ?case
    using Cons lt by (simp add: nth_append)
qed

lemma load_written: "i < length xs \<Longrightarrow> load (Own b (map Val xs @ rest)) i = Inr (xs ! i)"
  by (simp add: nth_append)

text \<open>
  The whole function against the abstract protocol: the request is the first \<open>inbuf_len\<close> bytes
  of the input block, whatever lies behind them.
\<close>

lemma create_response_reply:
  assumes "length req = unat n" and "11 \<le> length outs"
  shows "proto_pingpong_create_response e (Own b (map Val req @ rest)) (Own c outs) n (Some l) =
    Inr (0, Own c (map Val (reply_to req) @ drop 11 outs), Some 11)"
proof (cases "n = 11")
  case False
  then have "length req \<noteq> 11" using assms(1) by (auto simp: word_unat_eq_iff)
  then show ?thesis
    using False assms
    by (auto simp: proto_pingpong_create_response_def pp_bytes_error reply_to_def)
next
  case True
  then have len: "length req = 11" using assms(1) by simp
  have ld: "load (Own b (map Val req @ rest)) i = Inr (req ! i)" if "i < 11" for i
    by (rule load_written) (use that len in simp)
  have cmp: "strn_differs (Own b (map Val req @ rest)) 6 ping_chars =
      Inr (take 4 (drop 6 req) \<noteq> ping_chars)"
  proof -
    have "length ping_chars = 4" by (simp add: ping_chars_def)
    then show ?thesis
      using strn_differs_written [of 6 ping_chars req b rest] len by simp
  qed
  show ?thesis
    using True len assms(2)
    by (simp add: proto_pingpong_create_response_def ld cmp pp_bytes_error pp_bytes_pong reply_to_def
        ping_code Let_def del: load_Own)
qed

subsection \<open>Properties\<close>

text \<open>
  C22: \<open>proto_pingpong_create_response\<close>, given buffers (\<open>inbuf_len\<close> bytes received, whatever lies
  behind them, room for 11 to send), returns 0, never leaves defined behaviour, reports 11 bytes
  and writes exactly the reply of the abstract protocol to the front of the output buffer: a pong
  with the same client id and the next volley for a well-formed ping, an error frame with the
  client id for any other 11 bytes, and one with id 0 for any other length. The bytes do not
  depend on the host's byte order.
\<close>

theorem create_response_correct:
  assumes "length req = unat n" and "11 \<le> length outs"
  shows "proto_pingpong_create_response e (Own b (map Val req @ rest)) (Own c outs) n (Some l) =
    Inr (0, Own c (map Val (reply_to req) @ drop 11 outs), Some 11)"
  using assms by (rule create_response_reply)

theorem create_response_correct_witness:
  "proto_pingpong_create_response LE (Own 0 (map Val [0, 0, 8, 1, 2, 7, 0x70, 0x69, 0x6E, 0x67, 0] @ [Indet]))
     (Own 1 (replicate 12 Indet)) 11 (Some 0) =
   Inr (0, Own 1 (map Val [1, 0, 11, 1, 2, 8, 0x70, 0x6F, 0x6E, 0x67, 0] @ [Indet]), Some 11)"
proof -
  have reply: "reply_to [0, 0, 8, 1, 2, 7, 0x70, 0x69, 0x6E, 0x67, 0] =
      [1, 0, 11, 1, 2, 8, 0x70, 0x6F, 0x6E, 0x67, 0]"
    by (simp add: reply_to_def pong_frame_def ping_chars_def pong_chars_def numeral_eq_Suc)
  have "drop 11 (replicate 12 Indet) = [Indet :: byte cell]" by simp
  then show ?thesis
    using create_response_correct [of "[0, 0, 8, 1, 2, 7, 0x70, 0x69, 0x6E, 0x67, 0]" 11
        "replicate 12 Indet" LE 0 "[Indet]" 1 0]
    unfolding reply by simp
qed

end
