(* ===== verification/Net_IO.thy ===== *)
theory Net_IO
  imports Conn_Ctx Pong
begin

text \<open>
  \<open>src/libs/net_io/netio.c\<close>: reading frames from a connection and writing replies to it.

  The kernel's side of a non-blocking socket is a script: what the next calls of \<open>recv\<close> or
  \<open>send\<close> meet. \<open>Data bs\<close> is data waiting to be read, in the pieces in which it arrives (a call
  that asks for less leaves the rest waiting; \<open>Data []\<close> is the peer's shutdown, for which
  \<open>recv\<close> returns 0); \<open>Room k\<close> is room for k bytes in the send buffer. When the script is over
  the calls report \<open>EAGAIN\<close>. Theorems hold for every script, so for every fragmentation and
  every mix of interruptions and errors, as long as interruptions do not go on forever.
\<close>

unbundle bit_operations_syntax

datatype errno = EINTR | EAGAIN | EOTHER

datatype recv_event = Data "byte list" | Recv_Err errno

datatype send_event = Room nat | Send_Err errno

text \<open>\<open>recv\<close> of at most n bytes, and \<open>send\<close> of these bytes; \<open>Inl\<close> is a return of -1.\<close>

fun sock_recv :: "nat \<Rightarrow> recv_event list \<Rightarrow> (errno + byte list) \<times> recv_event list" where
  "sock_recv n [] = (Inl EAGAIN, [])"
| "sock_recv n (Recv_Err e # es) = (Inl e, es)"
| "sock_recv n (Data bs # es) =
     (if n < length bs then (Inr (take n bs), Data (drop n bs) # es) else (Inr bs, es))"

fun sock_send :: "nat \<Rightarrow> send_event list \<Rightarrow> (errno + nat) \<times> send_event list" where
  "sock_send n [] = (Inl EAGAIN, [])"
| "sock_send n (Send_Err e # es) = (Inl e, es)"
| "sock_send n (Room k # es) = (Inr (min k n), es)"

datatype nl_internal_err_t =
    NL_IO_GENERIC_ERROR
  | NL_IO_SUCCESS
  | NL_IO_EOF
  | NL_IO_EWOULDBLOCK
  | NL_RECV_ERR
  | NL_SEND_ERR

subsection \<open>nl_recvall and nl_sendall\<close>

lemma sock_recv_interrupted: "(Inl EINTR, es') = sock_recv n es \<Longrightarrow> length es' < length es"
  by (induction n es rule: sock_recv.induct) (auto split: if_splits)

lemma sock_recv_data:
  "(Inr bs, es') = sock_recv n es \<Longrightarrow> length bs \<le> n \<and> length es' \<le> length es"
  by (induction n es rule: sock_recv.induct) (auto split: if_splits)

lemma sock_send_shorter: "(Inl EINTR, es') = sock_send n es \<Longrightarrow> length es' < length es"
  "(Inr k, es') = sock_send n es \<Longrightarrow> length es' < length es"
  by (induction n es rule: sock_send.induct) auto

text \<open>The loops; \<open>off\<close> is where \<open>p_buf\<close> points into its block.\<close>

function recv_loop ::
    "recv_event list \<Rightarrow> byte cell list owned \<Rightarrow> nat \<Rightarrow> nat \<Rightarrow> nat \<Rightarrow>
     cfault + (nl_internal_err_t \<times> byte cell list owned \<times> nat \<times> recv_event list)" where
  "recv_loop es p_buf off len total_read =
     (if total_read < len then
        (case sock_recv (len - total_read) es of
           (Inl err, es') \<Rightarrow>
             if err = EINTR then recv_loop es' p_buf off len total_read
             else Inr (if err = EAGAIN then NL_IO_EWOULDBLOCK else NL_RECV_ERR, p_buf, total_read, es')
         | (Inr bs, es') \<Rightarrow>
             if bs = [] then Inr (NL_IO_EOF, p_buf, total_read, es')
             else and_then (write_at p_buf (off + total_read) bs) (\<lambda>p_buf.
                    recv_loop es' p_buf off len (total_read + length bs)))
      else Inr (NL_IO_SUCCESS, p_buf, total_read, es))"
  by pat_completeness auto
termination
  by (relation "measure (\<lambda>(es, p, off, len, n). length es + (len - n))")
    (auto dest!: sock_recv_interrupted sock_recv_data simp: Suc_le_eq [symmetric] neq_Nil_conv)

declare recv_loop.simps [simp del]

definition nl_recvall ::
    "recv_event list \<Rightarrow> byte cell list owned \<Rightarrow> nat \<Rightarrow> nat \<Rightarrow>
     cfault + (nl_internal_err_t \<times> byte cell list owned \<times> nat \<times> recv_event list)" where
  "nl_recvall es p_buf off len =
     (if p_buf = ONull then Inl Assert_Fail else recv_loop es p_buf off len 0)"

text \<open>The bytes handed to one \<open>send\<close>.\<close>

fun load_bytes :: "byte cell list owned \<Rightarrow> nat \<Rightarrow> nat \<Rightarrow> cfault + byte list" where
  "load_bytes p i 0 = Inr []"
| "load_bytes p i (Suc k) =
     and_then (load p i) (\<lambda>x. and_then (load_bytes p (Suc i) k) (\<lambda>xs. Inr (x # xs)))"

text \<open>\<open>wire\<close> is what the peer will read.\<close>

function send_loop ::
    "send_event list \<Rightarrow> byte cell list owned \<Rightarrow> nat \<Rightarrow> nat \<Rightarrow> byte list \<Rightarrow>
     cfault + (nl_internal_err_t \<times> nat \<times> byte list \<times> send_event list)" where
  "send_loop es p_buf len total_sent wire =
     (if total_sent < len then
        (case sock_send (len - total_sent) es of
           (Inl err, es') \<Rightarrow>
             if err = EINTR then send_loop es' p_buf len total_sent wire
             else Inr (if err = EAGAIN then NL_IO_EWOULDBLOCK else NL_SEND_ERR, total_sent, wire, es')
         | (Inr n, es') \<Rightarrow>
             and_then (load_bytes p_buf total_sent n) (\<lambda>bs.
               send_loop es' p_buf len (total_sent + n) (wire @ bs)))
      else Inr (NL_IO_SUCCESS, total_sent, wire, es))"
  by pat_completeness auto
termination
  by (relation "measure (\<lambda>(es, p, len, n, w). length es)") (auto dest: sock_send_shorter)

declare send_loop.simps [simp del]

definition nl_sendall ::
    "send_event list \<Rightarrow> byte cell list owned \<Rightarrow> nat \<Rightarrow> byte list \<Rightarrow>
     cfault + (nl_internal_err_t \<times> nat \<times> byte list \<times> send_event list)" where
  "nl_sendall es p_buf len wire =
     (if p_buf = ONull then Inl Assert_Fail else send_loop es p_buf len 0 wire)"

subsection \<open>A \<open>uint16_t\<close> in the first bytes of a \<open>size_t\<close>\<close>

text \<open>
  \<open>read_header\<close> copies two bytes to the front of a zeroed \<open>size_t\<close>, and \<open>read_content\<close> passes
  \<open>(uint16_t *)&p_ctx->bytes_to_send\<close>: where the front is depends on the host.
\<close>

definition copy_first2 :: "endian \<Rightarrow> byte \<Rightarrow> byte \<Rightarrow> size_t" where
  "copy_first2 e x y =
     (case e of LE \<Rightarrow> ucast (val16 LE x y) | BE \<Rightarrow> push_bit 48 (ucast (val16 BE x y)))"

definition get_first16 :: "endian \<Rightarrow> size_t \<Rightarrow> u16" where
  "get_first16 e w = (case e of LE \<Rightarrow> ucast w | BE \<Rightarrow> ucast (drop_bit 48 w))"

definition set_first16 :: "endian \<Rightarrow> u16 \<Rightarrow> size_t \<Rightarrow> size_t" where
  "set_first16 e v w =
     (case e of LE \<Rightarrow> push_bit 16 (drop_bit 16 w) OR ucast v
      | BE \<Rightarrow> push_bit 48 (ucast v) OR take_bit 48 w)"

lemma u16_in_size_t [simp]: "ucast (ucast v :: size_t) = (v :: u16)"
  by (rule bit_word_eqI) (auto simp: bit_simps)

lemma unat_u16_in_size_t [simp]: "unat (ucast (v :: u16) :: size_t) = unat v"
  using u16_lt [of v] by (simp add: unsigned_ucast_eq take_bit_nat_eq_self)

lemma length_from_header_LE: "ntohs LE (ucast (copy_first2 LE h l)) = join16 h l"
  by (simp add: copy_first2_def)

lemma length_from_header_BE: "ntohs BE (ucast (copy_first2 BE h l)) = 0"
proof -
  have "ucast (copy_first2 BE h l) = (0 :: u16)"
    unfolding copy_first2_def by (rule bit_word_eqI) (simp add: bit_simps)
  then show ?thesis by (simp add: ntohs_def htons_def)
qed

lemma set_first16_LE_0 [simp]: "set_first16 LE v 0 = ucast v"
  by (simp add: set_first16_def)

lemma set_get_first16: "set_first16 e (get_first16 e w) w = w"
  unfolding set_first16_def get_first16_def
  by (cases e; rule bit_word_eqI) (auto simp: bit_simps)

subsection \<open>The four handlers\<close>

text \<open>
  The host's byte order and the socket are arguments; the connection is returned with the
  script that is left. A pointer that was never initialised is a fault on use.
\<close>

definition read_header ::
    "endian \<Rightarrow> recv_event list \<Rightarrow> conn_ctx \<Rightarrow> cfault + (int \<times> conn_ctx \<times> recv_event list)" where
  [op_defs]: "read_header e es p_ctx =
     and_then (get_cell (cc_recv_buf p_ctx)) (\<lambda>p_recv_buf.
     and_then (nl_recvall es p_recv_buf (unat (cc_bytes_read p_ctx)) (unat (cc_bytes_to_read p_ctx)))
       (\<lambda>(err, p_recv_buf, bytes_read, es').
         let c = p_ctx\<lparr>cc_recv_buf := Val p_recv_buf,
                   cc_bytes_read := cc_bytes_read p_ctx + of_nat bytes_read,
                   cc_bytes_to_read := cc_bytes_to_read p_ctx - of_nat bytes_read\<rparr>
         in case err of
              NL_IO_SUCCESS \<Rightarrow>
                if cc_bytes_read c = of_nat HEADER_SIZE then
                  and_then (load p_recv_buf 1) (\<lambda>h.
                  and_then (load p_recv_buf 2) (\<lambda>l.
                    let incoming_len = ucast (ntohs e (ucast (copy_first2 e h l))) in
                    Inr (0, c\<lparr>cc_bytes_to_read := incoming_len, cc_state := READ_CONTENT\<rparr>, es')))
                else Inr (0, c, es')
            | NL_IO_EWOULDBLOCK \<Rightarrow> Inr (0, c, es')
            | NL_RECV_ERR \<Rightarrow> Inr (-1, c, es')
            | NL_IO_EOF \<Rightarrow> Inr (0, c\<lparr>cc_state := PENDING_CLOSE\<rparr>, es')
            | _ \<Rightarrow> Inr (-1, c, es')))"

definition read_content ::
    "endian \<Rightarrow> recv_event list \<Rightarrow> conn_ctx \<Rightarrow> cfault + (int \<times> conn_ctx \<times> recv_event list)" where
  [op_defs]: "read_content e es p_ctx =
     and_then (get_cell (cc_recv_buf p_ctx)) (\<lambda>p_recv_buf.
     and_then (nl_recvall es p_recv_buf (unat (cc_bytes_read p_ctx)) (unat (cc_bytes_to_read p_ctx)))
       (\<lambda>(err, p_recv_buf, bytes_read, es').
         let c = p_ctx\<lparr>cc_recv_buf := Val p_recv_buf,
                   cc_bytes_read := cc_bytes_read p_ctx + of_nat bytes_read,
                   cc_bytes_to_read := cc_bytes_to_read p_ctx - of_nat bytes_read\<rparr>
         in case err of
              NL_IO_SUCCESS \<Rightarrow>
                if cc_bytes_to_read c = 0 then
                  and_then (get_cell (cc_send_buf c)) (\<lambda>p_send_buf.
                  and_then (proto_pingpong_create_response e p_recv_buf p_send_buf
                      (ucast (cc_bytes_read c)) (Some (get_first16 e (cc_bytes_to_send c))))
                    (\<lambda>(_, p_send_buf, p_out_len).
                  and_then (write_at p_recv_buf 0 (replicate IO_BUF_SIZE 0)) (\<lambda>p_recv_buf.
                    Inr (0, c\<lparr>cc_send_buf := Val p_send_buf,
                        cc_bytes_to_send := (case p_out_len of None \<Rightarrow> cc_bytes_to_send c
                          | Some v \<Rightarrow> set_first16 e v (cc_bytes_to_send c)),
                        cc_bytes_to_read := 0, cc_bytes_read := 0, cc_state := WRITE_RESPONSE,
                        cc_recv_buf := Val p_recv_buf\<rparr>, es'))))
                else Inr (0, c, es')
            | NL_IO_EWOULDBLOCK \<Rightarrow> Inr (0, c, es')
            | NL_RECV_ERR \<Rightarrow> Inr (-1, c, es')
            | NL_IO_EOF \<Rightarrow> Inr (0, c\<lparr>cc_state := PENDING_CLOSE\<rparr>, es')
            | _ \<Rightarrow> Inr (-1, c, es')))"

text \<open>\<open>None\<close> is a \<open>NULL\<close> connection.\<close>

definition nl_handle_sock_data_in ::
    "endian \<Rightarrow> recv_event list \<Rightarrow> conn_ctx option \<Rightarrow>
     cfault + (int \<times> conn_ctx option \<times> recv_event list)" where
  [op_defs]: "nl_handle_sock_data_in e es p_ctx =
     (case p_ctx of
        None \<Rightarrow> Inr (-1, None, es)
      | Some c \<Rightarrow>
          (case cc_state c of
             READ_HEADER \<Rightarrow> and_then (read_header e es c) (\<lambda>(res, c, es). Inr (res, Some c, es))
           | READ_CONTENT \<Rightarrow> and_then (read_content e es c) (\<lambda>(res, c, es). Inr (res, Some c, es))
           | _ \<Rightarrow> Inr (-1, Some c, es)))"

definition nl_handle_sock_data_out ::
    "send_event list \<Rightarrow> conn_ctx option \<Rightarrow> byte list \<Rightarrow>
     cfault + (int \<times> conn_ctx option \<times> byte list \<times> send_event list)" where
  [op_defs]: "nl_handle_sock_data_out es p_ctx wire =
     (case p_ctx of
        None \<Rightarrow> Inr (-1, None, wire, es)
      | Some c0 \<Rightarrow>
          and_then (get_cell (cc_send_buf c0)) (\<lambda>p_send_buf.
          and_then (nl_sendall es p_send_buf (unat (cc_bytes_to_send c0)) wire)
            (\<lambda>(err, bytes_sent, wire, es').
              let c = c0\<lparr>cc_bytes_to_send := cc_bytes_to_send c0 - of_nat bytes_sent,
                         cc_bytes_sent := cc_bytes_sent c0 + of_nat bytes_sent\<rparr>
              in case err of
                   NL_IO_SUCCESS \<Rightarrow>
                     if cc_bytes_to_send c = 0 then
                       and_then (write_at p_send_buf 0 (replicate IO_BUF_SIZE 0)) (\<lambda>p_send_buf.
                         Inr (0, Some (c\<lparr>cc_bytes_to_send := 0, cc_bytes_sent := 0,
                             cc_state := READ_HEADER, cc_bytes_to_read := of_nat HEADER_SIZE,
                             cc_send_buf := Val p_send_buf\<rparr>), wire, es'))
                     else Inr (0, Some c, wire, es')
                 | NL_IO_EWOULDBLOCK \<Rightarrow> Inr (0, Some c, wire, es')
                 | _ \<Rightarrow> Inr (-1, Some c, wire, es'))))"

subsection \<open>What the loops do\<close>

text \<open>
  \<open>stream\<close> is all the data a script delivers; a \<open>quiet\<close> script has neither the peer's shutdown
  nor an error other than \<open>EINTR\<close> and \<open>EAGAIN\<close>.
\<close>

fun event_data :: "recv_event \<Rightarrow> byte list" where
  "event_data (Data bs) = bs"
| "event_data (Recv_Err _) = []"

definition stream :: "recv_event list \<Rightarrow> byte list" where
  "stream es = concat (map event_data es)"

definition quiet :: "recv_event list \<Rightarrow> bool" where
  "quiet es \<longleftrightarrow> Data [] \<notin> set es \<and> Recv_Err EOTHER \<notin> set es"

lemma stream_simps [simp]:
  "stream [] = []" "stream (Data bs # es) = bs @ stream es" "stream (Recv_Err x # es) = stream es"
  by (simp_all add: stream_def)

lemma sock_recv_stream:
  "sock_recv n es = (Inl x, es') \<Longrightarrow> stream es' = stream es \<and> (quiet es \<longrightarrow> quiet es' \<and> x \<noteq> EOTHER)"
  "sock_recv n es = (Inr bs, es') \<Longrightarrow> stream es = bs @ stream es' \<and> (quiet es \<longrightarrow> quiet es' \<and> (0 < n \<longrightarrow> bs \<noteq> []))"
  by (induction n es rule: sock_recv.induct) (auto simp: quiet_def split: if_splits)

lemma sock_recv_again:
  "sock_recv n es = (Inl x, es') \<Longrightarrow> x \<noteq> EINTR \<Longrightarrow> es' = [] \<or> length es' < length es"
  by (induction n es rule: sock_recv.induct) (auto split: if_splits)

text \<open>
  \<open>nl_recvall\<close> writes a prefix of the stream at \<open>p_buf\<close> and leaves the rest of the stream and
  of the block alone; it succeeds exactly when it got all it asked for.
\<close>

definition recv_outcome ::
    "recv_event list \<Rightarrow> nat \<Rightarrow> nl_internal_err_t \<Rightarrow> byte list \<Rightarrow> recv_event list \<Rightarrow> bool" where
  "recv_outcome es n err bs es' \<longleftrightarrow>
     length bs \<le> n \<and> stream es = bs @ stream es' \<and> length es' \<le> length es \<and>
     (if length bs = n then err = NL_IO_SUCCESS
      else err \<in> {NL_IO_EWOULDBLOCK, NL_RECV_ERR, NL_IO_EOF}) \<and>
     (quiet es \<longrightarrow> quiet es' \<and> err \<in> {NL_IO_SUCCESS, NL_IO_EWOULDBLOCK}) \<and>
     (err = NL_IO_EWOULDBLOCK \<longrightarrow> es' = [] \<or> length es' < length es)"

lemma recv_outcome_more:
  assumes "recv_outcome es1 (n - length bs) err bs' es'" and "length bs \<le> n"
    and "stream es = bs @ stream es1" and "length es1 \<le> length es" and "quiet es \<longrightarrow> quiet es1"
  shows "recv_outcome es n err (bs @ bs') es'"
  using assms unfolding recv_outcome_def by (auto split: if_splits)

lemma take_write_drop:
  "i + length bs \<le> length cs \<Longrightarrow>
   take (i + length bs) (take i cs @ map Val bs @ drop (i + length bs) cs) = take i cs @ map Val bs"
  by simp

lemma recv_loop_ok:
  assumes "off + len \<le> length cs" and "n \<le> len"
  shows "\<exists>err bs es'. recv_loop es (Own b cs) off len n =
      Inr (err, Own b (take (off + n) cs @ map Val bs @ drop (off + n + length bs) cs), n + length bs, es') \<and>
    recv_outcome es (len - n) err bs es'"
  using assms
proof (induction es "Own b cs" off len n arbitrary: cs rule: recv_loop.induct)
  case (1 es off len n)
  note prems = "1.prems"
  show ?case
  proof (cases "n < len")
    case False
    then show ?thesis
      using prems by (subst recv_loop.simps) (auto simp: recv_outcome_def intro!: exI [of _ "[]"])
  next
    case True
    obtain r es1 where r: "sock_recv (len - n) es = (r, es1)" by fastforce
    show ?thesis
    proof (cases r)
      case (Inl x)
      note st = sock_recv_stream(1) [OF r [unfolded Inl]]
      show ?thesis
      proof (cases "x = EINTR")
        case True
        then have "length es1 < length es"
          using sock_recv_interrupted [of es1 "len - n" es] r Inl by simp
        with "1.hyps"(1) [OF \<open>n < len\<close> r [symmetric] Inl True prems] st r Inl True show ?thesis
          by (subst recv_loop.simps) (fastforce simp: recv_outcome_def)
      next
        case False
        then show ?thesis
          using r Inl st prems \<open>n < len\<close> sock_recv_again [OF r [unfolded Inl] False]
          by (subst recv_loop.simps)
            (cases x; auto simp: recv_outcome_def dest: sock_recv_again intro!: exI [of _ "[]"])
      qed
    next
      case (Inr bs)
      note st = sock_recv_stream(2) [OF r [unfolded Inr]]
      have len: "length bs \<le> len - n" "length es1 \<le> length es"
        using sock_recv_data [of bs es1 "len - n" es] r Inr by simp_all
      show ?thesis
      proof (cases "bs = []")
        case True
        then show ?thesis
          using r Inr st prems \<open>n < len\<close> len
          by (subst recv_loop.simps) (auto simp: recv_outcome_def intro!: exI [of _ "[]"])
      next
        case False
        let ?cs1 = "take (off + n) cs @ map Val bs @ drop (off + n + length bs) cs"
        have fit: "off + n + length bs \<le> length cs" using len prems \<open>n < len\<close> by simp
        then have w: "write_at (Own b cs) (off + n) bs = Inr (Own b ?cs1)" by simp
        have fit1: "off + len \<le> length ?cs1" "n + length bs \<le> len" using fit prems len \<open>n < len\<close> by simp_all
        from "1.hyps"(2) [OF \<open>n < len\<close> r [symmetric] Inr False w fit1] obtain err bs' es' where
          rec: "recv_loop es1 (Own b ?cs1) off len (n + length bs) = Inr (err,
            Own b (take (off + n + length bs) ?cs1 @ map Val bs' @ drop (off + n + length bs + length bs') ?cs1),
            n + length bs + length bs', es')"
          and out: "recv_outcome es1 (len - n - length bs) err bs' es'"
          by (auto simp: add.assoc)
        have "recv_loop es (Own b cs) off len n = recv_loop es1 (Own b ?cs1) off len (n + length bs)"
          using r Inr False w \<open>n < len\<close> by (subst recv_loop.simps) (simp del: write_at_Own)
        moreover have "take (off + n + length bs) ?cs1 @ map Val bs' @ drop (off + n + length bs + length bs') ?cs1 =
            take (off + n) cs @ map Val (bs @ bs') @ drop (off + n + length (bs @ bs')) cs"
          using fit by (simp add: ac_simps)
        moreover have "recv_outcome es (len - n) err (bs @ bs') es'"
          using recv_outcome_more [OF out len(1) conjunct1 [OF st] len(2)] st by simp
        ultimately show ?thesis
          using rec by (intro exI [of _ err] exI [of _ "bs @ bs'"] exI [of _ es']) (simp add: add.assoc)
      qed
    qed
  qed
qed

lemma nl_recvall_ok:
  assumes "off + len \<le> length cs"
  shows "\<exists>err bs es'. nl_recvall es (Own b cs) off len =
      Inr (err, Own b (take off cs @ map Val bs @ drop (off + length bs) cs), length bs, es') \<and>
    recv_outcome es len err bs es'"
  using recv_loop_ok [of off len cs 0 es b] assms by (simp add: nl_recvall_def)

subsection \<open>Where a connection is in its frame\<close>

text \<open>
  A frame is three bytes of header, whose last two are the length of the content in network
  order, and the content.
\<close>

definition frame_len :: "byte list \<Rightarrow> nat" where
  "frame_len got = HEADER_SIZE + unat (join16 (got ! 1) (got ! 2))"

definition frame_done :: "byte list \<Rightarrow> bool" where
  "frame_done got \<longleftrightarrow> HEADER_SIZE \<le> length got \<and> length got = frame_len got"

text \<open>The two buffers of an inbound connection: what the receive buffer starts with.\<close>

definition has_bufs :: "conn_ctx \<Rightarrow> byte list \<Rightarrow> byte list \<Rightarrow> bool" where
  "has_bufs c got outs \<longleftrightarrow>
     (\<exists>rb rest. cc_recv_buf c = Val (Own rb (map Val got @ rest)) \<and> length got + length rest = IO_BUF_SIZE) \<and>
     (\<exists>sb rest. cc_send_buf c = Val (Own sb (map Val outs @ rest)) \<and> length outs + length rest = IO_BUF_SIZE)"

text \<open>Reading a frame, with \<open>got\<close> received of it; and holding a reply of which nothing is sent.\<close>

definition reading :: "conn_ctx \<Rightarrow> byte list \<Rightarrow> bool" where
  "reading c got \<longleftrightarrow>
     has_bufs c got [] \<and> cc_bytes_read c = of_nat (length got) \<and>
     cc_bytes_to_send c = 0 \<and> cc_bytes_sent c = 0 \<and>
     (case cc_state c of
        READ_HEADER \<Rightarrow> length got < HEADER_SIZE \<and> cc_bytes_to_read c = of_nat (HEADER_SIZE - length got)
      | READ_CONTENT \<Rightarrow> HEADER_SIZE \<le> length got \<and> length got \<le> frame_len got \<and>
          cc_bytes_to_read c = of_nat (frame_len got - length got)
      | _ \<Rightarrow> False)"

definition replying :: "conn_ctx \<Rightarrow> byte list \<Rightarrow> bool" where
  "replying c outs \<longleftrightarrow>
     cc_state c = WRITE_RESPONSE \<and> has_bufs c [] outs \<and> cc_bytes_to_send c = of_nat (length outs) \<and>
     cc_bytes_sent c = 0 \<and> cc_bytes_read c = 0 \<and> cc_bytes_to_read c = 0"

lemma unat_size_t: "n < 18446744073709551616 \<Longrightarrow> unat (of_nat n :: size_t) = n"
  by (simp add: unat_of_nat)

lemma of_nat_size_t_eq:
  "m < 18446744073709551616 \<Longrightarrow> n < 18446744073709551616 \<Longrightarrow> (of_nat m :: size_t) = of_nat n \<longleftrightarrow> m = n"
  by (metis unat_size_t)

lemma frame_len_bound: "frame_len got < 65539"
  using u16_lt [of "join16 (got ! 1) (got ! 2)"] by (simp add: frame_len_def)

lemma frame_len_append: "3 \<le> length got \<Longrightarrow> frame_len (got @ bs) = frame_len got"
  by (simp add: frame_len_def nth_append)

text \<open>
  What one call reads: \<open>bs\<close>, the next bytes of the stream, never past the end of the frame. It
  is then still reading, has the reply ready once the frame is complete, or met the shutdown or
  an error. In a quiet script only the first two can happen.
\<close>

definition in_outcome ::
    "recv_event list \<Rightarrow> conn_ctx \<Rightarrow> byte list \<Rightarrow> int \<Rightarrow> conn_ctx \<Rightarrow> byte list \<Rightarrow> recv_event list \<Rightarrow> bool" where
  "in_outcome es c got res c' bs es' \<longleftrightarrow>
     stream es = bs @ stream es' \<and> length es' \<le> length es \<and> (quiet es \<longrightarrow> quiet es') \<and>
     (res = 0 \<and> reading c' (got @ bs) \<and>
        (if cc_state c = READ_HEADER \<and> cc_state c' = READ_CONTENT then length (got @ bs) = 3
         else \<not> frame_done (got @ bs) \<and> cc_state c' = cc_state c \<and> (es' = [] \<or> length es' < length es)) \<or>
      res = 0 \<and> cc_state c = READ_CONTENT \<and> frame_done (got @ bs) \<and> replying c' (reply_to (got @ bs)) \<or>
      \<not> quiet es \<and> (res = 0 \<and> cc_state c' = PENDING_CLOSE \<and> has_bufs c' (got @ bs) [] \<or>
        res = -1 \<and> reading c' (got @ bs)))"

lemma recv_into:
  assumes "has_bufs c got []" and "length got + len \<le> 1024"
  shows "\<exists>rb rest err bs es'. cc_recv_buf c = Val (Own rb (map Val got @ rest)) \<and>
    length got + length rest = 1024 \<and>
    nl_recvall es (Own rb (map Val got @ rest)) (length got) len =
      Inr (err, Own rb (map Val (got @ bs) @ drop (length bs) rest), length bs, es') \<and>
    recv_outcome es len err bs es'"
proof -
  obtain rb rest where b: "cc_recv_buf c = Val (Own rb (map Val got @ rest))" "length got + length rest = 1024"
    using assms(1) by (auto simp: has_bufs_def)
  then have "length got + len \<le> length (map Val got @ rest)" using assms(2) by simp
  from nl_recvall_ok [OF this, of es rb] b show ?thesis by (auto simp: ac_simps)
qed

lemma has_bufs_received:
  assumes "has_bufs c got []" and "length (got @ bs) + length rest = 1024"
  shows "has_bufs (c\<lparr>cc_recv_buf := Val (Own rb (map Val (got @ bs) @ rest)), cc_bytes_read := r,
    cc_bytes_to_read := t\<rparr>) (got @ bs) []"
  using assms by (auto simp: has_bufs_def simp del: map_append)

lemma has_bufs_cong:
  "cc_recv_buf c' = cc_recv_buf c \<Longrightarrow> cc_send_buf c' = cc_send_buf c \<Longrightarrow> has_bufs c' got outs = has_bufs c got outs"
  by (simp add: has_bufs_def)

lemma header_load:
  "length got = 3 \<Longrightarrow> load (Own rb (map Val got @ rest)) (Suc 0) = Inr (got ! 1)"
  "length got = 3 \<Longrightarrow> load (Own rb (map Val got @ rest)) 2 = Inr (got ! 2)"
  by (simp_all add: load_written del: load_Own)

lemma header_done_reading:
  assumes "has_bufs c got []" and "length got = 3" and "cc_bytes_read c = 3"
    and "cc_bytes_to_send c = 0" and "cc_bytes_sent c = 0"
    and "cc_bytes_to_read c = ucast (join16 (got ! 1) (got ! 2))" and "cc_state c = READ_CONTENT"
  shows "reading c got"
proof -
  have "(ucast (join16 (got ! 1) (got ! 2)) :: size_t) = of_nat (frame_len got - length got)"
    using assms(2) by (simp add: frame_len_def)
  then show ?thesis using assms by (simp add: reading_def frame_len_def)
qed

text \<open>The connection after some bytes, in the same state.\<close>

definition received :: "conn_ctx \<Rightarrow> nat \<Rightarrow> byte list \<Rightarrow> byte cell list \<Rightarrow> nat \<Rightarrow> conn_ctx" where
  "received c rb all rest n =
     c\<lparr>cc_recv_buf := Val (Own rb (map Val all @ rest)),
       cc_bytes_read := cc_bytes_read c + of_nat n, cc_bytes_to_read := cc_bytes_to_read c - of_nat n\<rparr>"

lemma received_fields [simp]:
  "cc_state (received c rb a rest n) = cc_state c"
  "cc_bytes_read (received c rb a rest n) = cc_bytes_read c + of_nat n"
  "cc_bytes_to_read (received c rb a rest n) = cc_bytes_to_read c - of_nat n"
  "cc_recv_buf (received c rb a rest n) = Val (Own rb (map Val a @ rest))"
  "cc_send_buf (received c rb a rest n) = cc_send_buf c"
  "cc_bytes_to_send (received c rb a rest n) = cc_bytes_to_send c"
  "cc_bytes_sent (received c rb a rest n) = cc_bytes_sent c"
  by (simp_all add: received_def)

lemma received_bufs:
  "has_bufs c got [] \<Longrightarrow> length all + length rest = 1024 \<Longrightarrow> has_bufs (received c rb all rest n) all []"
  by (auto simp: has_bufs_def)

lemma reading_header_more:
  assumes "reading c got" and "cc_state c = READ_HEADER" and "length got + length bs < 3"
    and "length (got @ bs) + length rest = 1024"
  shows "reading (received c rb (got @ bs) rest (length bs)) (got @ bs)"
proof -
  have "(of_nat (3 - length got) :: size_t) - of_nat (length bs) = of_nat (3 - (length got + length bs))"
    unfolding diff_diff_left [symmetric] by (rule of_nat_diff [symmetric]) (use assms(3) in simp)
  moreover have "has_bufs (received c rb (got @ bs) rest (length bs)) (got @ bs) []"
    using assms received_bufs unfolding reading_def by blast
  ultimately show ?thesis
    using assms by (simp add: reading_def del: map_append of_nat_diff)
qed

lemma reading_content_more:
  assumes "reading c got" and "cc_state c = READ_CONTENT" and "length got + length bs \<le> frame_len got"
    and "length (got @ bs) + length rest = 1024"
  shows "reading (received c rb (got @ bs) rest (length bs)) (got @ bs)"
proof -
  have "3 \<le> length got" using assms(1,2) by (simp add: reading_def)
  then have fl: "frame_len (got @ bs) = frame_len got" by (rule frame_len_append)
  have "(of_nat (frame_len got - length got) :: size_t) - of_nat (length bs) =
      of_nat (frame_len got - (length got + length bs))"
    unfolding diff_diff_left [symmetric] by (rule of_nat_diff [symmetric]) (use assms(3) in simp)
  moreover have "has_bufs (received c rb (got @ bs) rest (length bs)) (got @ bs) []"
    using assms received_bufs unfolding reading_def by blast
  ultimately show ?thesis
    using assms fl by (simp add: reading_def del: map_append of_nat_diff)
qed

lemma reading_counts:
  assumes "reading c got"
  shows "unat (cc_bytes_read c) = length got"
    "cc_state c = READ_HEADER \<Longrightarrow> unat (cc_bytes_to_read c) = 3 - length got"
    "cc_state c = READ_CONTENT \<Longrightarrow> unat (cc_bytes_to_read c) = frame_len got - length got"
proof -
  have "length got \<le> 1024" using assms by (auto simp: reading_def has_bufs_def)
  then show "unat (cc_bytes_read c) = length got"
    "cc_state c = READ_HEADER \<Longrightarrow> unat (cc_bytes_to_read c) = 3 - length got"
    "cc_state c = READ_CONTENT \<Longrightarrow> unat (cc_bytes_to_read c) = frame_len got - length got"
    using assms frame_len_bound [of got] by (simp_all add: reading_def unat_size_t del: of_nat_diff)
qed

text \<open>A call that did not get all it asked for.\<close>

lemma short_read:
  assumes "recv_outcome es n err bs es'" and "length bs \<noteq> n" and "reading c1 (got @ bs)"
    and "\<not> frame_done (got @ bs)" and "cc_state c1 = cc_state c"
  shows "err = NL_IO_EWOULDBLOCK \<and> in_outcome es c got 0 c1 bs es' \<or>
    err = NL_RECV_ERR \<and> in_outcome es c got (-1) c1 bs es' \<or>
    err = NL_IO_EOF \<and> in_outcome es c got 0 (c1\<lparr>cc_state := PENDING_CLOSE\<rparr>) bs es'"
proof -
  have "has_bufs (c1\<lparr>cc_state := PENDING_CLOSE\<rparr>) (got @ bs) []"
    using assms(3) by (simp add: reading_def has_bufs_def)
  moreover have "err \<in> {NL_IO_EWOULDBLOCK, NL_RECV_ERR, NL_IO_EOF}"
    using assms(1,2) by (simp add: recv_outcome_def)
  ultimately show ?thesis
    using assms unfolding recv_outcome_def in_outcome_def by auto
qed

text \<open>The handlers after the call of \<open>nl_recvall\<close>, on every result of it.\<close>

lemma header_run:
  assumes r: "reading c got" and st: "cc_state c = READ_HEADER"
    and cb: "cc_recv_buf c = Val (Own rb (map Val got @ rest))"
    and rv: "nl_recvall es (Own rb (map Val got @ rest)) (length got) (3 - length got) =
      Inr (err, Own rb (map Val (got @ bs) @ drop (length bs) rest), length bs, es')"
  shows "let c1 = received c rb (got @ bs) (drop (length bs) rest) (length bs) in
    read_header LE es c =
     (case err of NL_IO_SUCCESS \<Rightarrow>
        if cc_bytes_read c1 = 3 then
          and_then (load (Own rb (map Val (got @ bs) @ drop (length bs) rest)) 1) (\<lambda>h.
          and_then (load (Own rb (map Val (got @ bs) @ drop (length bs) rest)) 2) (\<lambda>l.
            Inr (0, c1\<lparr>cc_bytes_to_read := ucast (join16 h l), cc_state := READ_CONTENT\<rparr>, es')))
        else Inr (0, c1, es')
      | NL_IO_EWOULDBLOCK \<Rightarrow> Inr (0, c1, es')
      | NL_RECV_ERR \<Rightarrow> Inr (-1, c1, es')
      | NL_IO_EOF \<Rightarrow> Inr (0, c1\<lparr>cc_state := PENDING_CLOSE\<rparr>, es')
      | _ \<Rightarrow> Inr (-1, c1, es'))"
  using rv cb r st
  by (cases err)
    (simp_all add: read_header_def reading_counts received_def length_from_header_LE Let_def
      del: load_Own map_append)

lemma read_header_step:
  assumes r: "reading c got" and st: "cc_state c = READ_HEADER"
  shows "\<exists>res c' bs es'. read_header LE es c = Inr (res, c', es') \<and> in_outcome es c got res c' bs es'"
proof -
  have lt: "length got < 3" and bufs: "has_bufs c got []" using r st by (simp_all add: reading_def)
  obtain rb rest err bs es' where cb: "cc_recv_buf c = Val (Own rb (map Val got @ rest))"
    and tot: "length got + length rest = 1024"
    and rv: "nl_recvall es (Own rb (map Val got @ rest)) (length got) (3 - length got) =
      Inr (err, Own rb (map Val (got @ bs) @ drop (length bs) rest), length bs, es')"
    and out: "recv_outcome es (3 - length got) err bs es'"
    using recv_into [OF bufs, of "3 - length got" es] lt by auto
  define rest' where "rest' = drop (length bs) rest"
  define c1 where "c1 = received c rb (got @ bs) rest' (length bs)"
  have le: "length got + length bs \<le> 3" using out lt unfolding recv_outcome_def by linarith
  then have tot': "length (got @ bs) + length rest' = 1024" using tot by (simp add: rest'_def)
  note run = header_run [OF r st cb rv, unfolded Let_def, folded rest'_def, folded c1_def]
  show ?thesis
  proof (cases "length got + length bs = 3")
    case True
    then have err: "err = NL_IO_SUCCESS" and g3: "length (got @ bs) = 3"
      using out lt by (auto simp: recv_outcome_def)
    define c2 where "c2 = c1\<lparr>cc_bytes_to_read := ucast (join16 ((got @ bs) ! 1) ((got @ bs) ! 2)), cc_state := READ_CONTENT\<rparr>"
    have br: "cc_bytes_read c1 = 3"
      using r True by (simp add: c1_def reading_def flip: of_nat_add)
    have "has_bufs c2 (got @ bs) []"
      using received_bufs [OF bufs tot'] by (simp add: c2_def c1_def has_bufs_def)
    then have "reading c2 (got @ bs)"
      using g3 br r by (intro header_done_reading) (simp_all add: c2_def c1_def reading_def del: nth_append)
    moreover have "read_header LE es c = Inr (0, c2, es')"
      unfolding run err by (simp add: br header_load [OF g3] c2_def del: map_append load_Own)
    ultimately have "in_outcome es c got 0 c2 bs es'"
      using out g3 st by (simp add: in_outcome_def recv_outcome_def c2_def)
    then show ?thesis using \<open>read_header LE es c = Inr (0, c2, es')\<close> by blast
  next
    case False
    then have rd: "reading c1 (got @ bs)"
      unfolding c1_def using r st le tot' by (intro reading_header_more) auto
    have nf: "\<not> frame_done (got @ bs)" using le False by (simp add: frame_done_def)
    have ne: "length bs \<noteq> 3 - length got" using False lt by simp
    have "cc_state c1 = cc_state c" by (simp add: c1_def)
    from short_read [OF out ne rd nf this] show ?thesis
      unfolding run by auto
  qed
qed

lemma reply_ready:
  assumes r: "reading c got" and st: "cc_state c = READ_CONTENT"
    and sb: "cc_send_buf c = Val (Own sb outs)" and len: "length outs = 1024"
    and tot: "length all + length rest = 1024"
  shows "replying (received c rb all rest n\<lparr>cc_send_buf := Val (Own sb (map Val (reply_to all) @ drop 11 outs)),
      cc_bytes_to_send := 11, cc_bytes_to_read := 0, cc_bytes_read := 0, cc_state := WRITE_RESPONSE,
      cc_recv_buf := Val (Own rb (map Val (replicate 1024 0)))\<rparr>) (reply_to all)"
  using assms by (simp add: replying_def has_bufs_def reading_def length_reply_to)

lemma content_run:
  assumes r: "reading c got" and st: "cc_state c = READ_CONTENT"
    and sb: "cc_send_buf c = Val (Own sb outs)"
    and cb: "cc_recv_buf c = Val (Own rb (map Val got @ rest))"
    and rv: "nl_recvall es (Own rb (map Val got @ rest)) (length got) (frame_len got - length got) =
      Inr (err, Own rb (map Val (got @ bs) @ drop (length bs) rest), length bs, es')"
  shows "let c1 = received c rb (got @ bs) (drop (length bs) rest) (length bs) in
    read_content LE es c =
     (case err of NL_IO_SUCCESS \<Rightarrow>
        if cc_bytes_to_read c1 = 0 then
          and_then (proto_pingpong_create_response LE (Own rb (map Val (got @ bs) @ drop (length bs) rest)) (Own sb outs)
              (ucast (cc_bytes_read c1)) (Some (get_first16 LE (cc_bytes_to_send c1))))
            (\<lambda>(_, p_send_buf, p_out_len).
          and_then (write_at (Own rb (map Val (got @ bs) @ drop (length bs) rest)) 0 (replicate 1024 0)) (\<lambda>p_recv_buf.
            Inr (0, c1\<lparr>cc_send_buf := Val p_send_buf,
                cc_bytes_to_send := (case p_out_len of None \<Rightarrow> cc_bytes_to_send c1
                  | Some v \<Rightarrow> set_first16 LE v (cc_bytes_to_send c1)),
                cc_bytes_to_read := 0, cc_bytes_read := 0, cc_state := WRITE_RESPONSE,
                cc_recv_buf := Val p_recv_buf\<rparr>, es')))
        else Inr (0, c1, es')
      | NL_IO_EWOULDBLOCK \<Rightarrow> Inr (0, c1, es')
      | NL_RECV_ERR \<Rightarrow> Inr (-1, c1, es')
      | NL_IO_EOF \<Rightarrow> Inr (0, c1\<lparr>cc_state := PENDING_CLOSE\<rparr>, es')
      | _ \<Rightarrow> Inr (-1, c1, es'))"
  using rv cb r st sb
  by (cases err)
    (simp_all add: read_content_def reading_counts received_def Let_def
      cong: option.case_cong del: load_Own map_append write_at_Own)

lemma read_content_step:
  assumes r: "reading c got" and st: "cc_state c = READ_CONTENT" and fit: "frame_len got \<le> 1024"
  shows "\<exists>res c' bs es'. read_content LE es c = Inr (res, c', es') \<and> in_outcome es c got res c' bs es'"
proof -
  let ?n = "frame_len got - length got"
  have ge: "3 \<le> length got" "length got \<le> frame_len got" and bufs: "has_bufs c got []"
    using r st by (simp_all add: reading_def)
  obtain sb outs where sb: "cc_send_buf c = Val (Own sb outs)" "length outs = 1024"
    using bufs by (auto simp: has_bufs_def)
  obtain rb rest err bs es' where cb: "cc_recv_buf c = Val (Own rb (map Val got @ rest))"
    and tot: "length got + length rest = 1024"
    and rv: "nl_recvall es (Own rb (map Val got @ rest)) (length got) ?n =
      Inr (err, Own rb (map Val (got @ bs) @ drop (length bs) rest), length bs, es')"
    and out: "recv_outcome es ?n err bs es'"
    using recv_into [OF bufs, of ?n es] ge fit by auto
  define rest' where "rest' = drop (length bs) rest"
  define c1 where "c1 = received c rb (got @ bs) rest' (length bs)"
  have le: "length bs \<le> ?n" "length got + length bs \<le> frame_len got"
    using out ge unfolding recv_outcome_def by linarith+
  then have tot': "length (got @ bs) + length rest' = 1024" using tot fit by (simp add: rest'_def)
  have c1: "cc_send_buf c1 = Val (Own sb outs)" "cc_bytes_to_send c1 = 0"
    "cc_bytes_read c1 = of_nat (length (got @ bs))" "cc_bytes_to_read c1 = of_nat (?n - length bs)"
    using sb r st le by (simp_all add: c1_def reading_def)
  note run = content_run [OF r st sb(1) cb rv, unfolded Let_def, folded rest'_def, folded c1_def]
  show ?thesis
  proof (cases "length bs = ?n")
    case True
    let ?all = "got @ bs"
    have err: "err = NL_IO_SUCCESS" using out True by (auto simp: recv_outcome_def)
    have fd: "frame_done ?all" using True ge by (simp add: frame_done_def frame_len_append)
    have lg: "length ?all \<le> 1024" using tot' by simp
    have "length ?all = unat (ucast (cc_bytes_read c1) :: u16)"
      using lg unfolding c1(3)
      by (simp add: unsigned_ucast_eq unat_size_t take_bit_nat_eq_self del: length_append of_nat_add)
    note resp = create_response_reply [OF this, of outs LE rb rest' sb "get_first16 LE 0"]
    have wr: "write_at (Own rb (map Val ?all @ rest')) 0 (replicate 1024 0) =
        Inr (Own rb (map Val (replicate 1024 0)))"
      using tot' by simp
    define c2 where "c2 = c1\<lparr>cc_send_buf := Val (Own sb (map Val (reply_to ?all) @ drop 11 outs)),
      cc_bytes_to_send := 11, cc_bytes_to_read := 0, cc_bytes_read := 0, cc_state := WRITE_RESPONSE,
      cc_recv_buf := Val (Own rb (map Val (replicate 1024 0)))\<rparr>"
    have "read_content LE es c = Inr (0, c2, es')"
      unfolding run err wr using resp sb True
      by (simp add: c1 c2_def del: map_append write_at_Own)
    moreover have "replying c2 (reply_to ?all)"
      unfolding c2_def c1_def by (rule reply_ready [OF r st sb tot'])
    ultimately show ?thesis
      using out st fd by (auto simp: in_outcome_def recv_outcome_def)
  next
    case False
    then have rd: "reading c1 (got @ bs)"
      unfolding c1_def using r st le tot' by (intro reading_content_more) auto
    have nf: "\<not> frame_done (got @ bs)" using le False ge by (simp add: frame_done_def frame_len_append)
    have "cc_state c1 = cc_state c" by (simp add: c1_def)
    from short_read [OF out False rd nf this] show ?thesis
      unfolding run by auto
  qed
qed

lemma handle_in_step:
  assumes "reading c got" and "cc_state c = READ_CONTENT \<Longrightarrow> frame_len got \<le> 1024"
  shows "\<exists>res c' bs es'. nl_handle_sock_data_in LE es (Some c) = Inr (res, Some c', es') \<and>
    in_outcome es c got res c' bs es'"
proof (cases "cc_state c")
  case READ_HEADER
  then show ?thesis
    using read_header_step [OF assms(1), of es] by (auto simp: nl_handle_sock_data_in_def)
next
  case READ_CONTENT
  then show ?thesis
    using read_content_step [OF assms(1) _ assms(2), of es] by (auto simp: nl_handle_sock_data_in_def)
qed (use assms(1) in \<open>simp_all add: reading_def\<close>)

subsection \<open>Sending\<close>

lemma load_bytes_written:
  assumes "i + k \<le> length outs"
  shows "load_bytes (Own b (map Val outs @ rest)) i k = Inr (take k (drop i outs))"
  using assms
proof (induction k arbitrary: i)
  case (Suc k)
  then have lt: "i < length outs" by simp
  show ?case
    using Suc lt load_written [OF lt, of b rest]
    by (simp add: Cons_nth_drop_Suc [symmetric] del: load_Own)
qed simp

text \<open>
  What a script lets through: sending goes on over room and \<open>EINTR\<close> until \<open>EAGAIN\<close>, another
  error or the end of the script. \<open>granted\<close> is the room offered until then, \<open>broken\<close> says that
  an error stopped it, and \<open>unread_events\<close> is the script once \<open>n\<close> bytes are out or it stopped.
\<close>

fun goes_on :: "send_event \<Rightarrow> bool" where
  "goes_on (Room k) = True"
| "goes_on (Send_Err e) = (e = EINTR)"

fun room_of :: "send_event \<Rightarrow> nat" where
  "room_of (Room k) = k"
| "room_of (Send_Err e) = 0"

definition granted :: "send_event list \<Rightarrow> nat" where
  "granted es = sum_list (map room_of (takeWhile goes_on es))"

definition broken :: "send_event list \<Rightarrow> bool" where
  "broken es \<longleftrightarrow> take 1 (dropWhile goes_on es) = [Send_Err EOTHER]"

fun unread_events :: "nat \<Rightarrow> send_event list \<Rightarrow> send_event list" where
  "unread_events n [] = []"
| "unread_events n (e # es) =
     (if n = 0 then e # es else if goes_on e then unread_events (n - room_of e) es else es)"

lemma granted_simps [simp]:
  "granted [] = 0" "granted (Room k # es) = k + granted es"
  "granted (Send_Err e # es) = (if e = EINTR then granted es else 0)"
  by (simp_all add: granted_def)

lemma broken_simps [simp]:
  "\<not> broken []" "broken (Room k # es) = broken es"
  "broken (Send_Err e # es) = (if e = EINTR then broken es else e = EOTHER)"
  by (simp_all add: broken_def)

lemma unread_events_0 [simp]: "unread_events 0 es = es"
  by (cases es) simp_all

text \<open>The status \<open>nl_sendall\<close> reports for \<open>n\<close> bytes.\<close>

definition send_status :: "nat \<Rightarrow> send_event list \<Rightarrow> nl_internal_err_t" where
  "send_status n es =
     (if n \<le> granted es then NL_IO_SUCCESS else if broken es then NL_SEND_ERR else NL_IO_EWOULDBLOCK)"

lemma send_loop_ok:
  assumes "n \<le> length outs"
  shows "send_loop es (Own b (map Val outs @ rest)) (length outs) n wire =
    Inr (send_status (length outs - n) es, n + min (granted es) (length outs - n),
      wire @ take (granted es) (drop n outs), unread_events (length outs - n) es)"
  using assms
proof (induction es arbitrary: n wire)
  case Nil
  then show ?case by (subst send_loop.simps) (simp add: send_status_def)
next
  case (Cons e es)
  show ?case
  proof (cases "n < length outs")
    case False
    with Cons.prems show ?thesis by (subst send_loop.simps) (simp add: send_status_def)
  next
    case lt: True
    show ?thesis
    proof (cases e)
      case (Room j)
      let ?k = "min j (length outs - n)"
      have k: "n + ?k \<le> length outs" using lt by simp
      have "take ?k (drop n outs) @ take (granted es) (drop (n + ?k) outs) =
          take (j + granted es) (drop n outs)"
        by (cases "j \<le> length outs - n") (simp_all add: take_add add.commute [of n j])
      with Cons.IH [OF k] load_bytes_written [OF k, of b rest] Room lt show ?thesis
        by (subst send_loop.simps) (auto simp: send_status_def min_def)
    next
      case (Send_Err x)
      with Cons.IH [OF Cons.prems] lt show ?thesis
        by (subst send_loop.simps) (cases x; simp add: send_status_def)
    qed
  qed
qed

text \<open>A reply of which some bytes have been reported as sent.\<close>

definition half_sent :: "conn_ctx \<Rightarrow> byte list \<Rightarrow> nat \<Rightarrow> bool" where
  "half_sent c outs k \<longleftrightarrow>
     cc_state c = WRITE_RESPONSE \<and> has_bufs c [] outs \<and> k < length outs \<and>
     cc_bytes_to_send c = of_nat (length outs - k) \<and> cc_bytes_sent c = of_nat k \<and>
     cc_bytes_read c = 0 \<and> cc_bytes_to_read c = 0"

text \<open>
  From the state the code keeps, \<open>j\<close> bytes reported as sent, it sends from the front again, as
  far as the socket lets it.
\<close>

lemma handle_out_from:
  assumes st: "cc_state c = WRITE_RESPONSE" and bufs: "has_bufs c [] outs" and j: "j \<le> length outs"
    and n: "cc_bytes_to_send c = of_nat (length outs - j)" and rd: "cc_bytes_read c = 0"
  shows "\<exists>c'. nl_handle_sock_data_out es (Some c) wire =
      Inr (if granted es < length outs - j \<and> broken es then -1 else 0, Some c',
        wire @ take (min (granted es) (length outs - j)) outs, unread_events (length outs - j) es) \<and>
    (if length outs - j \<le> granted es then cc_state c' = READ_HEADER \<and> reading c' []
     else c' = c\<lparr>cc_bytes_to_send := of_nat (length outs - j - granted es),
       cc_bytes_sent := cc_bytes_sent c + of_nat (granted es)\<rparr>)"
proof -
  obtain sb rest where sb: "cc_send_buf c = Val (Own sb (map Val outs @ rest))" "length outs + length rest = 1024"
    using bufs by (auto simp: has_bufs_def)
  let ?n = "length outs - j" and ?g = "granted es"
  have len: "unat (cc_bytes_to_send c) = ?n" using n sb(2) by (simp add: unat_size_t del: of_nat_diff)
  have split: "map Val outs @ rest = map Val (take ?n outs) @ (map Val (drop ?n outs) @ rest)"
    by (simp flip: map_append append_assoc)
  have run: "nl_sendall es (Own sb (map Val outs @ rest)) ?n wire =
      Inr (send_status ?n es, min ?g ?n, wire @ take (min ?g ?n) outs, unread_events ?n es)"
    using send_loop_ok [of 0 "take ?n outs" es sb "map Val (drop ?n outs) @ rest" wire]
    unfolding nl_sendall_def split by simp
  have left: "cc_bytes_to_send c - of_nat (min ?g ?n) = of_nat (?n - min ?g ?n)"
    unfolding n by (rule of_nat_diff [symmetric]) simp
  show ?thesis
  proof (cases "?n \<le> ?g")
    case True
    define c' where "c' = c\<lparr>cc_bytes_to_send := 0, cc_bytes_sent := 0, cc_state := READ_HEADER,
      cc_bytes_to_read := 3, cc_send_buf := Val (Own sb (map Val (replicate 1024 0)))\<rparr>"
    have "reading c' []"
      using bufs rd by (auto simp: c'_def reading_def has_bufs_def)
    moreover have "nl_handle_sock_data_out es (Some c) wire =
        Inr (0, Some c', wire @ take (min ?g ?n) outs, unread_events ?n es)"
      using run sb left len True
      by (simp add: nl_handle_sock_data_out_def send_status_def c'_def Let_def del: write_at_Own of_nat_diff)
        (simp add: c'_def)
    moreover have "cc_state c' = READ_HEADER" by (simp add: c'_def)
    ultimately show ?thesis using True by auto
  next
    case False
    then show ?thesis
      using run sb left len
      by (auto simp: nl_handle_sock_data_out_def Let_def send_status_def simp del: of_nat_diff)
  qed
qed

lemma reply_not_periodic:
  assumes "0 < k" and "k < 11"
  shows "take k (reply_to req) @ take (11 - k) (reply_to req) \<noteq> reply_to req"
proof -
  have "k \<in> {1, 2, 3, 4, 5, 6, 7, 8, 9, 10}" using assms unfolding insert_iff empty_iff by presburger
  then show ?thesis
    by (elim insertE emptyE)
      (simp_all add: reply_to_def error_frame_def pong_frame_def pong_chars_def)
qed

subsection \<open>Properties\<close>

text \<open>A fresh connection, as \<open>connmgr_create_new_conn\<close> makes it.\<close>

definition demo_conn :: conn_ctx where
  "demo_conn = \<lparr>cc_type = INBOUND_CONN, cc_mutex = Val (), cc_ref_count = 0, cc_fd = 7,
     cc_recv_buf = Val (Own 1 (replicate 1024 Indet)), cc_bytes_read = 0, cc_bytes_to_read = 3,
     cc_send_buf = Val (Own 2 (replicate 1024 Indet)), cc_bytes_sent = 0, cc_bytes_to_send = 0,
     cc_state = READ_HEADER\<rparr>"

lemma demo_conn_reading: "reading demo_conn []"
  by (simp add: reading_def has_bufs_def demo_conn_def)



text \<open>
  C25: one call of \<open>nl_handle_sock_data_out\<close> on a connection whose reply is ready, for every
  behaviour of the socket: it puts on the wire as much of the reply, from its front, as the
  socket takes before it would block or fails (a call that is interrupted is repeated), and uses
  up no more of the socket than that; it returns -1 exactly when a failure other than \<open>EINTR\<close>
  and \<open>EAGAIN\<close> comes before the reply is out, and else 0. When all of the reply is out the
  connection waits for the next header with clean counters; else it keeps the reply and counts
  what is sent and what is left.
\<close>

theorem sock_data_out_correct:
  assumes "replying c outs"
  shows "\<exists>c'. nl_handle_sock_data_out es (Some c) wire =
      Inr (if granted es < length outs \<and> broken es then -1 else 0, Some c',
        wire @ take (granted es) outs, unread_events (length outs) es) \<and>
    (if length outs \<le> granted es then cc_state c' = READ_HEADER \<and> reading c' []
     else half_sent c' outs (granted es))"
proof -
  have c: "cc_state c = WRITE_RESPONSE" "has_bufs c [] outs" "cc_bytes_to_send c = of_nat (length outs - 0)"
    "cc_bytes_read c = 0"
    using assms by (simp_all add: replying_def)
  have "take (min (granted es) (length outs)) outs = take (granted es) outs"
    by (simp add: min_def)
  with handle_out_from [OF c(1,2) _ c(3,4), of es wire] assms show ?thesis
    by (auto simp: half_sent_def replying_def has_bufs_def simp del: of_nat_diff split: if_splits)
qed

definition demo_reply :: conn_ctx where
  "demo_reply = demo_conn\<lparr>cc_state := WRITE_RESPONSE, cc_bytes_to_read := 0, cc_bytes_to_send := 11,
     cc_send_buf := Val (Own 2 (map Val (pong_frame 5 1) @ replicate 1013 Indet))\<rparr>"

lemma demo_reply_replying: "replying demo_reply (pong_frame 5 1)"
  by (simp add: replying_def has_bufs_def demo_reply_def demo_conn_def)

text \<open>Four bytes, an interruption, two bytes, then a full socket: 0, with five bytes left.\<close>

theorem sock_data_out_correct_witness:
  "\<exists>c'. nl_handle_sock_data_out [Room 4, Send_Err EINTR, Room 2, Send_Err EAGAIN, Room 20] (Some demo_reply) [] =
      Inr (0, Some c', take 6 (pong_frame 5 1), [Room 20]) \<and>
    half_sent c' (pong_frame 5 1) 6 \<and> cc_bytes_to_send c' = 5"
  using sock_data_out_correct [OF demo_reply_replying,
      of "[Room 4, Send_Err EINTR, Room 2, Send_Err EAGAIN, Room 20]" "[]"]
  by (auto simp: half_sent_def)

text \<open>
  C34: a reply that does not go out in one call is corrupted: after the kernel took its first k
  bytes and reported \<open>EAGAIN\<close>, the next call sends from the front of the buffer again, takes the
  reply for complete once as many bytes as were missing are out, and what the peer has then read
  is never the reply.
\<close>

theorem partial_send_corrupts_reply:
  assumes "replying c (reply_to req)" and "0 < k" and "k < 11"
  shows "\<exists>c1 c2. nl_handle_sock_data_out [Room k] (Some c) wire =
      Inr (0, Some c1, wire @ take k (reply_to req), []) \<and>
    nl_handle_sock_data_out [Room 11] (Some c1) (wire @ take k (reply_to req)) =
      Inr (0, Some c2, wire @ take k (reply_to req) @ take (11 - k) (reply_to req), []) \<and>
    reading c2 [] \<and> take k (reply_to req) @ take (11 - k) (reply_to req) \<noteq> reply_to req"
proof -
  let ?r = "reply_to req"
  have b: "cc_state c = WRITE_RESPONSE" "has_bufs c [] ?r" "cc_bytes_to_send c = of_nat (length ?r - 0)"
    "cc_bytes_read c = 0"
    using assms(1) by (simp_all add: replying_def)
  obtain c1 where 1: "nl_handle_sock_data_out [Room k] (Some c) wire = Inr (0, Some c1, wire @ take k ?r, [])"
    and c1: "c1 = c\<lparr>cc_bytes_to_send := of_nat (11 - k), cc_bytes_sent := cc_bytes_sent c + of_nat k\<rparr>"
    using handle_out_from [OF b(1,2) _ b(3,4), of "[Room k]" wire] assms(2,3)
    by (auto simp: length_reply_to min_def simp del: of_nat_diff)
  have b1: "cc_state c1 = WRITE_RESPONSE" "has_bufs c1 [] ?r" "cc_bytes_to_send c1 = of_nat (length ?r - k)"
    "cc_bytes_read c1 = 0"
    using b by (simp_all add: c1 has_bufs_def length_reply_to del: of_nat_diff)
  obtain c2 where 2: "nl_handle_sock_data_out [Room 11] (Some c1) (wire @ take k ?r) =
      Inr (0, Some c2, (wire @ take k ?r) @ take (11 - k) ?r, [])" "reading c2 []"
    using handle_out_from [OF b1(1,2) _ b1(3,4), of "[Room 11]" "wire @ take k ?r"] assms(2,3)
    by (auto simp: length_reply_to min_absorb2 simp del: of_nat_diff append_assoc)
  from 1 2 reply_not_periodic [OF assms(2,3)] show ?thesis by auto
qed

theorem partial_send_corrupts_reply_witness:
  "\<exists>c1 c2. nl_handle_sock_data_out [Room 4] (Some (demo_reply\<lparr>cc_send_buf := Val (Own 2 (map Val (reply_to []) @ replicate 1013 Indet))\<rparr>)) [] =
      Inr (0, Some c1, [] @ take 4 (reply_to []), []) \<and>
    nl_handle_sock_data_out [Room 11] (Some c1) ([] @ take 4 (reply_to [])) =
      Inr (0, Some c2, [] @ take 4 (reply_to []) @ take (11 - 4) (reply_to []), []) \<and>
    reading c2 [] \<and> take 4 (reply_to []) @ take (11 - 4) (reply_to []) \<noteq> reply_to []"
  by (rule partial_send_corrupts_reply)
    (simp_all add: replying_def has_bufs_def demo_reply_def demo_conn_def length_reply_to)

lemma recv_loop_done: "recv_loop es p off n n = Inr (NL_IO_SUCCESS, p, n, es)"
  by (subst recv_loop.simps) simp

lemma recv_header:
  assumes "length rest = 1024"
  shows "recv_loop [Data ([t, h, l] @ content)] (Own rb rest) 0 3 0 =
    Inr (NL_IO_SUCCESS, Own rb (map Val [t, h, l] @ drop 3 rest), 3, if content = [] then [] else [Data content])"
  using assms
  by (simp add: recv_loop.simps [of "[Data (t # h # l # content)]"] recv_loop_done numeral_3_eq_3)

text \<open>
  C35: the length a client announces is not checked against the receive buffer. From a fresh
  connection, on a little-endian host, a header that announces more than 1021 bytes is accepted, and once that much
  content arrives the next call writes past the 1024 bytes of the buffer.
\<close>

theorem announced_length_overflows_buffer:
  assumes "reading c []" and "cc_state c = READ_HEADER"
    and "1021 < unat (join16 h l)" and "1021 < length bs"
  shows "\<exists>c1. nl_handle_sock_data_in LE [Data [t, h, l]] (Some c) = Inr (0, Some c1, []) \<and>
    nl_handle_sock_data_in LE (Data bs # es) (Some c1) = Inl Out_Of_Bounds"
proof -
  obtain rb rest where rb: "cc_recv_buf c = Val (Own rb rest)" "length rest = 1024"
    using assms(1) by (auto simp: reading_def has_bufs_def)
  define c1 where "c1 = c\<lparr>cc_recv_buf := Val (Own rb (map Val [t, h, l] @ drop 3 rest)),
    cc_bytes_read := 3, cc_bytes_to_read := ucast (join16 h l), cc_state := READ_CONTENT\<rparr>"
  have c: "cc_bytes_read c = 0" "cc_bytes_to_read c = 3" using assms(1,2) by (simp_all add: reading_def)
  have 1: "nl_handle_sock_data_in LE [Data [t, h, l]] (Some c) = Inr (0, Some c1, [])"
    using rb c assms(2) recv_header [OF rb(2), of t h l "[]" rb]
    by (simp add: nl_handle_sock_data_in_def read_header_def nl_recvall_def Let_def c1_def
        length_from_header_LE)
  let ?n = "unat (join16 h l)"
  have "\<exists>bs' es'. sock_recv ?n (Data bs # es) = (Inr bs', es') \<and> bs' \<noteq> [] \<and> 1021 < length bs'"
    using assms(3,4) by auto
  then have "recv_loop (Data bs # es) (Own rb (map Val [t, h, l] @ drop 3 rest)) 3 ?n 0 = Inl Out_Of_Bounds"
    using rb(2) assms(3) by (subst recv_loop.simps) auto
  then have "nl_handle_sock_data_in LE (Data bs # es) (Some c1) = Inl Out_Of_Bounds"
    by (simp add: nl_handle_sock_data_in_def read_content_def nl_recvall_def c1_def)
  with 1 show ?thesis by blast
qed

theorem announced_length_overflows_buffer_witness:
  "\<exists>c1. nl_handle_sock_data_in LE [Data [0, 4, 0]] (Some demo_conn) = Inr (0, Some c1, []) \<and>
    nl_handle_sock_data_in LE [Data (replicate 1024 0)] (Some c1) = Inl Out_Of_Bounds"
  by (rule announced_length_overflows_buffer [OF demo_conn_reading])
    (simp_all add: demo_conn_def unat_join16)

text \<open>
  C36: on a big-endian host every header announces nothing: \<open>read_header\<close> copies the two bytes to
  the high end of the \<open>size_t\<close>, and \<open>ntohs\<close> keeps the low 16 bits, which are zero. The content
  is then not read as content, and the next call answers the three header bytes with an error
  frame (whose length it also stores at the wrong end of \<open>bytes_to_send\<close>).
\<close>

theorem big_endian_length_is_zero:
  assumes "reading c []" and "cc_state c = READ_HEADER"
  shows "\<exists>c1 c2. nl_handle_sock_data_in BE [Data ([t, h, l] @ content)] (Some c) =
      Inr (0, Some c1, if content = [] then [] else [Data content]) \<and>
    cc_state c1 = READ_CONTENT \<and> cc_bytes_to_read c1 = 0 \<and>
    nl_handle_sock_data_in BE es (Some c1) = Inr (0, Some c2, es) \<and> cc_state c2 = WRITE_RESPONSE \<and>
    has_bufs c2 [] (error_frame 0) \<and> cc_bytes_to_send c2 = push_bit 48 11"
proof -
  obtain rb rest sb outs where rb: "cc_recv_buf c = Val (Own rb rest)" "length rest = 1024"
    and sb: "cc_send_buf c = Val (Own sb outs)" "length outs = 1024"
    using assms(1) by (auto simp: reading_def has_bufs_def)
  define rest1 where "rest1 = drop 3 rest"
  have l1: "length rest1 = 1021" using rb(2) by (simp add: rest1_def)
  define c1 where "c1 = c\<lparr>cc_recv_buf := Val (Own rb (map Val [t, h, l] @ rest1)),
    cc_bytes_read := 3, cc_bytes_to_read := 0, cc_state := READ_CONTENT\<rparr>"
  have c: "cc_bytes_read c = 0" "cc_bytes_to_read c = 3" "cc_bytes_to_send c = 0"
    using assms(1,2) by (simp_all add: reading_def)
  have 1: "nl_handle_sock_data_in BE [Data ([t, h, l] @ content)] (Some c) =
      Inr (0, Some c1, if content = [] then [] else [Data content])"
    using rb c assms(2) recv_header [OF rb(2), of t h l content rb]
    by (simp add: nl_handle_sock_data_in_def read_header_def nl_recvall_def Let_def c1_def rest1_def
        length_from_header_BE)
  define c2 where "c2 = c1\<lparr>cc_send_buf := Val (Own sb (map Val (reply_to [t, h, l]) @ drop 11 outs)),
      cc_bytes_to_send := push_bit 48 11, cc_bytes_to_read := 0, cc_bytes_read := 0,
      cc_state := WRITE_RESPONSE, cc_recv_buf := Val (Own rb (map Val (replicate 1024 0)))\<rparr>"
  have resp: "proto_pingpong_create_response BE (Own rb (map Val [t, h, l] @ rest1)) (Own sb outs) 3
      (Some (get_first16 BE 0)) = Inr (0, Own sb (map Val (reply_to [t, h, l]) @ drop 11 outs), Some 11)"
    by (rule create_response_reply) (simp_all add: sb)
  have "write_at (Own rb (map Val [t, h, l] @ rest1)) 0 (replicate 1024 0) =
      Inr (Own rb (map Val (replicate 1024 0)))"
    using l1 by simp
  then have 2: "nl_handle_sock_data_in BE es (Some c1) = Inr (0, Some c2, es)"
    using resp sb c
    by (simp add: nl_handle_sock_data_in_def read_content_def nl_recvall_def recv_loop_done
        Let_def c1_def c2_def set_first16_def del: write_at_Own list.map append_Cons)
  have "has_bufs c2 [] (error_frame 0)"
    using sb by (auto simp: has_bufs_def c2_def reply_to_def)
  with 1 2 show ?thesis by (intro exI [of _ c1] exI [of _ c2]) (simp add: c1_def c2_def)
qed

theorem big_endian_length_is_zero_witness:
  "\<exists>c1 c2. nl_handle_sock_data_in BE [Data ([0, 0, 8] @ [1])] (Some demo_conn) =
      Inr (0, Some c1, if [1 :: byte] = [] then [] else [Data [1]]) \<and>
    cc_state c1 = READ_CONTENT \<and> cc_bytes_to_read c1 = 0 \<and>
    nl_handle_sock_data_in BE [] (Some c1) = Inr (0, Some c2, []) \<and> cc_state c2 = WRITE_RESPONSE \<and>
    has_bufs c2 [] (error_frame 0) \<and> cc_bytes_to_send c2 = push_bit 48 11"
  by (rule big_endian_length_is_zero [OF demo_conn_reading]) (simp add: demo_conn_def)

end
