(* ===== verification/Listener.thy ===== *)
theory Listener
  imports Conn_Grow Net_IO "HOL-Library.Sublist"
begin

text \<open>
  The listening half of \<open>src/libs/net_io/netio.c\<close>: \<open>nl_start_listener\<close>, \<open>nl_accept\<close> and
  \<open>nl_set_nonblocking\<close>. What the kernel answers is an argument: the results of the calls on each
  candidate address, and a script of the connections that wait to be accepted. Descriptors that
  the code closes are collected in order.
\<close>

definition O_NONBLOCK :: int where "O_NONBLOCK = 2048"

definition CONNECTION_BACKLOG :: int where "CONNECTION_BACKLOG = 100"

text \<open>\<open>getfl\<close> is what \<open>fcntl(fd, F_GETFL)\<close> returns, \<open>setfl\<close> what \<open>F_SETFL\<close> makes of new flags.\<close>

definition nl_set_nonblocking :: "int \<Rightarrow> (int \<Rightarrow> int) \<Rightarrow> int" where
  [op_defs]: "nl_set_nonblocking getfl setfl = (if getfl \<noteq> -1 then setfl (getfl OR O_NONBLOCK) else -1)"

subsection \<open>The listening socket\<close>

record addr_try =
  try_socket :: int
  try_setsockopt :: int
  try_bind :: int

record listen_env =
  le_getaddrinfo :: int
  le_addrs :: "addr_try list"
  le_getfl :: int
  le_setfl :: "int \<Rightarrow> int"
  le_listen :: "int \<Rightarrow> int"

text \<open>
  The loop over the addresses: the descriptor (-1 when the list ends), the sockets opened and
  those closed. A failing \<open>setsockopt\<close> is only logged.
\<close>

fun bind_loop :: "addr_try list \<Rightarrow> int list \<Rightarrow> int list \<Rightarrow> int \<times> int list \<times> int list" where
  "bind_loop [] opened closed = (-1, opened, closed)"
| "bind_loop (p_check # ps) opened closed =
     (let fd = try_socket p_check in
      if fd = -1 then bind_loop ps opened closed
      else if try_bind p_check = 0 then (fd, opened @ [fd], closed)
      else bind_loop ps (opened @ [fd]) (closed @ [fd]))"

definition nl_start_listener :: "string option \<Rightarrow> listen_env \<Rightarrow> int \<times> int list \<times> int list" where
  [op_defs]: "nl_start_listener p_service le =
     (if p_service = None then (-1, [], [])
      else if le_getaddrinfo le \<noteq> 0 then (-1, [], [])
      else
        (let (fd, opened, closed) = bind_loop (le_addrs le) [] [] in
         if fd = -1 then (fd, opened, closed)
         else if nl_set_nonblocking (le_getfl le) (le_setfl le) = -1 then (-1, opened, closed @ [fd])
         else if le_listen le CONNECTION_BACKLOG = -1 then (-1, opened, closed @ [fd])
         else (fd, opened, closed)))"

subsection \<open>Accepting\<close>

text \<open>
  One waiting client: the descriptor of its connection and what the calls for it return; an
  exhausted script is \<open>EAGAIN\<close>. \<open>stale\<close> is the value \<open>errno\<close> happens to have when the loop is
  left at the limit without a call that sets it.
\<close>

record client =
  cl_fd :: int
  cl_getfl :: int
  cl_setfl :: "int \<Rightarrow> int"
  cl_raw :: conn_ctx
  cl_mutex_res :: int

datatype accept_event = Client client | Accept_Err errno

definition accept_result :: "errno \<Rightarrow> int" where
  [op_defs]: "accept_result en = (if en = EAGAIN then 0 else -1)"

fun accept_loop ::
    "errno \<Rightarrow> accept_event list \<Rightarrow> cm_heap \<Rightarrow> conn_mgr_t \<Rightarrow> cfault + (int \<times> conn_mgr_t \<times> cm_heap)" where
  "accept_loop stale es h mgr =
     (case deref (mgr_new_conns mgr) of
        None \<Rightarrow> Inl Null_Deref
      | Some q \<Rightarrow>
          if int MAX_CONNECTIONS - uint (mgr_num_active mgr) - uint (eq_num_items q) + 1 = 0
          then Inr (accept_result stale, mgr, h)
          else
            (case es of
               [] \<Rightarrow> Inr (accept_result EAGAIN, mgr, h)
             | Accept_Err en # _ \<Rightarrow> Inr (accept_result en, mgr, h)
             | Client cl # es' \<Rightarrow>
                 if nl_set_nonblocking (cl_getfl cl) (cl_setfl cl) = -1 then Inr (-1, mgr, h)
                 else
                   and_then
                     (connmgr_create_new_conn h (cl_raw cl) (cl_mutex_res cl) (cl_fd cl) (Some mgr) INBOUND_CONN)
                     (\<lambda>(err, p_mgr, h).
                       case p_mgr of
                         None \<Rightarrow> Inl Null_Deref
                       | Some mgr \<Rightarrow>
                           if err \<noteq> 0 then Inr (-1, mgr, h\<lparr>ch_closed := ch_closed h @ [cl_fd cl]\<rparr>)
                           else accept_loop stale es' h mgr)))"

declare accept_loop.simps [simp del]

definition nl_accept ::
    "errno \<Rightarrow> accept_event list \<Rightarrow> cm_heap \<Rightarrow> conn_mgr_t option \<Rightarrow>
     cfault + (int \<times> conn_mgr_t \<times> cm_heap)" where
  [op_defs]: "nl_accept stale es h p_mgr =
     (case p_mgr of None \<Rightarrow> Inl Assert_Fail | Some mgr \<Rightarrow> accept_loop stale es h mgr)"

subsection \<open>What the loops do\<close>

lemma bind_loop_sockets:
  assumes "bind_loop ps opened closed = (fd, opened', closed')" and "set closed = set opened"
    and "distinct (opened @ filter (\<lambda>x. x \<noteq> -1) (map try_socket ps))" and "-1 \<notin> set opened"
  shows "set opened' = set closed' \<union> (if fd = -1 then {} else {fd}) \<and> fd \<notin> set closed' \<and> -1 \<notin> set opened'"
  using assms
proof (induction ps opened closed arbitrary: fd opened' closed' rule: bind_loop.induct)
  case (2 p ps opened closed)
  then show ?case by (auto simp: Let_def split: if_splits)
qed auto

lemma same_arrays_refl: "\<exists>p. mgr = (mgr :: conn_mgr_t)\<lparr>mgr_new_conns := p\<rparr>"
  by (rule exI [of _ "mgr_new_conns mgr"]) simp

lemma create_keeps_arrays:
  assumes "connmgr_create_new_conn h raw mr fd (Some mgr) t = Inr (res, Some mgr', h')"
  shows "\<exists>p. mgr' = mgr\<lparr>mgr_new_conns := p\<rparr>"
  using assms
  by (auto simp: connmgr_create_new_conn_def create_enqueue_def and_then_eq_Inr Let_def same_arrays_refl
      split: if_splits prod.splits owned.splits)

text \<open>The descriptors that wait, and the contexts made for some of them.\<close>

definition client_fds :: "accept_event list \<Rightarrow> int list" where
  "client_fds es = concat (map (\<lambda>e. case e of Client cl \<Rightarrow> [cl_fd cl] | Accept_Err _ \<Rightarrow> []) es)"

lemma client_fds_simps [simp]:
  "client_fds [] = []" "client_fds (Client cl # es) = cl_fd cl # client_fds es"
  "client_fds (Accept_Err en # es) = client_fds es"
  by (simp_all add: client_fds_def)

definition accepted :: "cm_heap \<Rightarrow> cm_heap \<Rightarrow> nat list \<Rightarrow> accept_event list \<Rightarrow> bool" where
  "accepted h h' as es \<longleftrightarrow>
     set as \<inter> dom (ch_conns h) = {} \<and> (\<forall>a. a \<notin> set as \<longrightarrow> ch_conns h' a = ch_conns h a) \<and>
     (\<forall>a \<in> set as. \<exists>c. ch_conns h' a = Some c \<and> fresh_conn (cc_fd c) c) \<and>
     subseq (map (fd_of h') as) (client_fds es)"

lemma accepted_none [simp]: "ch_conns h' = ch_conns h \<Longrightarrow> accepted h h' [] es"
  by (simp add: accepted_def)

lemma accepted_more:
  assumes h1: "ch_conns h1 = (ch_conns h)(a \<mapsto> c)" "ch_conns h a = None" "fresh_conn (cl_fd cl) c"
    and more: "accepted h1 h' as es"
  shows "accepted h h' (a # as) (Client cl # es)"
proof -
  have a: "a \<notin> set as" using more h1 by (auto simp: accepted_def)
  then have "ch_conns h' a = Some c" using more h1 by (simp add: accepted_def)
  moreover have "cc_fd c = cl_fd cl" using h1(3) by (simp add: fresh_conn_def)
  ultimately show ?thesis
    using more h1 a by (auto simp: accepted_def fd_of_def)
qed

lemma accepted_skip:
  "ch_conns h1 = ch_conns h \<Longrightarrow> accepted h1 h' as es \<Longrightarrow> accepted h h' as (Client cl # es)"
  by (auto simp: accepted_def)

text \<open>
  Accepting never leaves defined behaviour, and the manager stays complete on every path: the
  new contexts are behind the old ones in the queue, and there are never more than 1025.
\<close>

definition accept_outcome ::
    "cm_heap \<Rightarrow> conn_mgr_t \<Rightarrow> nat set \<Rightarrow> ptr list \<Rightarrow> nat list \<Rightarrow> accept_event list \<Rightarrow>
     cfault + (int \<times> conn_mgr_t \<times> cm_heap) \<Rightarrow> bool" where
  "accept_outcome h mgr F xs ns es r \<longleftrightarrow>
     (\<exists>res mgr' h' as. r = Inr (res, mgr', h') \<and> cm_rep h' mgr' F xs (ns @ as) \<and> accepted h h' as es \<and>
        (\<exists>p. mgr' = mgr\<lparr>mgr_new_conns := p\<rparr>) \<and>
        (length xs + length ns \<le> 1025 \<longrightarrow> length xs + length (ns @ as) \<le> 1025))"

lemma cm_rep_closed [simp]: "cm_rep (h\<lparr>ch_closed := cl\<rparr>) mgr F xs ns = cm_rep h mgr F xs ns"
proof -
  have "polls (h\<lparr>ch_closed := cl\<rparr>) xs pcs = polls h xs pcs" for pcs
    by (intro iffI; erule polls_same) simp_all
  then show ?thesis by (simp add: cm_rep_def cm_shape_def owns_def)
qed

lemma accept_leave:
  assumes "cm_rep h mgr F xs ns"
  shows "accept_outcome h mgr F xs ns es (Inr (res, mgr, h\<lparr>ch_closed := cl\<rparr>))"
  unfolding accept_outcome_def
  using assms
  by (intro exI [of _ res] exI [of _ mgr] exI [of _ "h\<lparr>ch_closed := cl\<rparr>"] exI [of _ "[]"])
    (simp add: same_arrays_refl)

lemma accept_leave_now: "cm_rep h mgr F xs ns \<Longrightarrow> accept_outcome h mgr F xs ns es (Inr (res, mgr, h))"
  using accept_leave [of h mgr F xs ns es res "ch_closed h"] by simp

lemma accept_limit:
  assumes "cm_rep h mgr F xs ns"
  obtains q where "deref (mgr_new_conns mgr) = Some q"
    "int MAX_CONNECTIONS - uint (mgr_num_active mgr) - uint (eq_num_items q) + 1 = 0 \<longleftrightarrow>
      length xs + length ns = 1025"
proof -
  obtain qa qb q where q: "mgr_new_conns mgr = Own qa q" "eq_rep (ch_mem h) q qb (map Addr ns)"
    "length xs = unat (mgr_num_active mgr)"
    using assms by (elim cm_repE)
  then have "uint (eq_num_items q) = int (length ns)" "uint (mgr_num_active mgr) = int (length xs)"
    using eq_rep_len [OF q(2)] q(3) by (metis length_map uint_nat)+
  then have "int MAX_CONNECTIONS - uint (mgr_num_active mgr) - uint (eq_num_items q) + 1 = 0 \<longleftrightarrow>
      length xs + length ns = 1025"
    by simp arith
  with q(1) show thesis by (intro that) simp_all
qed

lemma accept_one_more:
  assumes h1: "ch_conns h1 = (ch_conns h)(a \<mapsto> c)" "ch_conns h a = None" "fresh_conn (cl_fd cl) c"
    and rest: "accept_outcome h1 mgr1 F xs (ns @ [a]) es r"
    and mgr1: "\<exists>p. mgr1 = mgr\<lparr>mgr_new_conns := p\<rparr>" and room: "length xs + length ns \<noteq> 1025"
  shows "accept_outcome h mgr F xs ns (Client cl # es) r"
proof -
  obtain res mgr' h' as where r: "r = Inr (res, mgr', h')" "cm_rep h' mgr' F xs ((ns @ [a]) @ as)"
    "accepted h1 h' as es" "\<exists>p. mgr' = mgr1\<lparr>mgr_new_conns := p\<rparr>"
    "length xs + length (ns @ [a]) \<le> 1025 \<longrightarrow> length xs + length ((ns @ [a]) @ as) \<le> 1025"
    using rest unfolding accept_outcome_def by blast
  obtain p1 p2 where "mgr1 = mgr\<lparr>mgr_new_conns := p1\<rparr>" "mgr' = mgr1\<lparr>mgr_new_conns := p2\<rparr>"
    using mgr1 r(4) by blast
  then have "\<exists>p. mgr' = mgr\<lparr>mgr_new_conns := p\<rparr>" by (intro exI [of _ p2]) simp
  moreover have "cm_rep h' mgr' F xs (ns @ a # as)" using r(2) by simp
  moreover have "length xs + length ns \<le> 1025 \<longrightarrow> length xs + length (ns @ a # as) \<le> 1025"
    using r(5) room by simp
  ultimately show ?thesis
    unfolding accept_outcome_def using r(1) accepted_more [OF h1 r(3)] by blast
qed

lemma accept_none_more:
  assumes "ch_conns h1 = ch_conns h" and "accept_outcome h1 mgr F xs ns es r"
  shows "accept_outcome h mgr F xs ns (Client cl # es) r"
  using assms accepted_skip [OF assms(1)] unfolding accept_outcome_def by blast

lemma accept_loop_ok:
  assumes "cm_rep h mgr F xs ns" and "\<forall>fd \<in> set (client_fds es). 0 < fd"
  shows "accept_outcome h mgr F xs ns es (accept_loop stale es h mgr)"
  using assms
proof (induction es arbitrary: h mgr ns)
  case Nil
  obtain q where q: "deref (mgr_new_conns mgr) = Some q" using Nil.prems(1) by (rule accept_limit)
  then show ?case using accept_leave_now [OF Nil.prems(1)] by (simp add: accept_loop.simps)
next
  case (Cons e es)
  obtain q where q: "deref (mgr_new_conns mgr) = Some q"
    "int MAX_CONNECTIONS - uint (mgr_num_active mgr) - uint (eq_num_items q) + 1 = 0 \<longleftrightarrow>
      length xs + length ns = 1025"
    using Cons.prems(1) by (rule accept_limit)
  note leave = accept_leave_now [OF Cons.prems(1)] and step = accept_loop.simps [of stale "e # es" h mgr, unfolded q(1) option.case q(2) list.case]
  show ?case
  proof (cases "length xs + length ns = 1025")
    case True
    then show ?thesis using leave by (subst step) simp
  next
    case room: False
    show ?thesis
    proof (cases e)
      case (Accept_Err en)
      then show ?thesis using leave by (subst step) (simp add: room)
    next
      case (Client cl)
      have fds: "0 < cl_fd cl" "\<forall>fd \<in> set (client_fds es). 0 < fd" using Cons.prems(2) Client by auto
      show ?thesis
      proof (cases "nl_set_nonblocking (cl_getfl cl) (cl_setfl cl) = -1")
        case True
        then show ?thesis using leave Client by (subst step) (simp add: room)
      next
        case False
        obtain res mgr1 h1 where create: "connmgr_create_new_conn h (cl_raw cl) (cl_mutex_res cl) (cl_fd cl) (Some mgr) INBOUND_CONN =
            Inr (res, Some mgr1, h1)"
          and out: "(\<exists>a c. res = 0 \<and> cm_rep h1 mgr1 F xs (ns @ [a]) \<and> fresh_conn (cl_fd cl) c \<and>
              ch_conns h1 = (ch_conns h)(a \<mapsto> c) \<and> ch_conns h a = None) \<or>
            cm_rep h1 mgr1 F xs ns \<and> mgr1 = mgr \<and> ch_conns h1 = ch_conns h"
          using create_inbound_ok [OF Cons.prems(1) fds(1)] by blast
        have run: "accept_loop stale (e # es) h mgr =
            (if res \<noteq> 0 then Inr (-1, mgr1, h1\<lparr>ch_closed := ch_closed h1 @ [cl_fd cl]\<rparr>)
             else accept_loop stale es h1 mgr1)"
          using create Client False by (subst step) (simp add: room)
        from out show ?thesis
        proof (elim disjE exE conjE)
          fix a c
          assume "res = 0" and rep1: "cm_rep h1 mgr1 F xs (ns @ [a])" and c: "fresh_conn (cl_fd cl) c"
            "ch_conns h1 = (ch_conns h)(a \<mapsto> c)" "ch_conns h a = None"
          then show ?thesis
            using accept_one_more [OF c(2,3,1) Cons.IH [OF rep1 fds(2)] create_keeps_arrays [OF create] room]
              run Client by simp
        next
          assume rep1: "cm_rep h1 mgr1 F xs ns" and same: "mgr1 = mgr" "ch_conns h1 = ch_conns h"
          have "accept_outcome h1 mgr F xs ns es (if res \<noteq> 0
              then Inr (-1, mgr1, h1\<lparr>ch_closed := ch_closed h1 @ [cl_fd cl]\<rparr>) else accept_loop stale es h1 mgr1)"
            using accept_leave [OF rep1] Cons.IH [OF rep1 fds(2)] same by simp
          then show ?thesis using accept_none_more [OF same(2)] run Client by simp
        qed
      qed
    qed
  qed
qed

lemma accept_ok:
  assumes "cm_rep h mgr F xs ns" and "\<forall>fd \<in> set (client_fds es). 0 < fd"
  shows "accept_outcome h mgr F xs ns es (nl_accept stale es h (Some mgr))"
  using accept_loop_ok [OF assms] by (simp add: nl_accept_def)

lemma start_listener_sockets:
  assumes "distinct (filter (\<lambda>x. x \<noteq> -1) (map try_socket (le_addrs le)))"
    and "nl_start_listener p_service le = (fd, opened, closed)"
  shows "set opened = set closed \<union> (if fd = -1 then {} else {fd}) \<and> fd \<notin> set closed"
proof -
  obtain fd0 op0 cl0 where b: "bind_loop (le_addrs le) [] [] = (fd0, op0, cl0)" by (metis surj_pair)
  have inv: "set op0 = set cl0 \<union> (if fd0 = -1 then {} else {fd0})" "fd0 \<notin> set cl0" "-1 \<notin> set op0"
  proof -
    have "distinct ([] @ filter (\<lambda>x. x \<noteq> -1) (map try_socket (le_addrs le)))" using assms(1) by simp
    moreover have "-1 \<notin> set ([] :: int list)" by simp
    ultimately show "set op0 = set cl0 \<union> (if fd0 = -1 then {} else {fd0})" "fd0 \<notin> set cl0" "-1 \<notin> set op0"
      using bind_loop_sockets [OF b refl] by blast+
  qed
  have "(fd, opened, closed) \<in> {(-1, [], []), (fd0, op0, cl0)} \<or> fd0 \<noteq> -1 \<and> (fd, opened, closed) = (-1, op0, cl0 @ [fd0])"
    using assms(2) b unfolding nl_start_listener_def by (simp split: if_splits)
  then show ?thesis
  proof
    assume "(fd, opened, closed) \<in> {(-1, [], []), (fd0, op0, cl0)}"
    then show ?thesis using inv(1,2) by fastforce
  next
    assume "fd0 \<noteq> -1 \<and> (fd, opened, closed) = (-1, op0, cl0 @ [fd0])"
    then show ?thesis using inv(1,3) by simp
  qed
qed

subsection \<open>Properties\<close>

text \<open>
  C21: \<open>nl_accept\<close>, for every sequence of clients and every failure of the calls it makes: it
  stays in defined behaviour, the manager stays complete with the new connections, fresh, behind
  the old ones in the queue and in the order in which they were accepted, no other connection is
  touched, and active and waiting connections together are never more than 1025, one more than
  \<open>MAX_CONNECTIONS\<close>.
\<close>

theorem nl_accept_correct:
  assumes "cm_rep h mgr F xs ns" and "\<forall>fd \<in> set (client_fds es). 0 < fd" and "length xs + length ns \<le> 1025"
  shows "\<exists>res mgr' h' as. nl_accept stale es h (Some mgr) = Inr (res, mgr', h') \<and>
    cm_rep h' mgr' F xs (ns @ as) \<and> accepted h h' as es \<and> length xs + length (ns @ as) \<le> 1025"
  using accept_ok [OF assms(1,2), of stale] assms(3) unfolding accept_outcome_def by blast

definition demo_client :: "int \<Rightarrow> client" where
  "demo_client fd = \<lparr>cl_fd = fd, cl_getfl = 2, cl_setfl = (\<lambda>_. 0), cl_raw = demo_inbound 0 0, cl_mutex_res = 0\<rparr>"

theorem nl_accept_correct_witness:
  "\<exists>res mgr' h' as. nl_accept EAGAIN [Client (demo_client 30), Accept_Err EAGAIN] demo_cm_heap (Some demo_mgr) = Inr (res, mgr', h') \<and>
    cm_rep h' mgr' {} [NULL, Addr 5, NULL] ([8] @ as) \<and> length (as :: nat list) \<le> 1021"
  using nl_accept_correct [OF demo_mgr_rep, of "[Client (demo_client 30), Accept_Err EAGAIN]" EAGAIN]
  by (fastforce simp: demo_client_def)

end
