(* ===== verification/Step_Systems.thy ===== *)
theory Step_Systems
  imports Main
begin

text \<open>
  Systems of interleaved steps: their reachable states, invariants, and refinement of one system
  by another. The thread pool (\<open>Tpool_Steps\<close>), the server (\<open>Server\<close>) and the two together
  (\<open>Server_Pool\<close>) are such systems.
\<close>

inductive reachable :: "('s \<Rightarrow> bool) \<Rightarrow> ('s \<Rightarrow> 's \<Rightarrow> bool) \<Rightarrow> 's \<Rightarrow> bool" for init step where
  start: "init s \<Longrightarrow> reachable init step s"
| step: "reachable init step s \<Longrightarrow> step s s' \<Longrightarrow> reachable init step s'"

lemma reachable_steps: "step\<^sup>*\<^sup>* s s' \<Longrightarrow> reachable init step s \<Longrightarrow> reachable init step s'"
  by (induction rule: rtranclp_induct) (auto intro: reachable.step)

text \<open>An invariant holds at the start and is kept by the steps from reachable states.\<close>

locale step_invariant =
  fixes init :: "'s \<Rightarrow> bool" and step :: "'s \<Rightarrow> 's \<Rightarrow> bool" and inv :: "'s \<Rightarrow> bool"
  assumes init_inv: "init s \<Longrightarrow> inv s"
    and step_inv: "reachable init step s \<Longrightarrow> inv s \<Longrightarrow> step s s' \<Longrightarrow> inv s'"
begin

lemma reachable_inv: "reachable init step s \<Longrightarrow> inv s"
  by (induction rule: reachable.induct) (blast intro: init_inv step_inv)+

lemma steps_inv: "reachable init step s \<Longrightarrow> step\<^sup>*\<^sup>* s s' \<Longrightarrow> inv s'"
  by (blast intro: reachable_inv reachable_steps)

end

text \<open>
  A system refines another when every state it reaches is related to one that the other reaches:
  each step is answered by any number of steps.
\<close>

locale refinement =
  fixes init :: "'c \<Rightarrow> bool" and step :: "'c \<Rightarrow> 'c \<Rightarrow> bool"
    and init' :: "'a \<Rightarrow> bool" and step' :: "'a \<Rightarrow> 'a \<Rightarrow> bool"
    and rel :: "'c \<Rightarrow> 'a \<Rightarrow> bool"
  assumes init_rel: "init s \<Longrightarrow> \<exists>t. init' t \<and> rel s t"
    and step_rel: "reachable init step s \<Longrightarrow> reachable init' step' t \<Longrightarrow> rel s t \<Longrightarrow> step s s' \<Longrightarrow>
      \<exists>t'. step'\<^sup>*\<^sup>* t t' \<and> rel s' t'"
begin

lemma refines: "reachable init step s \<Longrightarrow> \<exists>t. reachable init' step' t \<and> rel s t"
proof (induction rule: reachable.induct)
  case (start s)
  then show ?case
    using init_rel reachable.start [of init' _ step'] by blast
next
  case (step s s')
  then show ?case
    using step_rel reachable_steps by metis
qed

text \<open>What holds of the reachable states of the abstract system is inherited.\<close>

lemma inherit:
  assumes "reachable init step s" and "\<And>t. reachable init' step' t \<Longrightarrow> rel s t \<Longrightarrow> P"
  shows P
  using refines [OF assms(1)] assms(2) by blast

end

text \<open>The usual case: the abstract state is read off the concrete one.\<close>

locale projection =
  fixes init :: "'c \<Rightarrow> bool" and step :: "'c \<Rightarrow> 'c \<Rightarrow> bool"
    and init' :: "'a \<Rightarrow> bool" and step' :: "'a \<Rightarrow> 'a \<Rightarrow> bool"
    and abs :: "'c \<Rightarrow> 'a"
  assumes init_abs: "init s \<Longrightarrow> init' (abs s)"
    and step_abs: "reachable init step s \<Longrightarrow> step s s' \<Longrightarrow> step' (abs s) (abs s') \<or> abs s' = abs s"

sublocale projection \<subseteq> refinement init step init' step' "\<lambda>s t. t = abs s"
  by unfold_locales (use init_abs step_abs in \<open>blast, metis r_into_rtranclp rtranclp.rtrancl_refl\<close>)

context projection begin

lemma projects: "reachable init step s \<Longrightarrow> reachable init' step' (abs s)"
  using refines by blast

end

end
