(* ===== verification/Server.thy ===== *)
theory Server
  imports Listener Coin_Queue Step_Systems
begin

text \<open>
  \<open>src/main.c\<close>: the tasks that the thread pool runs on a connection, the main loop, its way out,
  and the signal thread.

  The main thread is a machine: \<open>main_step\<close> does one piece of \<open>main\<close> at the place \<open>sv_pc\<close>. A
  piece is what lies between two moments at which other threads can matter, so the pieces of an
  iteration can be interleaved with the tasks. A task runs under its connection's mutex and is one
  piece too. The pool is seen through its contract (\<open>coin_tpool_submit\<close> either queues the task or
  does not, and may report an error in both cases): \<open>sv_tasks\<close> are the tasks that are queued or
  running. Results of the calls that can fail are in \<open>step_env\<close>.
\<close>

subsection \<open>Tasks\<close>

definition lock_mutex :: "unit cell \<Rightarrow> cfault + unit" where
  "lock_mutex mx = (case mx of Indet \<Rightarrow> Inl Uninit_Mutex | Val _ \<Rightarrow> Inr ())"

definition put_ctx :: "cm_heap \<Rightarrow> ptr \<Rightarrow> conn_ctx \<Rightarrow> cm_heap" where
  "put_ctx h p c = (case p of NULL \<Rightarrow> h | Addr a \<Rightarrow> h\<lparr>ch_conns := (ch_conns h)(a \<mapsto> c)\<rparr>)"

text \<open>
  What a failing lock or unlock does is only logged, so the results of the two calls do not
  matter to a task. The task returns what is left of its socket's script.
\<close>

definition task_io_read ::
    "endian \<Rightarrow> bool \<Rightarrow> recv_event list \<Rightarrow> ptr \<Rightarrow> cm_heap \<Rightarrow> cfault + (cm_heap \<times> recv_event list)" where
  [op_defs]: "task_io_read e g_should_shutdown es p_arg h =
     (if p_arg = NULL then Inl Assert_Fail
      else
        and_then (ctx_at h p_arg) (\<lambda>c.
        and_then (lock_mutex (cc_mutex c)) (\<lambda>_.
        and_then
          (if (cc_state c = READ_CONTENT \<or> cc_state c = READ_HEADER) \<and> \<not> g_should_shutdown
           then nl_handle_sock_data_in e es (Some c) else Inr (0, Some c, es))
          (\<lambda>(_, p_ctx, es).
            case p_ctx of None \<Rightarrow> Inl Null_Deref
            | Some c \<Rightarrow> Inr (put_ctx h p_arg (c\<lparr>cc_ref_count := cc_ref_count c - 1\<rparr>), es)))))"

definition task_io_send ::
    "bool \<Rightarrow> send_event list \<Rightarrow> byte list \<Rightarrow> ptr \<Rightarrow> cm_heap \<Rightarrow>
     cfault + (cm_heap \<times> byte list \<times> send_event list)" where
  [op_defs]: "task_io_send g_should_shutdown es wire p_arg h =
     (if p_arg = NULL then Inl Assert_Fail
      else
        and_then (ctx_at h p_arg) (\<lambda>c.
        and_then (lock_mutex (cc_mutex c)) (\<lambda>_.
        and_then
          (if cc_state c = WRITE_RESPONSE \<and> \<not> g_should_shutdown
           then nl_handle_sock_data_out es (Some c) wire else Inr (0, Some c, wire, es))
          (\<lambda>(_, p_ctx, wire, es).
            case p_ctx of None \<Rightarrow> Inl Null_Deref
            | Some c \<Rightarrow> Inr (put_ctx h p_arg (c\<lparr>cc_ref_count := cc_ref_count c - 1\<rparr>), wire, es)))))"

datatype io_task = Read_Task | Send_Task

record io_env =
  io_endian :: endian
  io_recv :: "recv_event list"
  io_send :: "send_event list"
  io_wire :: "byte list"

definition run_task :: "io_env \<Rightarrow> bool \<Rightarrow> io_task \<times> ptr \<Rightarrow> cm_heap \<Rightarrow> cfault + cm_heap" where
  "run_task io stop t h =
     (case t of
        (Read_Task, p) \<Rightarrow> and_then (task_io_read (io_endian io) stop (io_recv io) p h) (\<lambda>(h, _). Inr h)
      | (Send_Task, p) \<Rightarrow> and_then (task_io_send stop (io_send io) (io_wire io) p h) (\<lambda>(h, _). Inr h))"

subsection \<open>The state of the server\<close>

datatype main_pc =
    Loop_Test
  | Sweep nat
  | Update
  | Poll
  | Pollin nat
  | Hangup nat ptr
  | Pollout nat ptr
  | Wait_Pool
  | Cleanup_Connections
  | Destroy_Tpool
  | Destroy_Connmgr
  | Join_Sig_Thread

text \<open>
  \<open>sv_lost\<close> is not in the code: the connections whose count was raised for a task that was then
  not queued.
\<close>

record server =
  sv_pc :: main_pc
  sv_mgr :: conn_mgr_t
  sv_heap :: cm_heap
  sv_tasks :: "(io_task \<times> ptr) list"
  sv_lost :: "ptr list"
  sv_stop :: bool

record step_env =
  se_lock :: int
  se_unlock :: int
  se_submit :: coin_status_t
  se_queued :: bool
  se_poll :: int
  se_events :: "nat \<Rightarrow> u16"
  se_errno :: errno
  se_clients :: "accept_event list"
  se_joined :: bool

text \<open>
  What the environment promises: descriptors of clients are positive (0 is taken by the standard
  input), and a submission that is reported as successful was queued.
\<close>

definition env_ok :: "step_env \<Rightarrow> bool" where
  "env_ok env \<longleftrightarrow> (\<forall>fd \<in> set (client_fds (se_clients env)). 0 < fd) \<and>
     (se_submit env = COIN_SUCCESS \<longrightarrow> se_queued env)"

subsection \<open>Closing connections\<close>

text \<open>
  The body of the first \<open>for\<close> loop for the index \<open>conn\<close>; the result says whether the loop goes
  on. Between the unlock and the \<open>connmgr_destroy_conn\<close> no task can hold the connection when its
  count was 0.
\<close>

definition sweep_conn :: "step_env \<Rightarrow> nat \<Rightarrow> server \<Rightarrow> cfault + (bool \<times> server)" where
  [op_defs]: "sweep_conn env conn s =
     (let mgr = sv_mgr s; h = sv_heap s in
      and_then (ezarr_get_at (deref (mgr_conns mgr)) (of_nat conn) (Some NULL)) (\<lambda>(err, out).
        if err \<noteq> 0 then Inr (False, s)
        else
          (case out of None \<Rightarrow> Inl Null_Deref
           | Some p_cur_ctx \<Rightarrow>
               and_then (ctx_at h p_cur_ctx) (\<lambda>c.
                 if cc_type c = INTERNAL_CONN then Inr (True, s)
                 else
                   and_then (lock_mutex (cc_mutex c)) (\<lambda>_.
                     if se_lock env \<noteq> 0 then Inr (True, s)
                     else if se_unlock env \<noteq> 0 then Inr (True, s)
                     else if cc_state c = PENDING_CLOSE \<and> cc_ref_count c = 0 then
                       and_then (connmgr_destroy_conn p_cur_ctx h) (\<lambda>h.
                       and_then (ezarr_set_at (deref (mgr_conns mgr)) (of_nat conn) NULL) (\<lambda>(err, arr).
                         let mgr = mgr\<lparr>mgr_conns := put_back (mgr_conns mgr) arr\<rparr> in
                         if err = 0 then
                           and_then (store (mgr_pfds mgr) conn zero_pollfd) (\<lambda>p_pfds.
                             Inr (True, s\<lparr>sv_mgr := mgr\<lparr>mgr_pfds := p_pfds\<rparr>, sv_heap := h\<rparr>))
                         else Inr (True, s\<lparr>sv_mgr := mgr, sv_heap := h\<rparr>)))
                     else Inr (True, s))))))"

subsection \<open>Serving the events\<close>

text \<open>\<open>poll\<close> writes the \<open>revents\<close> of the active entries.\<close>

fun poll_events :: "(nat \<Rightarrow> u16) \<Rightarrow> nat \<Rightarrow> nat \<Rightarrow> pollfd cell list owned \<Rightarrow> cfault + pollfd cell list owned" where
  "poll_events ev idx 0 p_pfds = Inr p_pfds"
| "poll_events ev idx (Suc left) p_pfds =
     and_then (load p_pfds idx) (\<lambda>pf.
     and_then (store p_pfds idx (pf\<lparr>pf_revents := ev idx\<rparr>)) (\<lambda>p_pfds.
       poll_events ev (Suc idx) left p_pfds))"

text \<open>Raising the count of a connection and submitting a task for it.\<close>

definition submit_io :: "step_env \<Rightarrow> io_task \<Rightarrow> ptr \<Rightarrow> conn_ctx \<Rightarrow> server \<Rightarrow> server" where
  "submit_io env k p c s =
     s\<lparr>sv_heap := put_ctx (sv_heap s) p (c\<lparr>cc_ref_count := cc_ref_count c + 1\<rparr>),
       sv_tasks := (if se_queued env then sv_tasks s @ [(k, p)] else sv_tasks s),
       sv_lost := (if se_queued env then sv_lost s else p # sv_lost s)\<rparr>"

text \<open>How a piece leaves: to the next one, with \<open>break\<close>, or with \<open>goto cleanup_connections\<close>.\<close>

datatype flow = Next | Break | Goto_Cleanup

text \<open>The lookup of the context and the \<open>POLLIN\<close> part, with the pointer \<open>p_cur_ctx\<close>.\<close>

definition on_pollin :: "int \<Rightarrow> int \<Rightarrow> step_env \<Rightarrow> nat \<Rightarrow> server \<Rightarrow> cfault + (flow \<times> ptr \<times> server)" where
  [op_defs]: "on_pollin sfd pipe_fd env conn s =
     (let mgr = sv_mgr s; h = sv_heap s in
      and_then (ezarr_get_at (deref (mgr_conns mgr)) (of_nat conn) (Some NULL)) (\<lambda>(err, out).
        if err \<noteq> 0 then Inr (Goto_Cleanup, NULL, s)
        else
          (case out of None \<Rightarrow> Inl Null_Deref
           | Some p_cur_ctx \<Rightarrow>
               and_then (load (mgr_pfds mgr) conn) (\<lambda>pf.
                 if pf_revents pf AND POLLIN = 0 then Inr (Next, p_cur_ctx, s)
                 else if sfd = pf_fd pf then
                   and_then (nl_accept (se_errno env) (se_clients env) h (Some mgr)) (\<lambda>(err, mgr, h).
                     Inr (if err = -1 then Goto_Cleanup else Next, p_cur_ctx, s\<lparr>sv_mgr := mgr, sv_heap := h\<rparr>))
                 else
                   and_then (ctx_at h p_cur_ctx) (\<lambda>c.
                     if cc_fd c = pipe_fd then Inr (Break, p_cur_ctx, s)
                     else
                       and_then (lock_mutex (cc_mutex c)) (\<lambda>_.
                         if se_lock env \<noteq> 0 then Inr (Goto_Cleanup, p_cur_ctx, s)
                         else
                           Inr (if se_submit env \<noteq> COIN_SUCCESS \<or> se_unlock env \<noteq> 0 then Goto_Cleanup else Next,
                                p_cur_ctx, submit_io env Read_Task p_cur_ctx c s)))))))"

definition on_hangup :: "step_env \<Rightarrow> nat \<Rightarrow> ptr \<Rightarrow> server \<Rightarrow> cfault + (flow \<times> server)" where
  [op_defs]: "on_hangup env conn p_cur_ctx s =
     and_then (load (mgr_pfds (sv_mgr s)) conn) (\<lambda>pf.
       if pf_revents pf AND (POLLHUP OR POLLERR OR POLLNVAL) = 0 then Inr (Next, s)
       else
         and_then (ctx_at (sv_heap s) p_cur_ctx) (\<lambda>c.
         and_then (lock_mutex (cc_mutex c)) (\<lambda>_.
           if se_lock env \<noteq> 0 then Inr (Goto_Cleanup, s)
           else
             Inr (if se_unlock env \<noteq> 0 then Goto_Cleanup else Next,
                  s\<lparr>sv_heap := put_ctx (sv_heap s) p_cur_ctx (c\<lparr>cc_state := PENDING_CLOSE\<rparr>)\<rparr>))))"

text \<open>In the \<open>POLLOUT\<close> part every failure is only logged.\<close>

definition on_pollout :: "step_env \<Rightarrow> nat \<Rightarrow> ptr \<Rightarrow> server \<Rightarrow> cfault + server" where
  [op_defs]: "on_pollout env conn p_cur_ctx s =
     and_then (load (mgr_pfds (sv_mgr s)) conn) (\<lambda>pf.
       if pf_revents pf AND POLLOUT = 0 then Inr s
       else
         and_then (ctx_at (sv_heap s) p_cur_ctx) (\<lambda>c.
         and_then (lock_mutex (cc_mutex c)) (\<lambda>_.
           if se_lock env \<noteq> 0 then Inr s else Inr (submit_io env Send_Task p_cur_ctx c s))))"

subsection \<open>The main thread\<close>

text \<open>
  The counters \<open>conn\<close> are \<open>uint16_t\<close> and stay below \<open>num_active_conns\<close>, so they do not wrap.
  \<open>Wait_Pool\<close> may go on whatever is still queued or running, where \<open>coin_tpool_wait\<close> would wait: this
  allows more runs than the code has, so it is used for safety only; \<open>Server_Pool\<close> has the runs in
  which the main thread really waits. \<open>coin_tpool_destroy\<close> waits for the running tasks and drops the
  queued ones, unless it fails to stop the workers.
\<close>

definition goes :: "main_pc \<Rightarrow> flow \<Rightarrow> main_pc" where
  "goes pc f = (case f of Next \<Rightarrow> pc | Break \<Rightarrow> Loop_Test | Goto_Cleanup \<Rightarrow> Cleanup_Connections)"

definition main_step :: "int \<Rightarrow> int \<Rightarrow> step_env \<Rightarrow> server \<Rightarrow> cfault + server" where
  "main_step sfd pipe_fd env s =
     (case sv_pc s of
        Loop_Test \<Rightarrow> Inr (s\<lparr>sv_pc := if sv_stop s then Wait_Pool else Sweep 0\<rparr>)
      | Sweep conn \<Rightarrow>
          if conn < unat (mgr_num_active (sv_mgr s)) then
            and_then (sweep_conn env conn s) (\<lambda>(go, s).
              Inr (s\<lparr>sv_pc := if go then Sweep (Suc conn) else Cleanup_Connections\<rparr>))
          else Inr (s\<lparr>sv_pc := Update\<rparr>)
      | Update \<Rightarrow>
          and_then (connmgr_update_connections (sv_heap s) (Some (sv_mgr s))) (\<lambda>(err, p_mgr, h).
            case p_mgr of None \<Rightarrow> Inl Null_Deref
            | Some mgr \<Rightarrow> Inr (s\<lparr>sv_mgr := mgr, sv_heap := h,
                            sv_pc := if err \<noteq> 0 then Cleanup_Connections else Poll\<rparr>))
      | Poll \<Rightarrow>
          if se_poll env = -1 then Inr (s\<lparr>sv_pc := Wait_Pool\<rparr>)
          else
            and_then (poll_events (se_events env) 0 (unat (mgr_num_active (sv_mgr s))) (mgr_pfds (sv_mgr s)))
              (\<lambda>p_pfds. Inr (s\<lparr>sv_mgr := (sv_mgr s)\<lparr>mgr_pfds := p_pfds\<rparr>, sv_pc := Pollin 0\<rparr>))
      | Pollin conn \<Rightarrow>
          if conn < unat (mgr_num_active (sv_mgr s)) then
            and_then (on_pollin sfd pipe_fd env conn s) (\<lambda>(f, p_cur_ctx, s).
              Inr (s\<lparr>sv_pc := goes (Hangup conn p_cur_ctx) f\<rparr>))
          else Inr (s\<lparr>sv_pc := Loop_Test\<rparr>)
      | Hangup conn p_cur_ctx \<Rightarrow>
          and_then (on_hangup env conn p_cur_ctx s) (\<lambda>(f, s).
            Inr (s\<lparr>sv_pc := goes (Pollout conn p_cur_ctx) f\<rparr>))
      | Pollout conn p_cur_ctx \<Rightarrow>
          and_then (on_pollout env conn p_cur_ctx s) (\<lambda>s. Inr (s\<lparr>sv_pc := Pollin (Suc conn)\<rparr>))
      | Wait_Pool \<Rightarrow> Inr (s\<lparr>sv_pc := Cleanup_Connections\<rparr>)
      | Cleanup_Connections \<Rightarrow>
          and_then (connmgr_destroy_all_conns (sv_heap s) (Some (sv_mgr s))) (\<lambda>(_, p_mgr, h).
            case p_mgr of None \<Rightarrow> Inl Null_Deref
            | Some mgr \<Rightarrow> Inr (s\<lparr>sv_mgr := mgr, sv_heap := h, sv_pc := Destroy_Tpool\<rparr>))
      | Destroy_Tpool \<Rightarrow> Inr (s\<lparr>sv_tasks := if se_joined env then [] else sv_tasks s, sv_pc := Destroy_Connmgr\<rparr>)
      | Destroy_Connmgr \<Rightarrow>
          and_then (connmgr_deinit (ch_mem (sv_heap s)) (Some (sv_mgr s))) (\<lambda>(_, p_mgr, m).
            case p_mgr of None \<Rightarrow> Inl Null_Deref
            | Some mgr \<Rightarrow> Inr (s\<lparr>sv_mgr := mgr, sv_heap := (sv_heap s)\<lparr>ch_mem := m\<rparr>,
                            sv_pc := Join_Sig_Thread\<rparr>))
      | Join_Sig_Thread \<Rightarrow> Inr s)"

text \<open>All threads: a step of the main thread, a task that runs, a signal that asks for the end.\<close>

inductive srv_step :: "int \<Rightarrow> int \<Rightarrow> server \<Rightarrow> server \<Rightarrow> bool" for sfd pipe_fd where
  main: "main_step sfd pipe_fd env s = Inr s' \<Longrightarrow> env_ok env \<Longrightarrow> srv_step sfd pipe_fd s s'"
| worker: "sv_tasks s = us @ t # vs \<Longrightarrow> run_task io (sv_stop s) t (sv_heap s) = Inr h' \<Longrightarrow>
    srv_step sfd pipe_fd s (s\<lparr>sv_heap := h', sv_tasks := us @ vs\<rparr>)"
| signal: "srv_step sfd pipe_fd s (s\<lparr>sv_stop := True\<rparr>)"

text \<open>The state at the first test of the loop: the listener and the pipe wait in the queue.\<close>

definition srv_start :: "nat set \<Rightarrow> server \<Rightarrow> bool" where
  "srv_start F s \<longleftrightarrow>
     sv_pc s = Loop_Test \<and> sv_tasks s = [] \<and> sv_lost s = [] \<and> \<not> sv_stop s \<and> cm_clean (sv_mgr s) \<and>
     (\<exists>ns. cm_rep (sv_heap s) (sv_mgr s) F [] ns) \<and>
     (\<forall>a c. ch_conns (sv_heap s) a = Some c \<longrightarrow> cc_ref_count c = 0)"

abbreviation srv_reach :: "int \<Rightarrow> int \<Rightarrow> nat set \<Rightarrow> server \<Rightarrow> bool" where
  "srv_reach sfd pipe_fd F \<equiv> reachable (srv_start F) (srv_step sfd pipe_fd)"

end
