(* ===== verification/Server_Frame.thy ===== *)
theory Server_Frame
  imports Server
begin

text \<open>
  What the tasks of \<open>src/main.c\<close> and the handlers of \<open>src/libs/net_io/netio.c\<close> leave alone: a
  handler that returns has changed neither the owner of a buffer nor descriptor, type, mutex and
  count of the connection, so the manager's representation survives every task.
\<close>

subsection \<open>Handlers keep the owners of the buffers\<close>

definition same_owner :: "'a owned \<Rightarrow> 'a owned \<Rightarrow> bool" where
  "same_owner p q \<longleftrightarrow> (case p of ONull \<Rightarrow> q = ONull | Own b _ \<Rightarrow> (\<exists>x. q = Own b x))"

lemma same_owner_refl [simp]: "same_owner p p"
  by (simp add: same_owner_def split: owned.split)

lemma same_owner_trans: "same_owner p q \<Longrightarrow> same_owner q r \<Longrightarrow> same_owner p r"
  by (auto simp: same_owner_def split: owned.splits)

lemma write_at_owner: "write_at p i xs = Inr q \<Longrightarrow> same_owner p q"
  by (cases p) (auto simp: same_owner_def write_at_def split: if_splits)

lemma recv_loop_owner: "recv_loop es p off len n = Inr (err, q, k, es') \<Longrightarrow> same_owner p q"
proof (induction es p off len n rule: recv_loop.induct)
  case (1 es p off len n)
  show ?case
  proof (cases "n < len")
    case False
    then show ?thesis using 1(3) by (simp add: recv_loop.simps)
  next
    case True
    obtain r es1 where r: "sock_recv (len - n) es = (r, es1)" by fastforce
    show ?thesis
    proof (cases r)
      case (Inl e)
      then show ?thesis using 1(1) [OF True r [symmetric]] 1(3) True r
        by (cases "e = EINTR") (simp_all add: recv_loop.simps [of es])
    next
      case (Inr bs)
      show ?thesis
      proof (cases "bs = []")
        case True
        then show ?thesis using 1(3) \<open>n < len\<close> r Inr by (simp add: recv_loop.simps [of es])
      next
        case False
        then obtain p1 where p1: "write_at p (off + n) bs = Inr p1"
          "recv_loop es1 p1 off len (n + length bs) = Inr (err, q, k, es')"
          using 1(3) \<open>n < len\<close> r Inr by (auto simp: recv_loop.simps [of es] and_then_eq_Inr)
        have "same_owner p1 q" using 1(2) [OF True r [symmetric] Inr False] p1 by blast
        then show ?thesis using write_at_owner [OF p1(1)] same_owner_trans by blast
      qed
    qed
  qed
qed

lemma recvall_owner: "nl_recvall es p off len = Inr (err, q, k, es') \<Longrightarrow> same_owner p q"
  by (auto simp: nl_recvall_def dest: recv_loop_owner split: if_splits)

lemma pong_owner: "proto_pingpong_create_response e p q n l = Inr (r, q', l') \<Longrightarrow> same_owner q q'"
  unfolding proto_pingpong_create_response_def
  by (auto simp: and_then_eq_Inr Let_def dest: write_at_owner split: if_splits)

text \<open>What a handler may not change; \<open>conn_wf\<close> and the blocks of a connection depend on nothing else.\<close>

definition same_buf :: "'a owned cell \<Rightarrow> 'a owned cell \<Rightarrow> bool" where
  "same_buf x y \<longleftrightarrow> (case x of Indet \<Rightarrow> y = Indet | Val p \<Rightarrow> \<exists>q. y = Val q \<and> same_owner p q)"

lemma same_buf_simps [simp]: "same_buf x x" "same_buf (Val p) (Val q) = same_owner p q"
  by (simp_all add: same_buf_def split: cell.split)

definition keeps_conn :: "conn_ctx \<Rightarrow> conn_ctx \<Rightarrow> bool" where
  "keeps_conn c c' \<longleftrightarrow>
     cc_fd c' = cc_fd c \<and> cc_type c' = cc_type c \<and> cc_mutex c' = cc_mutex c \<and> cc_ref_count c' = cc_ref_count c \<and>
     same_buf (cc_recv_buf c) (cc_recv_buf c') \<and> same_buf (cc_send_buf c) (cc_send_buf c')"

lemma keeps_conn_refl: "keeps_conn c c"
  by (simp add: keeps_conn_def)

lemma read_header_keeps:
  assumes "read_header e es c = Inr (r, c', es')"
  shows "keeps_conn c c'"
proof -
  obtain p where p: "cc_recv_buf c = Val p"
    using assms by (cases "cc_recv_buf c") (simp_all add: read_header_def)
  obtain err q k es1 where "nl_recvall es p (unat (cc_bytes_read c)) (unat (cc_bytes_to_read c)) = Inr (err, q, k, es1)"
    using assms p by (auto simp: read_header_def and_then_eq_Inr)
  with recvall_owner [OF this] p assms show ?thesis
    by (cases err) (auto simp: read_header_def keeps_conn_def and_then_eq_Inr Let_def split: if_splits)
qed

lemma read_content_keeps:
  assumes "read_content e es c = Inr (r, c', es')"
  shows "keeps_conn c c'"
proof -
  obtain p where p: "cc_recv_buf c = Val p"
    using assms by (cases "cc_recv_buf c") (simp_all add: read_content_def)
  obtain err q k es1 where r: "nl_recvall es p (unat (cc_bytes_read c)) (unat (cc_bytes_to_read c)) = Inr (err, q, k, es1)"
    using assms p by (auto simp: read_content_def and_then_eq_Inr)
  note own = recvall_owner [OF r]
  show ?thesis
  proof (cases "err = NL_IO_SUCCESS \<and> cc_bytes_to_read c - of_nat k = 0")
    case False
    then show ?thesis
      using own p r assms by (cases err) (auto simp: read_content_def keeps_conn_def Let_def)
  next
    case True
    obtain t t' n u q' where t: "cc_send_buf c = Val t"
      "proto_pingpong_create_response e q t (ucast (cc_bytes_read c + of_nat k))
         (Some (get_first16 e (cc_bytes_to_send c))) = Inr (n, t', u)"
      "write_at q 0 (replicate IO_BUF_SIZE 0) = Inr q'" "cc_recv_buf c' = Val q'" "cc_send_buf c' = Val t'"
      "cc_fd c' = cc_fd c" "cc_type c' = cc_type c" "cc_mutex c' = cc_mutex c" "cc_ref_count c' = cc_ref_count c"
      using True p r assms
      by (cases "cc_send_buf c") (auto simp: read_content_def and_then_eq_Inr Let_def simp del: sizes)
    then show ?thesis
      using p pong_owner [OF t(2)] same_owner_trans [OF own write_at_owner [OF t(3)]] by (simp add: keeps_conn_def)
  qed
qed

lemma handle_in_keeps:
  "nl_handle_sock_data_in e es (Some c) = Inr (r, p, es') \<Longrightarrow> \<exists>c'. p = Some c' \<and> keeps_conn c c'"
  by (auto simp: nl_handle_sock_data_in_def and_then_eq_Inr keeps_conn_refl
      dest: read_header_keeps read_content_keeps split: conn_state.splits)

lemma handle_out_keeps:
  assumes "nl_handle_sock_data_out es (Some c) w = Inr (r, p, w', es')"
  shows "\<exists>c'. p = Some c' \<and> keeps_conn c c'"
proof -
  obtain t where t: "cc_send_buf c = Val t"
    using assms by (cases "cc_send_buf c") (simp_all add: nl_handle_sock_data_out_def)
  obtain err k w1 es1 where "nl_sendall es t (unat (cc_bytes_to_send c)) w = Inr (err, k, w1, es1)"
    using assms t by (auto simp: nl_handle_sock_data_out_def and_then_eq_Inr)
  with t assms show ?thesis
    by (cases err)
      (auto simp: nl_handle_sock_data_out_def keeps_conn_def and_then_eq_Inr Let_def
        dest: write_at_owner split: if_splits simp del: sizes)
qed

lemma put_ctx_simps [simp]:
  "ch_mem (put_ctx h p c) = ch_mem h" "ch_closed (put_ctx h p c) = ch_closed h"
  "ch_conns (put_ctx h (Addr a) c) = (ch_conns h)(a \<mapsto> c)"
  by (simp_all add: put_ctx_def split: ptr.split)

text \<open>A task that returns has found a live connection, kept it, and lowered its count by one.\<close>

lemma run_task_result:
  assumes "run_task io stop (k, p) h = Inr h'"
  shows "\<exists>a c c'. p = Addr a \<and> ch_conns h a = Some c \<and> cc_mutex c = Val () \<and> keeps_conn c c' \<and>
    h' = put_ctx h p (c'\<lparr>cc_ref_count := cc_ref_count c - 1\<rparr>)"
proof -
  obtain a c where a: "p = Addr a" "ch_conns h a = Some c" "cc_mutex c = Val ()"
    using assms
    by (auto simp: run_task_def task_io_read_def task_io_send_def ctx_at_def lock_mutex_def and_then_eq_Inr
        split: io_task.splits ptr.splits option.splits cell.splits if_splits)
  have "\<exists>c'. keeps_conn c c' \<and> h' = put_ctx h p (c'\<lparr>cc_ref_count := cc_ref_count c' - 1\<rparr>)"
    using assms a
    by (auto simp: run_task_def task_io_read_def task_io_send_def ctx_at_def and_then_eq_Inr
        split: io_task.splits if_splits dest!: handle_in_keeps handle_out_keeps intro: keeps_conn_refl)
  then show ?thesis using a unfolding keeps_conn_def by auto
qed

end
