(* ===== verification/Session.thy ===== *)
theory Session
  imports Server_Frame
begin

text \<open>
  A request from end to end: the reading tasks of \<open>src/main.c\<close>, run one after the other on the
  connection of a client, rebuild the frame that \<open>src/libs/net_io/netio.c\<close> receives in whatever
  pieces the socket delivers it, and the sending task puts the reply of
  \<open>src/libs/protocols/pong.c\<close> on the wire.
\<close>

text \<open>\<open>n\<close> reading tasks in a row.\<close>

fun read_tasks ::
    "nat \<Rightarrow> recv_event list \<Rightarrow> ptr \<Rightarrow> cm_heap \<Rightarrow> cfault + (cm_heap \<times> recv_event list)" where
  "read_tasks 0 es p h = Inr (h, es)"
| "read_tasks (Suc n) es p h = and_then (task_io_read LE False es p h) (\<lambda>(h, es). read_tasks n es p h)"

text \<open>Reading tasks, at most so many, until the connection has a reply to send.\<close>

fun read_until ::
    "nat \<Rightarrow> recv_event list \<Rightarrow> ptr \<Rightarrow> cm_heap \<Rightarrow> cfault + (cm_heap \<times> recv_event list)" where
  "read_until 0 es p h = Inr (h, es)"
| "read_until (Suc n) es p h =
     and_then (ctx_at h p) (\<lambda>c.
       if cc_state c = WRITE_RESPONSE then Inr (h, es)
       else and_then (task_io_read LE False es p h) (\<lambda>(h, es). read_until n es p h))"

lemma reading_state:
  "reading c got \<Longrightarrow> cc_state c = READ_HEADER \<or> cc_state c = READ_CONTENT"
  by (cases "cc_state c") (simp_all add: reading_def)

lemma reading_ref [simp]: "reading (c\<lparr>cc_ref_count := n\<rparr>) got = reading c got"
  by (simp add: reading_def has_bufs_def split: conn_state.split)

lemma replying_ref [simp]: "replying (c\<lparr>cc_ref_count := n\<rparr>) outs = replying c outs"
  by (simp add: replying_def has_bufs_def)

lemma read_task_step:
  assumes c: "ch_conns h a = Some c" "cc_mutex c = Val ()" and rd: "reading c got"
    and fits: "cc_state c = READ_CONTENT \<Longrightarrow> frame_len got \<le> 1024"
  shows "\<exists>res c' bs es'. task_io_read LE False es (Addr a) h =
      Inr (put_ctx h (Addr a) (c'\<lparr>cc_ref_count := cc_ref_count c - 1\<rparr>), es') \<and>
    cc_mutex c' = Val () \<and> in_outcome es c got res c' bs es'"
proof -
  obtain res c' bs es' where run: "nl_handle_sock_data_in LE es (Some c) = Inr (res, Some c', es')"
    and out: "in_outcome es c got res c' bs es'"
    using handle_in_step [OF rd fits] by blast
  then have "keeps_conn c c'" using handle_in_keeps by blast
  then show ?thesis
    using run out c reading_state [OF rd]
    by (intro exI [of _ res] exI [of _ c'] exI [of _ bs] exI [of _ es'])
      (auto simp: task_io_read_def ctx_at_def lock_mutex_def keeps_conn_def)
qed

text \<open>What has been received of a stream that starts with a whole frame.\<close>

lemma frame_len_prefix:
  assumes "got @ tail = frame @ rest" and "3 \<le> length got" and "3 \<le> length frame"
  shows "frame_len got = frame_len frame"
proof -
  have "got ! i = frame ! i" if "i < 3" for i
    using assms that by (metis nth_append order_less_le_trans)
  then show ?thesis by (simp add: frame_len_def)
qed

lemma frame_unique:
  assumes "got @ tail = frame @ rest" and "frame_done got" and "frame_done frame"
  shows "got = frame" "tail = rest"
proof -
  have "length got = length frame"
    using assms frame_len_prefix [OF assms(1)] by (simp add: frame_done_def)
  then show "got = frame" "tail = rest" using assms(1) by auto
qed

lemma reading_bound:
  assumes "reading c got" and "got @ tail = frame @ rest" and "frame_done frame"
  shows "length got \<le> length frame"
proof (cases "length got < 3")
  case True
  then show ?thesis using assms(3) by (simp add: frame_done_def)
next
  case False
  then show ?thesis
    using assms frame_len_prefix [OF assms(2)] reading_state [OF assms(1)]
    by (auto simp: reading_def frame_done_def)
qed

lemma read_until_done:
  assumes "ch_conns h a = Some c" and "cc_state c = WRITE_RESPONSE"
  shows "read_until k es (Addr a) h = Inr (h, es)"
  using assms by (cases k) (simp_all add: ctx_at_def)

lemma read_until_step:
  assumes "ch_conns h a = Some c" and "reading c got" and "task_io_read LE False es (Addr a) h = Inr (h1, es1)"
    and "\<forall>k \<ge> n. read_until k es1 (Addr a) h1 = r"
  shows "\<forall>k \<ge> Suc n. read_until k es (Addr a) h = r"
proof (intro allI impI)
  fix k assume "Suc n \<le> k"
  then obtain k' where "k = Suc k'" "n \<le> k'" by (cases k) auto
  then show "read_until k es (Addr a) h = r"
    using assms reading_state [OF assms(2)] by (auto simp: ctx_at_def)
qed

text \<open>After \<open>n\<close> reading tasks, and not before, the reply to \<open>frame\<close> is ready; \<open>rest\<close> is still to come.\<close>

definition ready_after ::
    "nat \<Rightarrow> recv_event list \<Rightarrow> nat \<Rightarrow> cm_heap \<Rightarrow> conn_ctx \<Rightarrow> byte list \<Rightarrow> byte list \<Rightarrow>
     cm_heap \<Rightarrow> recv_event list \<Rightarrow> conn_ctx \<Rightarrow> bool" where
  "ready_after n es a h c frame rest h' es' c' \<longleftrightarrow>
     read_tasks n es (Addr a) h = Inr (h', es') \<and> (\<forall>k \<ge> n. read_until k es (Addr a) h = Inr (h', es')) \<and>
     n \<le> 2 * length es + (if cc_state c = READ_HEADER then 1 else 0) + 1 \<and>
     ch_conns h' a = Some c' \<and> replying c' (reply_to frame) \<and> stream es' = rest \<and> quiet es' \<and>
     cc_mutex c' = Val () \<and> cc_ref_count c' = cc_ref_count c - int n"

lemma ready_after_step:
  assumes "ch_conns h a = Some c" and "reading c got"
    and "task_io_read LE False es (Addr a) h = Inr (h1, es1)" and "cc_ref_count c1 = cc_ref_count c - 1"
    and "2 * length es1 + (if cc_state c1 = READ_HEADER then 1 else 0) < 2 * length es + (if cc_state c = READ_HEADER then 1 else 0)"
    and "ready_after n es1 a h1 c1 frame rest h' es' c'"
  shows "ready_after (Suc n) es a h c frame rest h' es' c'"
  using assms read_until_step [OF assms(1-3), of n "Inr (h', es')"] by (simp add: ready_after_def)

lemma ready_after_turn:
  "ready_after n es a h c frame rest h' es' c' \<Longrightarrow> read_until (2 * length es + 2) es (Addr a) h = Inr (h', es')"
  by (simp add: ready_after_def del: read_until.simps split: if_splits)

lemma reassembled:
  assumes "ch_conns h a = Some c" and "cc_mutex c = Val ()" and "reading c got" and "quiet es"
    and "got @ stream es = frame @ rest" and "frame_done frame" and "length frame \<le> 1024"
  shows "\<exists>n h' es' c'. ready_after n es a h c frame rest h' es' c'"
  using assms
proof (induction "2 * length es + (if cc_state c = READ_HEADER then 1 else 0)" arbitrary: es c got h rule: less_induct)
  case less
  have fd: "3 \<le> length frame" "frame_len frame = length frame" using less.prems(6) by (simp_all add: frame_done_def)
  have "frame_len got \<le> 1024" if "cc_state c = READ_CONTENT"
  proof -
    have "3 \<le> length got" using less.prems(3) that by (simp add: reading_def)
    then show ?thesis using frame_len_prefix [OF less.prems(5)] fd less.prems(7) by simp
  qed
  from read_task_step [OF less.prems(1,2,3) this, of es] obtain res c' bs es' where
    run: "task_io_read LE False es (Addr a) h = Inr (put_ctx h (Addr a) (c'\<lparr>cc_ref_count := cc_ref_count c - 1\<rparr>), es')"
    and mx: "cc_mutex c' = Val ()" and out: "in_outcome es c got res c' bs es'"
    by blast
  let ?c = "c'\<lparr>cc_ref_count := cc_ref_count c - 1\<rparr>" and ?h = "put_ctx h (Addr a) (c'\<lparr>cc_ref_count := cc_ref_count c - 1\<rparr>)"
  have es: "stream es = bs @ stream es'" "length es' \<le> length es" "quiet es'"
    using out less.prems(4) by (simp_all add: in_outcome_def)
  have got: "(got @ bs) @ stream es' = frame @ rest" using less.prems(5) es(1) by simp
  have h: "ch_conns ?h a = Some ?c" by simp
  consider (more) "reading c' (got @ bs)" "cc_state c = READ_HEADER" "cc_state c' = READ_CONTENT"
    | (again) "reading c' (got @ bs)" "\<not> frame_done (got @ bs)" "cc_state c' = cc_state c" "es' = [] \<or> length es' < length es"
    | (ready) "frame_done (got @ bs)" "replying c' (reply_to (got @ bs))"
    using out less.prems(4) unfolding in_outcome_def by (auto split: if_splits)
  then show ?case
  proof cases
    case ready
    have "cc_state ?c = WRITE_RESPONSE" using ready(2) by (simp add: replying_def)
    from read_until_step [OF less.prems(1,3) run, of 0] read_until_done [OF h this]
    have "\<forall>k \<ge> 1. read_until k es (Addr a) h = Inr (?h, es')" by simp
    with frame_unique [OF got ready(1) less.prems(6)] show ?thesis
      using run ready(2) mx es(3)
      by (intro exI [of _ 1] exI [of _ ?h] exI [of _ es'] exI [of _ ?c]) (simp add: ready_after_def)
  next
    case more
    then have rd: "reading ?c (got @ bs)" and lt: "2 * length es' + (if cc_state ?c = READ_HEADER then 1 else 0)
        < 2 * length es + (if cc_state c = READ_HEADER then 1 else 0)"
      using es(2) by simp_all
    have "cc_mutex ?c = Val ()" using mx by simp
    from less.hyps [OF lt h this rd es(3) got less.prems(6,7)] show ?thesis
      using ready_after_step [OF less.prems(1,3) run _ lt] by fastforce
  next
    case again
    then have rd: "reading ?c (got @ bs)" by simp
    have "es' \<noteq> []"
    proof
      assume "es' = []"
      then have eq: "got @ bs = frame @ rest" using got by simp
      then have "length (got @ bs) = length frame"
        using reading_bound [OF again(1) got less.prems(6)] by simp
      then have "got @ bs = frame" using eq by simp
      then show False using again(2) less.prems(6) by simp
    qed
    then have lt: "2 * length es' + (if cc_state ?c = READ_HEADER then 1 else 0)
        < 2 * length es + (if cc_state c = READ_HEADER then 1 else 0)"
      using again(3,4) by simp
    have "cc_mutex ?c = Val ()" using mx by simp
    from less.hyps [OF lt h this rd es(3) got less.prems(6,7)] show ?thesis
      using ready_after_step [OF less.prems(1,3) run _ lt] by fastforce
  qed
qed

lemma send_task_all:
  assumes c: "ch_conns h a = Some c" "cc_mutex c = Val ()" and rp: "replying c outs"
    and room: "length outs \<le> room" and pos: "outs \<noteq> []"
  shows "\<exists>c'. task_io_send False [Room room] wire (Addr a) h =
      Inr (put_ctx h (Addr a) (c'\<lparr>cc_ref_count := cc_ref_count c - 1\<rparr>), wire @ outs, []) \<and>
    cc_state c' = READ_HEADER \<and> reading c' [] \<and> cc_mutex c' = cc_mutex c"
proof -
  have c': "cc_state c = WRITE_RESPONSE" "has_bufs c [] outs" "cc_bytes_to_send c = of_nat (length outs - 0)"
    "cc_bytes_read c = 0"
    using rp by (simp_all add: replying_def)
  obtain c' where run: "nl_handle_sock_data_out [Room room] (Some c) wire = Inr (0, Some c', wire @ outs, [])"
    and fin: "cc_state c' = READ_HEADER" "reading c' []"
    using handle_out_from [OF c'(1,2) _ c'(3,4), of "[Room room]" wire] room pos by auto
  moreover have "keeps_conn c c'" using handle_out_keeps [OF run] by blast
  ultimately show ?thesis
    using c c'(1)
    by (intro exI [of _ c']) (auto simp: task_io_send_def ctx_at_def lock_mutex_def keeps_conn_def)
qed

lemma length_of_reply: "length (reply_to frame) = 11"
  by (simp add: reply_to_def error_frame_def pong_frame_def pong_chars_def)

text \<open>One request: some number of reading tasks, then the sending task.\<close>

lemma request_answered:
  assumes "ch_conns h a = Some c" and "cc_mutex c = Val ()" and "reading c []" and "quiet es"
    and "stream es = frame @ rest" and "frame_done frame" and "length frame \<le> 1024" and "11 \<le> room"
  shows "\<exists>n h1 es1 h2 c2. read_tasks n es (Addr a) h = Inr (h1, es1) \<and> stream es1 = rest \<and> quiet es1 \<and>
    read_until (2 * length es + 2) es (Addr a) h = Inr (h1, es1) \<and>
    task_io_send False [Room room] wire (Addr a) h1 = Inr (h2, wire @ reply_to frame, []) \<and>
    ch_conns h2 a = Some c2 \<and> cc_mutex c2 = Val () \<and> reading c2 [] \<and> cc_state c2 = READ_HEADER \<and>
    cc_ref_count c2 = cc_ref_count c - int n - 1"
proof -
  obtain n h1 es1 c1 where r: "read_tasks n es (Addr a) h = Inr (h1, es1)" "ch_conns h1 a = Some c1"
    "read_until (2 * length es + 2) es (Addr a) h = Inr (h1, es1)"
    "replying c1 (reply_to frame)" "stream es1 = rest" "quiet es1" "cc_mutex c1 = Val ()"
    "cc_ref_count c1 = cc_ref_count c - int n"
    using reassembled [OF assms(1-4) _ assms(6,7)] assms(5) ready_after_turn [of _ es a h]
    by (fastforce simp: ready_after_def simp del: read_until.simps)
  have "reply_to frame \<noteq> []" by (metis length_of_reply list.size(3) zero_neq_numeral)
  then obtain c2 where "task_io_send False [Room room] wire (Addr a) h1 =
      Inr (put_ctx h1 (Addr a) (c2\<lparr>cc_ref_count := cc_ref_count c1 - 1\<rparr>), wire @ reply_to frame, [])"
    "cc_state c2 = READ_HEADER" "reading c2 []" "cc_mutex c2 = cc_mutex c1"
    using send_task_all [OF r(2,7,4), of room wire] assms(8) by (auto simp: length_of_reply)
  then show ?thesis
    using r(1,3,5-8)
    by (intro exI [of _ n] exI [of _ h1] exI [of _ es1] exI [of _ "put_ctx h1 (Addr a) (c2\<lparr>cc_ref_count := cc_ref_count c1 - 1\<rparr>)"]
        exI [of _ "c2\<lparr>cc_ref_count := cc_ref_count c1 - 1\<rparr>"]) simp
qed

subsection \<open>A session\<close>

text \<open>For each number in the list so many reading tasks, then a sending task; \<open>wire\<close> is what the client reads.\<close>

fun serve_requests ::
    "nat list \<Rightarrow> nat \<Rightarrow> recv_event list \<Rightarrow> byte list \<Rightarrow> ptr \<Rightarrow> cm_heap \<Rightarrow>
     cfault + (cm_heap \<times> byte list \<times> recv_event list)" where
  "serve_requests [] room es wire p h = Inr (h, wire, es)"
| "serve_requests (n # ns) room es wire p h =
     and_then (read_tasks n es p h) (\<lambda>(h, es).
     and_then (task_io_send False [Room room] wire p h) (\<lambda>(h, wire, _).
       serve_requests ns room es wire p h))"

subsection \<open>Properties\<close>

text \<open>
  C3: on a little-endian host a client is answered, request by request, whatever the pieces in which
  the socket delivers its bytes. On a connection that waits for a header, with a stream that starts with whole frames (each of
  which fits the buffer; the client may send them without waiting) and neither ends nor fails,
  there are numbers of reading tasks, one for each frame, such that with a sending task after each,
  with room for the reply, exactly the protocol's replies to these frames appear on the wire, in
  order; the rest of the stream is untouched, the connection waits for the next header, and every
  task has lowered the count by one.
\<close>

theorem requests_answered_in_order:
  assumes "ch_conns h a = Some c" and "cc_mutex c = Val ()" and "reading c []" and "cc_state c = READ_HEADER" and "quiet es"
    and "stream es = concat frames @ rest" and "\<forall>f \<in> set frames. frame_done f \<and> length f \<le> 1024" and "11 \<le> room"
  shows "\<exists>ns h' es' c'. length ns = length frames \<and>
    serve_requests ns room es wire (Addr a) h = Inr (h', wire @ concat (map reply_to frames), es') \<and>
    stream es' = rest \<and> ch_conns h' a = Some c' \<and> reading c' [] \<and> cc_state c' = READ_HEADER \<and>
    cc_ref_count c' = cc_ref_count c - int (sum_list ns + length frames)"
  using assms
proof (induction frames arbitrary: h c es wire)
  case Nil
  then show ?case
    by (intro exI [of _ "[]"]) simp
next
  case (Cons f frames)
  obtain n h1 es1 h2 c2 where one: "read_tasks n es (Addr a) h = Inr (h1, es1)" "stream es1 = concat frames @ rest" "quiet es1"
    "task_io_send False [Room room] wire (Addr a) h1 = Inr (h2, wire @ reply_to f, [])"
    "ch_conns h2 a = Some c2" "cc_mutex c2 = Val ()" "reading c2 []" "cc_state c2 = READ_HEADER"
    "cc_ref_count c2 = cc_ref_count c - int n - 1"
    using request_answered [OF Cons.prems(1,2,3,5), of f "concat frames @ rest" room wire] Cons.prems(6-8) by auto
  obtain ns h' es' c' where rest: "length ns = length frames"
    "serve_requests ns room es1 (wire @ reply_to f) (Addr a) h2 =
      Inr (h', (wire @ reply_to f) @ concat (map reply_to frames), es')"
    "stream es' = rest" "ch_conns h' a = Some c'" "reading c' []" "cc_state c' = READ_HEADER"
    "cc_ref_count c' = cc_ref_count c2 - int (sum_list ns + length frames)"
    using Cons.IH [OF one(5-8,3,2), of "wire @ reply_to f"] Cons.prems(7,8) by auto
  show ?case
    using one rest by (intro exI [of _ "n # ns"] exI [of _ h'] exI [of _ es'] exI [of _ c']) simp
qed

text \<open>Two pings in three pieces, with an interruption between them; the server answers with two pongs.\<close>

theorem requests_answered_in_order_witness:
  "\<exists>ns h' es'. length ns = 2 \<and>
    serve_requests ns 20 [Data [0, 0], Recv_Err EAGAIN, Data [8, 1, 2, 41, 112], Recv_Err EINTR,
        Data [105, 110, 103, 0, 0, 0, 8, 1, 3, 41, 112, 105, 110, 103, 0, 7]] [] (Addr 5)
      \<lparr>ch_mem = demo_mem, ch_conns = [5 \<mapsto> demo_conn], ch_closed = []\<rparr> =
    Inr (h', pong_frame 258 41 @ pong_frame 259 41, es') \<and> stream es' = [7]"
proof -
  let ?es = "[Data [0, 0], Recv_Err EAGAIN, Data [8, 1, 2, 41, 112], Recv_Err EINTR,
      Data [105, 110, 103, 0, 0, 0, 8, 1, 3, 41, 112, 105, 110, 103, 0, 7]]"
  have "ping_frame 258 41 = [0, 0, 8, 1, 2, 41, 112, 105, 110, 103, 0]" "ping_frame 259 41 = [0, 0, 8, 1, 3, 41, 112, 105, 110, 103, 0]"
    by (simp_all add: ping_frame_def ping_chars_def hi_byte_def lo_byte_def)
  moreover from this have "reply_to (ping_frame 258 41) = pong_frame 258 41" "reply_to (ping_frame 259 41) = pong_frame 259 41"
    by (simp_all add: reply_to_def ping_chars_def join16_def)
  moreover from calculation have "stream ?es = concat [ping_frame 258 41, ping_frame 259 41] @ [7]"
      "\<forall>f \<in> set [ping_frame 258 41, ping_frame 259 41]. frame_done f \<and> length f \<le> 1024"
    by (simp_all add: frame_done_def frame_len_def join16_def)
  ultimately show ?thesis
    using requests_answered_in_order [of "\<lparr>ch_mem = demo_mem, ch_conns = [5 \<mapsto> demo_conn], ch_closed = []\<rparr>" 5 demo_conn
        ?es "[ping_frame 258 41, ping_frame 259 41]" "[7]" 20 "[]"] demo_conn_reading
    by (auto simp: demo_conn_def quiet_def numeral_2_eq_2)
qed

end
