(* ===== verification/Client.thy ===== *)
theory Client
  imports Pong
begin

text \<open>
  The test client \<open>tests/client.py\<close>: packing and unpacking with Python's \<open>struct\<close>, the loop of
  volleys, and the count of the failures. Python's integers are unbounded; an exception is a value
  of type \<open>py_error\<close>. The socket is a record of functions on a state, so that \<open>Client_Server\<close>
  can put the server behind it. Waiting (\<open>time.sleep\<close>) and random numbers are left out: the number
  of volleys is an argument. What is printed is a list of lines.
\<close>

datatype py_error = Struct_Error | Type_Error | Value_Error | Socket_Timeout | Os_Error

subsection \<open>Packing and unpacking\<close>

text \<open>The part of \<open>struct\<close> that the client uses: format codes after an exclamation mark (network
  order, no padding), and the values they stand for. A code \<open>5s\<close> cuts or fills with zeros.\<close>

datatype struct_code = Code_B | Code_H | Code_S nat

datatype py_val = Py_Int int | Py_Bytes "byte list"

fun code_size :: "struct_code \<Rightarrow> nat" where
  "code_size Code_B = 1"
| "code_size Code_H = 2"
| "code_size (Code_S k) = k"

definition calcsize :: "struct_code list \<Rightarrow> nat" where
  "calcsize fmt = sum_list (map code_size fmt)"

fun pack_one :: "struct_code \<Rightarrow> py_val \<Rightarrow> py_error + byte list" where
  "pack_one Code_B (Py_Int n) = (if 0 \<le> n \<and> n < 256 then Inr [word_of_int n] else Inl Struct_Error)"
| "pack_one Code_H (Py_Int n) =
     (if 0 \<le> n \<and> n < 65536 then Inr [hi_byte (word_of_int n), lo_byte (word_of_int n)] else Inl Struct_Error)"
| "pack_one (Code_S k) (Py_Bytes bs) = Inr (take k bs @ replicate (k - length bs) 0)"
| "pack_one _ _ = Inl Struct_Error"

fun struct_pack :: "struct_code list \<Rightarrow> py_val list \<Rightarrow> py_error + byte list" where
  "struct_pack [] [] = Inr []"
| "struct_pack (c # cs) (v # vs) =
     and_then (pack_one c v) (\<lambda>bs. and_then (struct_pack cs vs) (\<lambda>rest. Inr (bs @ rest)))"
| "struct_pack _ _ = Inl Struct_Error"

fun unpack_one :: "struct_code \<Rightarrow> byte list \<Rightarrow> py_val" where
  "unpack_one Code_B bs = Py_Int (uint (bs ! 0))"
| "unpack_one Code_H bs = Py_Int (uint (join16 (bs ! 0) (bs ! 1)))"
| "unpack_one (Code_S k) bs = Py_Bytes bs"

fun unpack_fields :: "struct_code list \<Rightarrow> byte list \<Rightarrow> py_val list" where
  "unpack_fields [] bs = []"
| "unpack_fields (c # cs) bs =
     unpack_one c (take (code_size c) bs) # unpack_fields cs (drop (code_size c) bs)"

definition struct_unpack :: "struct_code list \<Rightarrow> byte list \<Rightarrow> py_error + py_val list" where
  "struct_unpack fmt bs = (if length bs \<noteq> calcsize fmt then Inl Struct_Error else Inr (unpack_fields fmt bs))"

definition TOTAL_FMT :: "struct_code list" where
  "TOTAL_FMT = [Code_B, Code_H, Code_H, Code_B, Code_S 5]"

definition HEADER_FMT :: "struct_code list" where
  "HEADER_FMT = [Code_B, Code_H]"

definition PINGPONG_FMT :: "struct_code list" where
  "PINGPONG_FMT = [Code_H, Code_B, Code_S 5]"

text \<open>The client's numbers for the types of a message.\<close>

definition CLI_PING_TYPE :: int where "CLI_PING_TYPE = 0"
definition CLI_PONG_TYPE :: int where "CLI_PONG_TYPE = 1"

definition make_ping :: "int \<Rightarrow> int \<Rightarrow> py_error + byte list" where
  "make_ping cid volley =
     and_then (struct_pack HEADER_FMT [Py_Int CLI_PING_TYPE, Py_Int (int (calcsize PINGPONG_FMT))]) (\<lambda>header.
     and_then (struct_pack PINGPONG_FMT [Py_Int cid, Py_Int volley, Py_Bytes ping_chars]) (\<lambda>payload.
       Inr (header @ payload)))"

datatype client_line =
    Not_Enough_Data
  | Failed_Message int int int int "byte list"
  | Timed_Out
  | Volleys int int int

text \<open>\<open>None\<close> is Python's \<open>None\<close>; the lines printed come first.\<close>

definition parse_pong ::
    "byte list \<Rightarrow> client_line list \<times> (py_error + (int \<times> int \<times> int \<times> int \<times> byte list) option)" where
  "parse_pong data =
     (if length data < calcsize TOTAL_FMT then ([Not_Enough_Data], Inr None)
      else ([], and_then (struct_unpack TOTAL_FMT data) (\<lambda>vs.
        case vs of
          [Py_Int msg_type, Py_Int msg_len, Py_Int cli_id, Py_Int msg_volley, Py_Bytes msg_payload] \<Rightarrow>
            Inr (Some (msg_type, msg_len, cli_id, msg_volley, msg_payload))
        | _ \<Rightarrow> Inl Value_Error)))"

subsection \<open>The volleys\<close>

record 's sock_ops =
  so_connect :: "'s \<Rightarrow> (py_error + unit) \<times> 's"
  so_sendall :: "byte list \<Rightarrow> 's \<Rightarrow> (py_error + unit) \<times> 's"
  so_recv :: "nat \<Rightarrow> 's \<Rightarrow> (py_error + byte list) \<times> 's"
  so_close :: "'s \<Rightarrow> 's"

text \<open>
  The \<open>while\<close> loop of \<open>main\<close>, with the value of \<open>volley\<close> at its end. Only a timeout of \<open>recv\<close> is
  caught; unpacking \<open>None\<close> raises a \<open>TypeError\<close>.
\<close>

function client_loop ::
    "'s sock_ops \<Rightarrow> int \<Rightarrow> int \<Rightarrow> int \<Rightarrow> 's \<Rightarrow> client_line list \<times> (py_error + int) \<times> 's" where
  "client_loop sock cid max_volleys volley s =
     (if volley < max_volleys then
        (case make_ping cid volley of
           Inl e \<Rightarrow> ([], Inl e, s)
         | Inr ping_msg \<Rightarrow>
             (case so_sendall sock ping_msg s of
                (Inl e, s) \<Rightarrow> ([], Inl e, s)
              | (Inr _, s) \<Rightarrow>
                  (case so_recv sock (calcsize TOTAL_FMT) s of
                     (Inl e, s) \<Rightarrow> if e = Socket_Timeout then ([Timed_Out], Inr volley, s) else ([], Inl e, s)
                   | (Inr data, s) \<Rightarrow>
                       (case parse_pong data of
                          (out, Inl e) \<Rightarrow> (out, Inl e, s)
                        | (out, Inr None) \<Rightarrow> (out, Inl Type_Error, s)
                        | (out, Inr (Some (msg_type, msg_len, cli_id, msg_volley, msg_payload))) \<Rightarrow>
                            if msg_type \<noteq> CLI_PONG_TYPE \<or> msg_payload \<noteq> pong_chars \<or>
                               msg_volley \<noteq> volley + 1 \<or> cli_id \<noteq> cid
                            then (out @ [Failed_Message cid (volley + 1) cli_id msg_volley msg_payload], Inr volley, s)
                            else
                              (case client_loop sock cid max_volleys (msg_volley + 1) s of
                                 (out', r) \<Rightarrow> (out @ out', r))))))
      else ([], Inr volley, s))"
  by pat_completeness auto
termination
  by (relation "measure (\<lambda>(_, _, max_volleys, volley, _). nat (max_volleys - volley))") auto

declare client_loop.simps [simp del]

text \<open>\<open>main\<close>: \<open>bad_msg_count\<close> is set to 0 and never changed; \<open>with\<close> closes the socket on every way out.\<close>

definition client_main ::
    "'s sock_ops \<Rightarrow> int \<Rightarrow> int \<Rightarrow> 's \<Rightarrow> client_line list \<times> (py_error + int \<times> int) \<times> 's" where
  "client_main sock cid max_volleys s =
     (if 128 \<le> max_volleys then ([], Inl Value_Error, s)
      else
        (case so_connect sock s of
           (Inl e, s) \<Rightarrow> ([], Inl e, s)
         | (Inr _, s) \<Rightarrow>
             (case client_loop sock cid max_volleys 0 s of
                (out, Inl e, s) \<Rightarrow> (out, Inl e, so_close sock s)
              | (out, Inr volley, s) \<Rightarrow>
                  (out @ [Volleys cid volley max_volleys], Inr (cid, 0), so_close sock s))))"

text \<open>
  The loop over the completed futures at the end of the script: \<open>failed_msgs\<close> and the lines, each
  for a client's failed messages or for the index of a future that raised an exception.
\<close>

datatype report_line = Client_Failed int int | Future_Raised nat py_error

fun collect_results ::
    "nat \<Rightarrow> (py_error + int \<times> int) list \<Rightarrow> int \<Rightarrow> report_line list \<times> int" where
  "collect_results i [] failed_msgs = ([], failed_msgs)"
| "collect_results i (Inl e # rs) failed_msgs =
     (case collect_results (Suc i) rs (failed_msgs + 1) of (out, n) \<Rightarrow> (Future_Raised i e # out, n))"
| "collect_results i (Inr (c_id, failed) # rs) failed_msgs =
     (case collect_results (Suc i) rs failed of
        (out, n) \<Rightarrow> ((if failed > 0 then [Client_Failed c_id failed] else []) @ out, n))"

subsection \<open>What packing keeps\<close>

lemma calcsize_simps [simp]:
  "calcsize [] = 0" "calcsize (c # cs) = code_size c + calcsize cs"
  by (simp_all add: calcsize_def)

lemma calcsize_formats [simp]:
  "calcsize HEADER_FMT = 3" "calcsize PINGPONG_FMT = 8" "calcsize TOTAL_FMT = 11"
  by (simp_all add: HEADER_FMT_def PINGPONG_FMT_def TOTAL_FMT_def)

text \<open>What a code makes of a value: only bytes of another length than the code's are changed.\<close>

fun padded :: "struct_code \<Rightarrow> py_val \<Rightarrow> py_val" where
  "padded (Code_S k) (Py_Bytes bs) = Py_Bytes (take k bs @ replicate (k - length bs) 0)"
| "padded _ v = v"

lemma pack_one_ok:
  assumes "pack_one c v = Inr bs"
  shows "length bs = code_size c \<and> unpack_one c bs = padded c v"
  using assms by (cases "(c, v)" rule: pack_one.cases) (auto simp: uint_word_of_int split: if_splits)

lemma unpack_pack:
  assumes "struct_pack cs vs = Inr bs"
  shows "length bs = calcsize cs \<and> unpack_fields cs bs = map2 padded cs vs"
  using assms
proof (induction cs vs arbitrary: bs rule: struct_pack.induct)
  case (2 c cs v vs)
  then obtain b rest where b: "pack_one c v = Inr b" "struct_pack cs vs = Inr rest" "bs = b @ rest"
    by (auto simp: and_then_eq_Inr)
  with 2 pack_one_ok [OF b(1)] show ?case by simp
qed simp_all

lemma word_bounds:
  fixes cid volley :: int
  assumes "0 \<le> cid" "cid < 65536" "0 \<le> volley" "volley < 256"
  shows "uint (word_of_int cid :: u16) = cid" "uint (word_of_int volley :: byte) = volley"
  using assms by (simp_all add: uint_word_of_int)

lemma make_ping_frame:
  assumes "0 \<le> cid" "cid < 65536" "0 \<le> volley" "volley < 256"
  shows "make_ping cid volley = Inr (ping_frame (word_of_int cid) (word_of_int volley))"
proof -
  have "hi_byte (word_of_int 8) = 0" "lo_byte (word_of_int 8) = 8"
    by (simp_all add: hi_byte_def lo_byte_def)
  then show ?thesis
    using assms
    by (simp add: make_ping_def HEADER_FMT_def PINGPONG_FMT_def CLI_PING_TYPE_def ping_frame_def ping_chars_def)
qed

lemma make_ping_out_of_range:
  assumes "\<not> (0 \<le> cid \<and> cid < 65536 \<and> 0 \<le> volley \<and> volley < 256)"
  shows "make_ping cid volley = Inl Struct_Error"
  using assms by (auto simp: make_ping_def HEADER_FMT_def PINGPONG_FMT_def CLI_PING_TYPE_def)

lemma parse_pong_frame:
  assumes "0 \<le> cid" "cid < 65536" "0 \<le> volley" "volley < 256"
  shows "parse_pong (pong_frame (word_of_int cid) (word_of_int volley)) =
    ([], Inr (Some (CLI_PONG_TYPE, 11, cid, (volley + 1) mod 256, pong_chars)))"
proof -
  have "uint (word_of_int volley + 1 :: byte) = (volley + 1) mod 256"
    using assms by (simp add: uint_word_ariths uint_word_of_int)
  moreover have "uint (join16 0 11) = 11" by (simp add: join16_def)
  ultimately show ?thesis
    using assms word_bounds [of cid volley]
    by (simp add: parse_pong_def struct_unpack_def pong_frame_def pong_chars_def TOTAL_FMT_def CLI_PONG_TYPE_def)
qed

subsection \<open>A peer that answers\<close>

text \<open>
  What the client needs of the other side to play its volleys: after a ping was sent, one \<open>recv\<close>
  returns the first \<open>got\<close> bytes of the protocol's reply.
\<close>

locale answering_peer =
  fixes sock :: "'s sock_ops" and idle :: "'s \<Rightarrow> bool" and got :: nat
  assumes connects: "idle s \<Longrightarrow> \<exists>s'. so_connect sock s = (Inr (), s') \<and> idle s'"
    and answers: "idle s \<Longrightarrow> \<exists>s1 s2. so_sendall sock (ping_frame cid volley) s = (Inr (), s1) \<and>
      so_recv sock 11 s1 = (Inr (take got (reply_to (ping_frame cid volley))), s2) \<and> (11 \<le> got \<longrightarrow> idle s2)"
begin

lemma volley_step:
  assumes "idle s" and "0 \<le> cid" "cid < 65536" and "0 \<le> volley" "volley < 255" "volley < max_volleys"
  shows "\<exists>s'. client_loop sock cid max_volleys volley s =
     (if 11 \<le> got then client_loop sock cid max_volleys (volley + 2) s'
      else ([Not_Enough_Data], Inl Type_Error, s')) \<and> (11 \<le> got \<longrightarrow> idle s')"
proof -
  let ?c = "word_of_int cid" and ?v = "word_of_int volley"
  obtain s1 s2 where a: "so_sendall sock (ping_frame ?c ?v) s = (Inr (), s1)"
    "so_recv sock 11 s1 = (Inr (take got (reply_to (ping_frame ?c ?v))), s2)" "11 \<le> got \<longrightarrow> idle s2"
    using answers [OF assms(1)] by blast
  have ping: "make_ping cid volley = Inr (ping_frame ?c ?v)"
    using assms by (intro make_ping_frame) auto
  show ?thesis
  proof (cases "11 \<le> got")
    case True
    then have "parse_pong (take got (reply_to (ping_frame ?c ?v))) =
        ([], Inr (Some (CLI_PONG_TYPE, 11, cid, volley + 1, pong_chars)))"
      using assms parse_pong_frame [of cid volley] by (simp add: reply_to_ping)
    then have "client_loop sock cid max_volleys volley s = client_loop sock cid max_volleys (volley + 2) s2"
      using assms(6) ping a(1,2) by (subst client_loop.simps) (simp add: add.commute split: prod.split)
    then show ?thesis using True a(3) by auto
  next
    case False
    then have "parse_pong (take got (reply_to (ping_frame ?c ?v))) = ([Not_Enough_Data], Inr None)"
      by (simp add: parse_pong_def reply_to_ping)
    then have "client_loop sock cid max_volleys volley s = ([Not_Enough_Data], Inl Type_Error, s2)"
      using assms(6) ping a(1,2) by (subst client_loop.simps) simp
    then show ?thesis using False by auto
  qed
qed

lemma volley_end:
  fixes v m :: int
  shows "v < m \<Longrightarrow> (if v + 2 < m then m + (m - (v + 2)) mod 2 else v + 2) = m + (m - v) mod 2"
  by presburger

text \<open>The volleys go up in twos, so the loop ends at the limit or one above it.\<close>

lemma loop_completes:
  assumes "idle s" and "11 \<le> got" and "0 \<le> cid" "cid < 65536" and "0 \<le> volley" "max_volleys \<le> 255"
  shows "\<exists>s'. client_loop sock cid max_volleys volley s =
    ([], Inr (if volley < max_volleys then max_volleys + (max_volleys - volley) mod 2 else volley), s') \<and> idle s'"
  using assms(1,5)
proof (induction "nat (max_volleys - volley)" arbitrary: volley s rule: less_induct)
  case less
  show ?case
  proof (cases "volley < max_volleys")
    case False
    then show ?thesis using less.prems by (subst client_loop.simps) simp
  next
    case True
    then obtain s' where s': "client_loop sock cid max_volleys volley s = client_loop sock cid max_volleys (volley + 2) s'"
      "idle s'"
      using volley_step [of s cid volley max_volleys] less.prems assms by auto
    have "nat (max_volleys - (volley + 2)) < nat (max_volleys - volley)" "0 \<le> volley + 2"
      using True less.prems by auto
    from less.hyps [OF this(1) s'(2) this(2)] obtain s'' where
      "client_loop sock cid max_volleys (volley + 2) s' = ([], Inr (if volley + 2 < max_volleys
         then max_volleys + (max_volleys - (volley + 2)) mod 2 else volley + 2), s'')" "idle s''"
      by blast
    then show ?thesis
      unfolding volley_end [OF True] using True s'(1) by (intro exI [of _ s'']) simp
  qed
qed

lemma main_outcome:
  assumes "idle s" and "0 \<le> cid" "cid < 65536" and "0 < max_volleys" "max_volleys < 128"
  shows "\<exists>s'. client_main sock cid max_volleys s =
    (if 11 \<le> got
     then ([Volleys cid (max_volleys + max_volleys mod 2) max_volleys], Inr (cid, 0), so_close sock s')
     else ([Not_Enough_Data], Inl Type_Error, so_close sock s')) \<and> (11 \<le> got \<longrightarrow> idle s')"
proof -
  obtain s1 where s1: "so_connect sock s = (Inr (), s1)" "idle s1"
    using connects [OF assms(1)] by blast
  show ?thesis
  proof (cases "11 \<le> got")
    case True
    from loop_completes [OF s1(2) this assms(2,3), of 0 max_volleys] s1(1) True assms(4,5) show ?thesis
      by (auto simp: client_main_def)
  next
    case False
    with volley_step [OF s1(2) assms(2,3), of 0 max_volleys] s1(1) assms(4,5) show ?thesis
      by (auto simp: client_main_def)
  qed
qed

end

subsection \<open>Failures\<close>

text \<open>
  No result of \<open>main\<close> reports a failed message, and a result resets the count: what is left at the end
  is the number of exceptions after the last client that returned.
\<close>

lemma main_reports_none:
  "client_main sock cid max_volleys s = (out, Inr (c, n), s') \<Longrightarrow> c = cid \<and> n = 0"
  by (auto simp: client_main_def split: if_splits prod.splits sum.splits)

lemma failures_forgotten:
  "snd (collect_results i (rs @ Inr (c, 0) # map Inl es) n) = int (length es)"
proof -
  have exns: "snd (collect_results i (map Inl es) n) = n + int (length es)" for i n
    by (induction es arbitrary: i n) (simp_all add: case_prod_unfold)
  show ?thesis
  proof (induction rs arbitrary: i n)
    case Nil
    then show ?case using exns [of "Suc i" 0] by (simp add: case_prod_unfold)
  next
    case (Cons r rs)
    then show ?case by (cases r) (auto simp: case_prod_unfold)
  qed
qed

subsection \<open>Properties\<close>

text \<open>
  C23: the ping that \<open>make_ping\<close> packs for an id of 16 bits and a volley of 8 bits, answered by the
  server and unpacked by \<open>parse_pong\<close>, gives a pong with that id, the next volley and the text the
  client compares with, on either byte order of the host. The volley wraps: after 255 the client,
  which counts without bounds, would take the right answer for a wrong one.
\<close>

theorem ping_roundtrip:
  assumes "0 \<le> cid" "cid < 65536" "0 \<le> volley" "volley < 256" and "11 \<le> length outs"
  shows "\<exists>req reply. make_ping cid volley = Inr req \<and>
    proto_pingpong_create_response e (Own b (map Val req @ rest)) (Own c outs) 11 (Some l) =
      Inr (0, Own c (map Val reply @ drop 11 outs), Some 11) \<and>
    parse_pong reply = ([], Inr (Some (CLI_PONG_TYPE, 11, cid, (volley + 1) mod 256, pong_chars)))"
proof -
  let ?req = "ping_frame (word_of_int cid) (word_of_int volley)"
  have "length ?req = unat (11 :: u16)" by (simp add: ping_frame_def ping_chars_def)
  from create_response_reply [OF this assms(5)] make_ping_frame [OF assms(1-4)] parse_pong_frame [OF assms(1-4)]
  show ?thesis unfolding reply_to_ping by blast
qed

theorem ping_roundtrip_witness:
  "\<exists>req reply. make_ping 258 255 = Inr req \<and>
    proto_pingpong_create_response BE (Own 0 (map Val req @ [])) (Own 1 (replicate 1024 Indet)) 11 (Some 0) =
      Inr (0, Own 1 (map Val reply @ drop 11 (replicate 1024 Indet)), Some 11) \<and>
    parse_pong reply = ([], Inr (Some (CLI_PONG_TYPE, 11, 258, 0, pong_chars)))"
  using ping_roundtrip [of 258 255 "replicate 1024 Indet" BE 0 "[]" 1 0] by simp

end
