(* ===== verification/Client_Server.thy ===== *)
theory Client_Server
  imports Session Client
begin

text \<open>
  The test client against the server: the state behind the client's socket is the server's
  connection. What the client sends reaches the server in pieces; the server runs reading tasks
  until it has a reply, then a sending task; the client then receives at most \<open>got\<close> bytes at a time.
\<close>

record peer =
  pe_heap :: cm_heap
  pe_left :: "recv_event list"
  pe_unread :: "byte list"
  pe_sent :: nat
  pe_closed :: bool

text \<open>\<open>pieces k msg\<close>: how the k-th message arrives at the server. \<open>room\<close>: what fits the server's socket.\<close>

definition server_turn :: "nat \<Rightarrow> nat \<Rightarrow> peer \<Rightarrow> cfault + peer" where
  "server_turn room a s =
     and_then (read_until (2 * length (pe_left s) + 2) (pe_left s) (Addr a) (pe_heap s)) (\<lambda>(h, es).
     and_then (task_io_send False [Room room] (pe_unread s) (Addr a) h) (\<lambda>(h, wire, _).
       Inr (s\<lparr>pe_heap := h, pe_left := es, pe_unread := wire\<rparr>)))"

text \<open>A fault of the server ends its process: the client's call fails.\<close>

definition peer_sendall ::
    "nat \<Rightarrow> (nat \<Rightarrow> byte list \<Rightarrow> recv_event list) \<Rightarrow> nat \<Rightarrow> byte list \<Rightarrow> peer \<Rightarrow> (py_error + unit) \<times> peer" where
  "peer_sendall room pieces a msg s =
     (let s = s\<lparr>pe_left := pe_left s @ pieces (pe_sent s) msg, pe_sent := Suc (pe_sent s)\<rparr> in
      case server_turn room a s of Inl _ \<Rightarrow> (Inl Os_Error, s) | Inr s' \<Rightarrow> (Inr (), s'))"

definition peer_recv :: "nat \<Rightarrow> nat \<Rightarrow> peer \<Rightarrow> (py_error + byte list) \<times> peer" where
  "peer_recv got n s =
     (if pe_unread s = [] then (Inl Socket_Timeout, s)
      else (Inr (take (min n got) (pe_unread s)), s\<lparr>pe_unread := drop (min n got) (pe_unread s)\<rparr>))"

definition peer_sock ::
    "nat \<Rightarrow> (nat \<Rightarrow> byte list \<Rightarrow> recv_event list) \<Rightarrow> nat \<Rightarrow> nat \<Rightarrow> peer sock_ops" where
  "peer_sock room pieces got a = \<lparr>so_connect = (\<lambda>s. (Inr (), s)), so_sendall = peer_sendall room pieces a,
     so_recv = peer_recv got, so_close = (\<lambda>s. s\<lparr>pe_closed := True\<rparr>)\<rparr>"

text \<open>A stream delivers what was sent, without end or failure; the reply fits the server's socket.\<close>

definition delivers :: "nat \<Rightarrow> (nat \<Rightarrow> byte list \<Rightarrow> recv_event list) \<Rightarrow> bool" where
  "delivers room pieces \<longleftrightarrow> 11 \<le> room \<and> (\<forall>k msg. quiet (pieces k msg) \<and> stream (pieces k msg) = msg)"

text \<open>Between two volleys the connection waits for a header and nothing is on the way.\<close>

definition waiting :: "nat \<Rightarrow> peer \<Rightarrow> bool" where
  "waiting a s \<longleftrightarrow> quiet (pe_left s) \<and> stream (pe_left s) = [] \<and> pe_unread s = [] \<and>
     (\<exists>c. ch_conns (pe_heap s) a = Some c \<and> cc_mutex c = Val () \<and> reading c [] \<and> cc_state c = READ_HEADER)"

lemma stream_append [simp]: "stream (es @ es') = stream es @ stream es'"
  by (simp add: stream_def)

lemma quiet_append [simp]: "quiet (es @ es') \<longleftrightarrow> quiet es \<and> quiet es'"
  by (auto simp: quiet_def)

lemma ping_whole: "frame_done (ping_frame cid v)" "length (ping_frame cid v) = 11"
  by (simp_all add: frame_done_def frame_len_def ping_frame_def ping_chars_def join16_def)

lemma turn_answers:
  assumes "delivers room pieces" and "waiting a s"
  shows "\<exists>s'. peer_sendall room pieces a (ping_frame cid v) s = (Inr (), s') \<and>
    pe_unread s' = reply_to (ping_frame cid v) \<and> waiting a (s'\<lparr>pe_unread := []\<rparr>)"
proof -
  let ?msg = "ping_frame cid v" and ?es = "pe_left s @ pieces (pe_sent s) (ping_frame cid v)"
  obtain c where c: "ch_conns (pe_heap s) a = Some c" "cc_mutex c = Val ()" "reading c []"
    and w: "quiet (pe_left s)" "stream (pe_left s) = []" "pe_unread s = []"
    using assms(2) by (auto simp: waiting_def)
  have es: "quiet ?es" "stream ?es = ?msg @ []" and room: "11 \<le> room"
    using assms(1) w by (simp_all add: delivers_def)
  have "length ?msg \<le> 1024" by (simp add: ping_whole)
  from request_answered [OF c es ping_whole(1) this room, of "[]"] obtain h1 es1 h2 c2 where
    "read_until (2 * length ?es + 2) ?es (Addr a) (pe_heap s) = Inr (h1, es1)" "stream es1 = []" "quiet es1"
    "task_io_send False [Room room] [] (Addr a) h1 = Inr (h2, reply_to ?msg, [])"
    "ch_conns h2 a = Some c2" "cc_mutex c2 = Val ()" "reading c2 []" "cc_state c2 = READ_HEADER"
    by auto
  then show ?thesis
    using w by (simp add: peer_sendall_def server_turn_def waiting_def Let_def del: read_until.simps)
qed

interpretation served: answering_peer "peer_sock room pieces got a"
    "\<lambda>s. delivers room pieces \<and> waiting a s \<and> 0 < got" got for room pieces got a
proof unfold_locales
  fix s cid v assume idle: "delivers room pieces \<and> waiting a s \<and> 0 < got"
  then show "\<exists>s'. so_connect (peer_sock room pieces got a) s = (Inr (), s') \<and> delivers room pieces \<and> waiting a s' \<and> 0 < got"
    by (simp add: peer_sock_def)
  obtain s' where s': "peer_sendall room pieces a (ping_frame cid v) s = (Inr (), s')"
    "pe_unread s' = reply_to (ping_frame cid v)" "waiting a (s'\<lparr>pe_unread := []\<rparr>)"
    using turn_answers idle by blast
  have "reply_to (ping_frame cid v) \<noteq> []" by (metis length_of_reply list.size(3) zero_neq_numeral)
  then show "\<exists>s1 s2. so_sendall (peer_sock room pieces got a) (ping_frame cid v) s = (Inr (), s1) \<and>
      so_recv (peer_sock room pieces got a) 11 s1 = (Inr (take got (reply_to (ping_frame cid v))), s2) \<and>
      (11 \<le> got \<longrightarrow> delivers room pieces \<and> waiting a s2 \<and> 0 < got)"
    using s' idle by (auto simp: peer_sock_def peer_recv_def length_of_reply min_def)
qed

lemma fresh_waits: "fresh_conn fd c \<Longrightarrow> reading c [] \<and> cc_mutex c = Val () \<and> cc_state c = READ_HEADER"
  by (auto simp: fresh_conn_def reading_def has_bufs_def)

subsection \<open>Properties\<close>

text \<open>
  C4: the test client against the server, end to end, on a little-endian host. On a connection that the server has just
  accepted, for every way in which the client's messages are cut up on their way, every id of 16
  bits and every positive limit below 128: if the client receives a reply in one piece, it plays
  all its volleys (an even number, the limit or one more), reports no error, and the connection
  waits for the next header. If a reply arrives in smaller pieces, which a stream socket may do,
  \<open>main\<close> stops at the first one with a \<open>TypeError\<close>: \<open>recv\<close> is called once and \<open>parse_pong\<close> returns
  \<open>None\<close>. The socket is closed in both cases.
\<close>

theorem client_plays_against_server:
  assumes "delivers room pieces" and "fresh_conn fd c" and "ch_conns h a = Some c" and "0 < got"
    and "0 \<le> cid" "cid < 65536" and "0 < max_volleys" "max_volleys < 128"
  shows "\<exists>s'. client_main (peer_sock room pieces got a) cid max_volleys
      \<lparr>pe_heap = h, pe_left = [], pe_unread = [], pe_sent = 0, pe_closed = False\<rparr> =
    (if 11 \<le> got
     then ([Volleys cid (max_volleys + max_volleys mod 2) max_volleys], Inr (cid, 0), s')
     else ([Not_Enough_Data], Inl Type_Error, s')) \<and>
    pe_closed s' \<and> (11 \<le> got \<longrightarrow> waiting a s')"
proof -
  let ?s = "\<lparr>pe_heap = h, pe_left = [], pe_unread = [], pe_sent = 0, pe_closed = False\<rparr>"
  have "delivers room pieces \<and> waiting a ?s \<and> 0 < got"
    using assms(1,3,4) fresh_waits [OF assms(2)] by (simp add: waiting_def quiet_def)
  from served.main_outcome [OF this assms(5-8)] show ?thesis
    by (auto simp: peer_sock_def waiting_def)
qed

text \<open>Each message arrives byte by byte, with an interruption before the second byte.\<close>

definition demo_pieces :: "nat \<Rightarrow> byte list \<Rightarrow> recv_event list" where
  "demo_pieces k msg = (case map (\<lambda>b. Data [b]) msg of [] \<Rightarrow> [] | e # es \<Rightarrow> e # Recv_Err EAGAIN # es)"

lemma stream_bytes [simp]: "stream (map (\<lambda>b. Data [b]) msg) = msg"
  by (induction msg) simp_all

lemma demo_delivers: "delivers 20 demo_pieces"
proof -
  have "quiet (demo_pieces k msg) \<and> stream (demo_pieces k msg) = msg" for k msg
    by (cases msg) (auto simp: demo_pieces_def quiet_def)
  then show ?thesis by (simp add: delivers_def)
qed

theorem client_plays_against_server_witness:
  "\<exists>s' s''. client_main (peer_sock 20 demo_pieces 11 5) 258 7
      \<lparr>pe_heap = \<lparr>ch_mem = demo_mem, ch_conns = [5 \<mapsto> demo_conn], ch_closed = []\<rparr>, pe_left = [],
        pe_unread = [], pe_sent = 0, pe_closed = False\<rparr> = ([Volleys 258 8 7], Inr (258, 0), s') \<and> waiting 5 s' \<and>
    client_main (peer_sock 20 demo_pieces 4 5) 258 7
      \<lparr>pe_heap = \<lparr>ch_mem = demo_mem, ch_conns = [5 \<mapsto> demo_conn], ch_closed = []\<rparr>, pe_left = [],
        pe_unread = [], pe_sent = 0, pe_closed = False\<rparr> = ([Not_Enough_Data], Inl Type_Error, s'')"
proof -
  have "fresh_conn 7 demo_conn" by (simp add: fresh_conn_def demo_conn_def)
  note run = client_plays_against_server [OF demo_delivers this,
      of "\<lparr>ch_mem = demo_mem, ch_conns = [5 \<mapsto> demo_conn], ch_closed = []\<rparr>" 5 _ 258 7]
  from run [of 11] run [of 4] show ?thesis by fastforce
qed

end
