(* ===== verification/Tpool_Steps.thy ===== *)
theory Tpool_Steps
  imports C_Prelude Step_Systems "HOL-Library.Multiset" "HOL-Library.Sublist"
begin

text \<open>
  The threads of the pool in \<open>src/libs/concurinc/src/concurinc.c\<close> as an interleaving step relation:
  the workers (\<open>coin_thread_worker\<close>) and the one thread, the boss, that submits tasks, waits for
  them and stops the workers (\<open>coin_tpool_submit\<close>, \<open>coin_tpool_wait\<close>, \<open>coin_tpool_stop_workers\<close>;
  in the server it is \<open>main\<close>).

  A step goes from one lock, wait, signal or unlock of the code to the next, so it holds at most
  one read or write of shared data. The state has the two mutexes with their owners, the shutdown
  flag, the queue as the list of its tasks (what \<open>coin_queue.c\<close> implements, see \<open>coin_queue_fifo\<close>),
  the counter of active tasks, and the place of every thread. A thread that waits on a condition
  is at a place of its own; a signal moves one such worker on when there is one, a broadcast all,
  and a worker may also wake up without a signal, as POSIX allows. Tasks are numbers.

  \<open>submitted\<close> and \<open>ran\<close> record the tasks that went into the queue and those that were executed.
  Steps in which a pthread call reports an error need \<open>flt\<close>; \<open>tp_step False\<close> is the pool without
  such errors.
\<close>

datatype thread = Boss | Worker nat

text \<open>Where a worker is. \<open>W_Exit e p c\<close> has left the loop with \<open>err = e\<close>, holding the task \<open>p\<close>
  if it was not executed, and still counted as active if \<open>c\<close>.\<close>

datatype wpc =
    W_Start
  | W_Check
  | W_Wait
  | W_Wake
  | W_Decide
  | W_Have nat
  | W_Unlock nat
  | W_Popped nat
  | W_Count nat
  | W_Counted nat
  | W_Release nat
  | W_Run nat
  | W_Ran
  | W_Uncount
  | W_Uncounted
  | W_Released
  | W_Exit int "nat option" bool
  | W_Exiting int "nat option" bool
  | W_Done int "nat option" bool

datatype wait_result = WR_Success | WR_Mutex_Error | WR_Cond_Error

datatype bpc =
    B_Idle
  | B_Submit nat
  | B_Push nat
  | B_Pushed
  | B_Unlock
  | B_Wait
  | B_Active
  | B_Sleep
  | B_Woken
  | B_More
  | B_None
  | B_Queue
  | B_Empty
  | B_Unlock_Empty bool
  | B_Returned wait_result
  | B_Stop
  | B_Stopping
  | B_Join
  | B_Joined

record tpool =
  b_shutdown :: bool
  work_queue :: "nat list"
  queue_owner :: "thread option"
  active_owner :: "thread option"
  active_tasks :: size_t
  workers :: "wpc list"
  boss :: bpc
  submitted :: "nat list"
  ran :: "nat list"

definition at :: "tpool \<Rightarrow> nat \<Rightarrow> wpc \<Rightarrow> bool" where
  "at s i w \<longleftrightarrow> i < length (workers s) \<and> workers s ! i = w"

definition goto :: "nat \<Rightarrow> wpc \<Rightarrow> tpool \<Rightarrow> tpool" where
  "goto i w s = s\<lparr>workers := (workers s)[i := w]\<rparr>"

definition wake :: "wpc \<Rightarrow> wpc" where
  "wake w = (if w = W_Wait then W_Wake else w)"

definition wake_all :: "tpool \<Rightarrow> tpool" where
  "wake_all s = s\<lparr>workers := map wake (workers s)\<rparr>"

definition wake_boss :: "tpool \<Rightarrow> tpool" where
  "wake_boss s = s\<lparr>boss := (if boss s = B_Sleep then B_Woken else boss s)\<rparr>"

text \<open>\<open>pthread_cond_signal\<close> on the queue's condition: one waiting worker, if there is one.\<close>

definition signalled :: "tpool \<Rightarrow> tpool \<Rightarrow> bool" where
  "signalled s s' \<longleftrightarrow>
     (\<exists>j. at s j W_Wait \<and> s' = goto j W_Wake s) \<or> (W_Wait \<notin> set (workers s) \<and> s' = s)"

inductive tp_step :: "bool \<Rightarrow> tpool \<Rightarrow> tpool \<Rightarrow> bool" for flt :: bool where
  w_lock: "at s i W_Start \<Longrightarrow> queue_owner s = None \<Longrightarrow>
    tp_step flt s (goto i W_Check (s\<lparr>queue_owner := Some (Worker i)\<rparr>))"
| w_lock_err: "flt \<Longrightarrow> e \<noteq> 0 \<Longrightarrow> at s i W_Start \<Longrightarrow> tp_step flt s (goto i (W_Exit e None False) s)"
| w_wait: "at s i W_Check \<Longrightarrow> \<not> b_shutdown s \<Longrightarrow> work_queue s = [] \<Longrightarrow>
    tp_step flt s (goto i W_Wait (s\<lparr>queue_owner := None\<rparr>))"
| w_wait_err: "flt \<Longrightarrow> at s i W_Check \<Longrightarrow> \<not> b_shutdown s \<Longrightarrow> work_queue s = [] \<Longrightarrow>
    tp_step flt s (goto i W_Decide s)"
| w_spurious: "at s i W_Wait \<Longrightarrow> tp_step flt s (goto i W_Wake s)"
| w_wake: "at s i W_Wake \<Longrightarrow> queue_owner s = None \<Longrightarrow>
    tp_step flt s (goto i W_Check (s\<lparr>queue_owner := Some (Worker i)\<rparr>))"
| w_leave: "at s i W_Check \<Longrightarrow> b_shutdown s \<or> work_queue s \<noteq> [] \<Longrightarrow> tp_step flt s (goto i W_Decide s)"
| w_shutdown: "at s i W_Decide \<Longrightarrow> b_shutdown s \<Longrightarrow>
    tp_step flt s (goto i (W_Exit 0 None False) (s\<lparr>queue_owner := None\<rparr>))"
| w_shutdown_err: "flt \<Longrightarrow> e \<noteq> 0 \<Longrightarrow> at s i W_Decide \<Longrightarrow> b_shutdown s \<Longrightarrow>
    tp_step flt s (goto i (W_Exit e None False) s)"
| w_corrupt: "at s i W_Decide \<Longrightarrow> \<not> b_shutdown s \<Longrightarrow> work_queue s = [] \<Longrightarrow>
    tp_step flt s (goto i (W_Exit 1 None False) (wake_all (s\<lparr>b_shutdown := True, queue_owner := None\<rparr>)))"
| w_pop: "at s i W_Decide \<Longrightarrow> \<not> b_shutdown s \<Longrightarrow> work_queue s = t # ts \<Longrightarrow>
    tp_step flt s (goto i (W_Have t) (s\<lparr>work_queue := ts\<rparr>))"
| w_signal: "at s i (W_Have t) \<Longrightarrow> work_queue s \<noteq> [] \<Longrightarrow> signalled s s' \<Longrightarrow>
    tp_step flt s (goto i (W_Unlock t) s')"
| w_signal_err: "flt \<Longrightarrow> e \<noteq> 0 \<Longrightarrow> at s i (W_Have t) \<Longrightarrow> work_queue s \<noteq> [] \<Longrightarrow>
    tp_step flt s (goto i (W_Exit e (Some t) False) (s\<lparr>queue_owner := None\<rparr>))"
| w_no_signal: "at s i (W_Have t) \<Longrightarrow> work_queue s = [] \<Longrightarrow> tp_step flt s (goto i (W_Unlock t) s)"
| w_unlock: "at s i (W_Unlock t) \<Longrightarrow> tp_step flt s (goto i (W_Popped t) (s\<lparr>queue_owner := None\<rparr>))"
| w_unlock_err: "flt \<Longrightarrow> e \<noteq> 0 \<Longrightarrow> at s i (W_Unlock t) \<Longrightarrow>
    tp_step flt s (goto i (W_Exit e (Some t) False) s)"
| w_lock_active: "at s i (W_Popped t) \<Longrightarrow> active_owner s = None \<Longrightarrow>
    tp_step flt s (goto i (W_Count t) (s\<lparr>active_owner := Some (Worker i)\<rparr>))"
| w_lock_active_err: "flt \<Longrightarrow> e \<noteq> 0 \<Longrightarrow> at s i (W_Popped t) \<Longrightarrow>
    tp_step flt s (goto i (W_Exit e (Some t) False) s)"
| w_count: "at s i (W_Count t) \<Longrightarrow>
    tp_step flt s (goto i (W_Counted t) (s\<lparr>active_tasks := active_tasks s + 1\<rparr>))"
| w_broadcast: "at s i (W_Counted t) \<Longrightarrow> tp_step flt s (goto i (W_Release t) (wake_boss s))"
| w_broadcast_err: "flt \<Longrightarrow> e \<noteq> 0 \<Longrightarrow> at s i (W_Counted t) \<Longrightarrow>
    tp_step flt s (goto i (W_Exit e (Some t) True) (s\<lparr>active_owner := None\<rparr>))"
| w_release: "at s i (W_Release t) \<Longrightarrow> tp_step flt s (goto i (W_Run t) (s\<lparr>active_owner := None\<rparr>))"
| w_release_err: "flt \<Longrightarrow> e \<noteq> 0 \<Longrightarrow> at s i (W_Release t) \<Longrightarrow>
    tp_step flt s (goto i (W_Exit e (Some t) True) s)"
| w_run: "at s i (W_Run t) \<Longrightarrow> tp_step flt s (goto i W_Ran (s\<lparr>ran := ran s @ [t]\<rparr>))"
| w_lock_done: "at s i W_Ran \<Longrightarrow> active_owner s = None \<Longrightarrow>
    tp_step flt s (goto i W_Uncount (s\<lparr>active_owner := Some (Worker i)\<rparr>))"
| w_lock_done_err: "flt \<Longrightarrow> e \<noteq> 0 \<Longrightarrow> at s i W_Ran \<Longrightarrow> tp_step flt s (goto i (W_Exit e None True) s)"
| w_uncount: "at s i W_Uncount \<Longrightarrow>
    tp_step flt s (goto i W_Uncounted (s\<lparr>active_tasks := active_tasks s - 1\<rparr>))"
| w_broadcast_done: "at s i W_Uncounted \<Longrightarrow> tp_step flt s (goto i W_Released (wake_boss s))"
| w_broadcast_done_err: "flt \<Longrightarrow> e \<noteq> 0 \<Longrightarrow> at s i W_Uncounted \<Longrightarrow>
    tp_step flt s (goto i (W_Exit e None False) (s\<lparr>active_owner := None\<rparr>))"
| w_release_done: "at s i W_Released \<Longrightarrow> tp_step flt s (goto i W_Start (s\<lparr>active_owner := None\<rparr>))"
| w_release_done_err: "flt \<Longrightarrow> e \<noteq> 0 \<Longrightarrow> at s i W_Released \<Longrightarrow>
    tp_step flt s (goto i (W_Exit e None False) s)"
| w_exit: "at s i (W_Exit e p c) \<Longrightarrow> queue_owner s = None \<Longrightarrow>
    tp_step flt s (goto i (W_Exiting e p c) (s\<lparr>queue_owner := Some (Worker i)\<rparr>))"
| w_exited: "at s i (W_Exiting e p c) \<Longrightarrow>
    tp_step flt s (goto i (W_Done e p c)
      (let s1 = s\<lparr>queue_owner := None\<rparr> in if b_shutdown s then s1 else wake_all (s1\<lparr>b_shutdown := True\<rparr>)))"
| w_exit_err: "flt \<Longrightarrow> at s i (W_Exit e p c) \<Longrightarrow>
    tp_step flt s (goto i (W_Done e p c) (if b_shutdown s then s else wake_all (s\<lparr>b_shutdown := True\<rparr>)))"
| b_submit: "boss s = B_Idle \<Longrightarrow> t \<notin> set (submitted s) \<Longrightarrow> tp_step flt s (s\<lparr>boss := B_Submit t\<rparr>)"
| b_lock: "boss s = B_Submit t \<Longrightarrow> queue_owner s = None \<Longrightarrow>
    tp_step flt s (s\<lparr>boss := B_Push t, queue_owner := Some Boss\<rparr>)"
| b_lock_err: "flt \<Longrightarrow> boss s = B_Submit t \<Longrightarrow> tp_step flt s (s\<lparr>boss := B_Idle\<rparr>)"
| b_push: "boss s = B_Push t \<Longrightarrow>
    tp_step flt s (s\<lparr>boss := B_Pushed, work_queue := work_queue s @ [t], submitted := submitted s @ [t]\<rparr>)"
| b_push_fail: "boss s = B_Push t \<Longrightarrow> tp_step flt s (s\<lparr>boss := B_Idle, queue_owner := None\<rparr>)"
| b_signal: "boss s = B_Pushed \<Longrightarrow> signalled s s' \<Longrightarrow> tp_step flt s (s'\<lparr>boss := B_Unlock\<rparr>)"
| b_signal_err: "flt \<Longrightarrow> boss s = B_Pushed \<Longrightarrow> tp_step flt s (s\<lparr>boss := B_Idle, queue_owner := None\<rparr>)"
| b_unlock: "boss s = B_Unlock \<Longrightarrow> tp_step flt s (s\<lparr>boss := B_Idle, queue_owner := None\<rparr>)"
| b_unlock_err: "flt \<Longrightarrow> boss s = B_Unlock \<Longrightarrow> tp_step flt s (s\<lparr>boss := B_Idle\<rparr>)"
| b_wait: "boss s = B_Idle \<Longrightarrow> tp_step flt s (s\<lparr>boss := B_Wait\<rparr>)"
| b_lock_active: "boss s = B_Wait \<Longrightarrow> active_owner s = None \<Longrightarrow>
    tp_step flt s (s\<lparr>boss := B_Active, active_owner := Some Boss\<rparr>)"
| b_lock_active_err: "flt \<Longrightarrow> boss s = B_Wait \<Longrightarrow> tp_step flt s (s\<lparr>boss := B_Returned WR_Mutex_Error\<rparr>)"
| b_sleep: "boss s = B_Active \<Longrightarrow> 0 < active_tasks s \<Longrightarrow>
    tp_step flt s (s\<lparr>boss := B_Sleep, active_owner := None\<rparr>)"
| b_sleep_err: "flt \<Longrightarrow> boss s = B_Active \<Longrightarrow> 0 < active_tasks s \<Longrightarrow>
    tp_step flt s (s\<lparr>boss := B_Returned WR_Cond_Error, active_owner := None\<rparr>)"
| b_spurious: "boss s = B_Sleep \<Longrightarrow> tp_step flt s (s\<lparr>boss := B_Woken\<rparr>)"
| b_wake: "boss s = B_Woken \<Longrightarrow> active_owner s = None \<Longrightarrow>
    tp_step flt s (s\<lparr>boss := B_Active, active_owner := Some Boss\<rparr>)"
| b_more: "boss s = B_Active \<Longrightarrow> active_tasks s = 0 \<Longrightarrow> work_queue s \<noteq> [] \<Longrightarrow>
    tp_step flt s (s\<lparr>boss := B_More\<rparr>)"
| b_more_unlock: "boss s = B_More \<Longrightarrow> tp_step flt s (s\<lparr>boss := B_Wait, active_owner := None\<rparr>)"
| b_more_err: "flt \<Longrightarrow> boss s = B_More \<Longrightarrow> tp_step flt s (s\<lparr>boss := B_Returned WR_Mutex_Error\<rparr>)"
| b_none: "boss s = B_Active \<Longrightarrow> active_tasks s = 0 \<Longrightarrow> work_queue s = [] \<Longrightarrow>
    tp_step flt s (s\<lparr>boss := B_None\<rparr>)"
| b_none_unlock: "boss s = B_None \<Longrightarrow> tp_step flt s (s\<lparr>boss := B_Queue, active_owner := None\<rparr>)"
| b_none_err: "flt \<Longrightarrow> boss s = B_None \<Longrightarrow> tp_step flt s (s\<lparr>boss := B_Returned WR_Mutex_Error\<rparr>)"
| b_lock_queue: "boss s = B_Queue \<Longrightarrow> queue_owner s = None \<Longrightarrow>
    tp_step flt s (s\<lparr>boss := B_Empty, queue_owner := Some Boss\<rparr>)"
| b_lock_queue_err: "flt \<Longrightarrow> boss s = B_Queue \<Longrightarrow> tp_step flt s (s\<lparr>boss := B_Returned WR_Mutex_Error\<rparr>)"
| b_empty: "boss s = B_Empty \<Longrightarrow> tp_step flt s (s\<lparr>boss := B_Unlock_Empty (work_queue s = [])\<rparr>)"
| b_finish: "boss s = B_Unlock_Empty isempty \<Longrightarrow>
    tp_step flt s (s\<lparr>boss := if isempty then B_Returned WR_Success else B_Wait, queue_owner := None\<rparr>)"
| b_finish_err: "flt \<Longrightarrow> boss s = B_Unlock_Empty isempty \<Longrightarrow>
    tp_step flt s (s\<lparr>boss := B_Returned (if isempty then WR_Success else WR_Mutex_Error)\<rparr>)"
| b_return: "boss s = B_Returned r \<Longrightarrow> tp_step flt s (s\<lparr>boss := B_Idle\<rparr>)"
| b_stop_lock: "boss s = B_Idle \<Longrightarrow> queue_owner s = None \<Longrightarrow>
    tp_step flt s (s\<lparr>boss := B_Stop, queue_owner := Some Boss\<rparr>)"
| b_stop: "boss s = B_Stop \<Longrightarrow> tp_step flt s (wake_all (s\<lparr>boss := B_Stopping, b_shutdown := True\<rparr>))"
| b_stop_err: "flt \<Longrightarrow> boss s = B_Stop \<Longrightarrow>
    tp_step flt s (s\<lparr>boss := B_Idle, b_shutdown := True, queue_owner := None\<rparr>)"
| b_stop_unlock: "boss s = B_Stopping \<Longrightarrow> tp_step flt s (s\<lparr>boss := B_Join, queue_owner := None\<rparr>)"
| b_stop_unlock_err: "flt \<Longrightarrow> boss s = B_Stopping \<Longrightarrow> tp_step flt s (s\<lparr>boss := B_Idle\<rparr>)"
| b_join: "boss s = B_Join \<Longrightarrow> \<forall>w \<in> set (workers s). \<exists>e p c. w = W_Done e p c \<Longrightarrow>
    tp_step flt s (s\<lparr>boss := B_Joined\<rparr>)"

text \<open>The pool as \<open>coin_tpool_init\<close> leaves it, with n workers.\<close>

definition tp_init :: "nat \<Rightarrow> tpool" where
  "tp_init n = \<lparr>b_shutdown = False, work_queue = [], queue_owner = None, active_owner = None,
     active_tasks = 0, workers = replicate n W_Start, boss = B_Idle, submitted = [], ran = []\<rparr>"

abbreviation reach :: "bool \<Rightarrow> nat \<Rightarrow> tpool \<Rightarrow> bool" where
  "reach flt n \<equiv> reachable (\<lambda>s. s = tp_init n) (tp_step flt)"

lemma reach_start: "reach flt n (tp_init n)"
  by (simp add: reachable.start)

subsection \<open>Mutual exclusion\<close>

fun holds_q :: "wpc \<Rightarrow> bool" where
  "holds_q W_Check = True"
| "holds_q W_Decide = True"
| "holds_q (W_Have t) = True"
| "holds_q (W_Unlock t) = True"
| "holds_q (W_Exiting e p c) = True"
| "holds_q _ = False"

fun holds_a :: "wpc \<Rightarrow> bool" where
  "holds_a (W_Count t) = True"
| "holds_a (W_Counted t) = True"
| "holds_a (W_Release t) = True"
| "holds_a W_Uncount = True"
| "holds_a W_Uncounted = True"
| "holds_a W_Released = True"
| "holds_a _ = False"

definition boss_holds_q :: "bpc \<Rightarrow> bool" where
  "boss_holds_q b \<longleftrightarrow> (\<exists>t. b = B_Push t) \<or> (\<exists>e. b = B_Unlock_Empty e) \<or>
     b \<in> {B_Pushed, B_Unlock, B_Empty, B_Stop, B_Stopping}"

definition boss_holds_a :: "bpc \<Rightarrow> bool" where
  "boss_holds_a b \<longleftrightarrow> b \<in> {B_Active, B_More, B_None}"

text \<open>How the helpers that move threads act on the parts of the state.\<close>

lemma at_goto [simp]: "at (goto i w s) j w' \<longleftrightarrow> (if i = j then w' = w \<and> i < length (workers s) else at s j w')"
  by (auto simp: at_def goto_def)

lemma at_update [simp]:
  "at (s\<lparr>b_shutdown := v0\<rparr>) i w = at s i w"
  "at (s\<lparr>work_queue := v1\<rparr>) i w = at s i w"
  "at (s\<lparr>queue_owner := v2\<rparr>) i w = at s i w"
  "at (s\<lparr>active_owner := v3\<rparr>) i w = at s i w"
  "at (s\<lparr>active_tasks := v4\<rparr>) i w = at s i w"
  "at (s\<lparr>boss := v5\<rparr>) i w = at s i w"
  "at (s\<lparr>submitted := v6\<rparr>) i w = at s i w"
  "at (s\<lparr>ran := v7\<rparr>) i w = at s i w"
  by (simp_all add: at_def)

lemma at_wake_all [simp]: "at (wake_all s) i w \<longleftrightarrow> (\<exists>w0. at s i w0 \<and> w = wake w0)"
  by (auto simp: at_def wake_all_def)

lemma goto_fields [simp]:
  "b_shutdown (goto i w s) = b_shutdown s"
  "work_queue (goto i w s) = work_queue s"
  "queue_owner (goto i w s) = queue_owner s"
  "active_owner (goto i w s) = active_owner s"
  "active_tasks (goto i w s) = active_tasks s"
  "boss (goto i w s) = boss s"
  "submitted (goto i w s) = submitted s"
  "ran (goto i w s) = ran s"
  by (simp_all add: goto_def)

lemma wake_all_fields [simp]:
  "b_shutdown (wake_all s) = b_shutdown s"
  "work_queue (wake_all s) = work_queue s"
  "queue_owner (wake_all s) = queue_owner s"
  "active_owner (wake_all s) = active_owner s"
  "active_tasks (wake_all s) = active_tasks s"
  "boss (wake_all s) = boss s"
  "submitted (wake_all s) = submitted s"
  "ran (wake_all s) = ran s"
  by (simp_all add: wake_all_def)

lemma at_wake_boss [simp]: "at (wake_boss s) i w = at s i w"
  by (simp add: wake_boss_def)

lemma wake_boss_fields [simp]:
  "b_shutdown (wake_boss s) = b_shutdown s"
  "work_queue (wake_boss s) = work_queue s"
  "queue_owner (wake_boss s) = queue_owner s"
  "active_owner (wake_boss s) = active_owner s"
  "active_tasks (wake_boss s) = active_tasks s"
  "submitted (wake_boss s) = submitted s"
  "ran (wake_boss s) = ran s"
  by (simp_all add: wake_boss_def)

lemma at_fun: "at s i w \<Longrightarrow> at s i w' \<Longrightarrow> w' = w"
  by (simp add: at_def)

lemma signalled_fields:
  assumes "signalled s s'"
  shows "b_shutdown s' = b_shutdown s" "work_queue s' = work_queue s" "queue_owner s' = queue_owner s" "active_owner s' = active_owner s" "active_tasks s' = active_tasks s" "boss s' = boss s" "submitted s' = submitted s" "ran s' = ran s"
    "at s i w \<Longrightarrow> w \<noteq> W_Wait \<Longrightarrow> at s' i w"
    "at s' i w \<Longrightarrow> at s i w \<or> w = W_Wake \<and> at s i W_Wait"
  using assms by (auto simp: signalled_def dest: at_fun split: if_splits)

definition mutex_q :: "tpool \<Rightarrow> bool" where
  "mutex_q s \<longleftrightarrow> (\<forall>i w. at s i w \<longrightarrow> holds_q w \<longrightarrow> queue_owner s = Some (Worker i)) \<and>
     (boss_holds_q (boss s) \<longrightarrow> queue_owner s = Some Boss)"

definition mutex_a :: "tpool \<Rightarrow> bool" where
  "mutex_a s \<longleftrightarrow> (\<forall>i w. at s i w \<longrightarrow> holds_a w \<longrightarrow> active_owner s = Some (Worker i)) \<and>
     (boss_holds_a (boss s) \<longrightarrow> active_owner s = Some Boss)"

lemma wake_holds [simp]: "holds_q (wake w) = holds_q w" "holds_a (wake w) = holds_a w"
  by (simp_all add: wake_def)

lemma boss_holds_simps [simp]:
  "\<not> boss_holds_q B_Idle" "\<not> boss_holds_q (B_Submit t)" "boss_holds_q (B_Push t)" "boss_holds_q B_Pushed"
  "boss_holds_q B_Unlock" "\<not> boss_holds_q B_Wait" "\<not> boss_holds_q B_Active" "\<not> boss_holds_q B_Sleep"
  "\<not> boss_holds_q B_Woken" "\<not> boss_holds_q B_More" "\<not> boss_holds_q B_None" "\<not> boss_holds_q B_Queue"
  "boss_holds_q B_Empty" "boss_holds_q (B_Unlock_Empty e)" "\<not> boss_holds_q (B_Returned r)"
  "boss_holds_q B_Stop" "boss_holds_q B_Stopping" "\<not> boss_holds_q B_Join" "\<not> boss_holds_q B_Joined"
  "\<not> boss_holds_a B_Idle" "\<not> boss_holds_a (B_Submit t)" "\<not> boss_holds_a (B_Push t)" "\<not> boss_holds_a B_Pushed"
  "\<not> boss_holds_a B_Unlock" "\<not> boss_holds_a B_Wait" "boss_holds_a B_Active" "\<not> boss_holds_a B_Sleep"
  "\<not> boss_holds_a B_Woken" "boss_holds_a B_More" "boss_holds_a B_None" "\<not> boss_holds_a B_Queue"
  "\<not> boss_holds_a B_Empty" "\<not> boss_holds_a (B_Unlock_Empty e)" "\<not> boss_holds_a (B_Returned r)"
  "\<not> boss_holds_a B_Stop" "\<not> boss_holds_a B_Stopping" "\<not> boss_holds_a B_Join" "\<not> boss_holds_a B_Joined"
  by (simp_all add: boss_holds_q_def boss_holds_a_def)

lemma wake_boss_holds [simp]:
  "boss_holds_q (boss (wake_boss s)) = boss_holds_q (boss s)"
  "boss_holds_a (boss (wake_boss s)) = boss_holds_a (boss s)"
  by (simp_all add: wake_boss_def)

lemma holds_intros [intro]:
  "holds_q W_Check" "holds_q W_Decide" "holds_q (W_Have t)" "holds_q (W_Unlock t)" "holds_q (W_Exiting e p c)"
  "holds_a (W_Count t)" "holds_a (W_Counted t)" "holds_a (W_Release t)" "holds_a W_Uncount"
  "holds_a W_Uncounted" "holds_a W_Released"
  by simp_all

lemma signalled_keeps:
  assumes "signalled s s'"
  shows "mutex_q s \<Longrightarrow> mutex_q s'" and "mutex_a s \<Longrightarrow> mutex_a s'"
  using assms by (auto simp: signalled_def mutex_q_def mutex_a_def split: if_splits)

lemma mutex_q_step:
  assumes "tp_step flt s s'" and "mutex_q s"
  shows "mutex_q s'"
  using assms(1)
proof (cases rule: tp_step.cases)
  case (w_signal i t s')
  with signalled_keeps(1) [OF w_signal(4) assms(2)] signalled_fields(3,4,6,9) [OF w_signal(4)]
    assms(2) show ?thesis
    by (auto simp: mutex_q_def)
next
  case (b_signal s')
  with signalled_keeps(1) [OF b_signal(3) assms(2)] signalled_fields(3,4,6) [OF b_signal(3)] show ?thesis
    by (auto simp: mutex_q_def)
qed (use assms(2) in \<open>auto simp: mutex_q_def Let_def split: if_splits\<close>,
  (metis holds_intros option.inject thread.distinct(1) thread.inject)+)

lemma mutex_a_step:
  assumes "tp_step flt s s'" and "mutex_a s"
  shows "mutex_a s'"
  using assms(1)
proof (cases rule: tp_step.cases)
  case (w_signal i t s')
  with signalled_keeps(2) [OF w_signal(4) assms(2)] signalled_fields(3,4,6,9) [OF w_signal(4)]
    assms(2) show ?thesis
    by (auto simp: mutex_a_def)
next
  case (b_signal s')
  with signalled_keeps(2) [OF b_signal(3) assms(2)] signalled_fields(3,4,6) [OF b_signal(3)] show ?thesis
    by (auto simp: mutex_a_def)
qed (use assms(2) in \<open>auto simp: mutex_a_def Let_def split: if_splits\<close>,
  (metis holds_intros option.inject thread.distinct(1) thread.inject)+)

lemma at_init [simp]: "at (tp_init n) i w \<longleftrightarrow> i < n \<and> w = W_Start"
  by (auto simp: at_def tp_init_def)

subsection \<open>Where the tasks are\<close>

text \<open>The task a worker holds, and whether the worker is counted as active.\<close>

fun held :: "wpc \<Rightarrow> nat multiset" where
  "held (W_Have t) = {#t#}"
| "held (W_Unlock t) = {#t#}"
| "held (W_Popped t) = {#t#}"
| "held (W_Count t) = {#t#}"
| "held (W_Counted t) = {#t#}"
| "held (W_Release t) = {#t#}"
| "held (W_Run t) = {#t#}"
| "held (W_Exit e p c) = mset_set (set_option p)"
| "held (W_Exiting e p c) = mset_set (set_option p)"
| "held (W_Done e p c) = mset_set (set_option p)"
| "held _ = {#}"

fun counted :: "wpc \<Rightarrow> nat" where
  "counted (W_Counted t) = 1"
| "counted (W_Release t) = 1"
| "counted (W_Run t) = 1"
| "counted W_Ran = 1"
| "counted W_Uncount = 1"
| "counted (W_Exit e p c) = of_bool c"
| "counted (W_Exiting e p c) = of_bool c"
| "counted (W_Done e p c) = of_bool c"
| "counted _ = 0"

definition total :: "(wpc \<Rightarrow> 'a::comm_monoid_add) \<Rightarrow> tpool \<Rightarrow> 'a" where
  "total f s = (\<Sum>w\<leftarrow>workers s. f w)"

definition others :: "(wpc \<Rightarrow> 'a::comm_monoid_add) \<Rightarrow> nat \<Rightarrow> tpool \<Rightarrow> 'a" where
  "others f i s = (\<Sum>w\<leftarrow>take i (workers s) @ drop (Suc i) (workers s). f w)"

lemma total_at: "at s i w \<Longrightarrow> total f s = f w + others f i s"
  unfolding at_def total_def others_def
  by (subst id_take_nth_drop [of i "workers s"]) (auto simp: ac_simps)

lemma total_goto: "at s i w0 \<Longrightarrow> total f (goto i w s) = f w + others f i s"
  by (simp add: at_def total_def others_def goto_def upd_conv_take_nth_drop ac_simps)

lemma total_goto_all: "at s i w0 \<Longrightarrow> total f (goto i w (wake_all s)) = f w + others f i (wake_all s)"
  by (rule total_goto) auto

lemma total_move: "at s i w0 \<Longrightarrow> f w = f w0 \<Longrightarrow> total f (goto i w s) = total f s"
  by (simp add: total_at total_goto)

lemma total_update [simp]:
  "total f (s\<lparr>b_shutdown := v0\<rparr>) = total f s"
  "total f (s\<lparr>work_queue := v1\<rparr>) = total f s"
  "total f (s\<lparr>queue_owner := v2\<rparr>) = total f s"
  "total f (s\<lparr>active_owner := v3\<rparr>) = total f s"
  "total f (s\<lparr>active_tasks := v4\<rparr>) = total f s"
  "total f (s\<lparr>boss := v5\<rparr>) = total f s"
  "total f (s\<lparr>submitted := v6\<rparr>) = total f s"
  "total f (s\<lparr>ran := v7\<rparr>) = total f s"
  "total f (wake_boss s) = total f s"
  by (simp_all add: total_def wake_boss_def)

lemma others_update [simp]:
  "others f i (s\<lparr>b_shutdown := v0\<rparr>) = others f i s"
  "others f i (s\<lparr>work_queue := v1\<rparr>) = others f i s"
  "others f i (s\<lparr>queue_owner := v2\<rparr>) = others f i s"
  "others f i (s\<lparr>active_owner := v3\<rparr>) = others f i s"
  "others f i (s\<lparr>active_tasks := v4\<rparr>) = others f i s"
  "others f i (s\<lparr>ran := v5\<rparr>) = others f i s"
  "others f i (s\<lparr>boss := v6\<rparr>) = others f i s"
  "others f i (wake_boss s) = others f i s"
  by (simp_all add: others_def wake_boss_def)

lemma total_wake_all:
  assumes "f W_Wake = f W_Wait"
  shows "total f (wake_all s) = total f s" and "others f i (wake_all s) = others f i s"
proof -
  have "f \<circ> wake = f"
    using assms by (auto simp: wake_def)
  then show "total f (wake_all s) = total f s" and "others f i (wake_all s) = others f i s"
    by (simp_all add: total_def others_def wake_all_def drop_map take_map)
qed

lemma total_signalled: "signalled s s' \<Longrightarrow> f W_Wake = f W_Wait \<Longrightarrow> total f s' = total f s"
  by (auto simp: signalled_def total_goto total_at)

text \<open>
  A task that was submitted is in the queue, or with one worker, or was executed, once; the queue
  holds the tasks submitted last, so tasks are taken in the order of their submission.
\<close>

definition tasks_ok :: "tpool \<Rightarrow> bool" where
  "tasks_ok s \<longleftrightarrow> mset (submitted s) = mset (work_queue s) + total held s + mset (ran s) \<and>
     suffix (work_queue s) (submitted s) \<and> distinct (submitted s) \<and>
     (\<forall>t. boss s = B_Submit t \<or> boss s = B_Push t \<longrightarrow> t \<notin> set (submitted s)) \<and>
     active_tasks s = of_nat (total counted s)"

lemma tasks_step:
  assumes "tp_step flt s s'" and "tasks_ok s"
  shows "tasks_ok s'"
  using assms(1)
proof (cases rule: tp_step.cases)
  case (w_signal i t s1)
  then show ?thesis
    using total_signalled [OF w_signal(4), of held] total_signalled [OF w_signal(4), of counted]
      signalled_fields(2,4,5,6,7,8,9) [OF w_signal(4)] assms(2)
    by (simp add: tasks_ok_def total_move [where ?w0.0 = "W_Have t"])
next
  case (b_signal s1)
  then show ?thesis
    using total_signalled [OF b_signal(3), of held] total_signalled [OF b_signal(3), of counted]
      signalled_fields(2,4,5,6,7,8) [OF b_signal(3)] assms(2) by (simp add: tasks_ok_def)
qed (use assms(2) in \<open>auto simp: tasks_ok_def total_at total_goto total_goto_all total_wake_all Let_def suffix_Cons
  wake_boss_def dest: suffix_ConsD split: if_splits\<close>)

lemma workers_step: "tp_step flt s s' \<Longrightarrow> length (workers s') = length (workers s)"
  by (erule tp_step.cases) (auto simp: goto_def wake_all_def wake_boss_def signalled_def Let_def)

lemma init_ok: "mutex_q (tp_init n)" "mutex_a (tp_init n)" "tasks_ok (tp_init n)" "length (workers (tp_init n)) = n"
proof -
  show "mutex_q (tp_init n)" "mutex_a (tp_init n)"
    by (auto simp: mutex_q_def mutex_a_def) (simp_all add: tp_init_def)
  have "(\<Sum>w\<leftarrow>replicate n W_Start. held w) = {#}"
    by (induction n) simp_all
  then show "tasks_ok (tp_init n)"
    by (simp add: tasks_ok_def tp_init_def total_def sum_list_replicate)
  show "length (workers (tp_init n)) = n"
    by (simp add: tp_init_def)
qed

text \<open>The invariant of the pool, whatever fails.\<close>

interpretation pool: step_invariant "\<lambda>s. s = tp_init n" "tp_step flt"
  "\<lambda>s. mutex_q s \<and> mutex_a s \<and> tasks_ok s \<and> length (workers s) = n" for flt n
  by unfold_locales (use init_ok in simp, blast intro: mutex_q_step mutex_a_step tasks_step workers_step [THEN trans])

lemma reach_mutex: "reach flt n s \<Longrightarrow> mutex_q s \<and> mutex_a s"
  and reach_tasks: "reach flt n s \<Longrightarrow> tasks_ok s"
  and reach_workers: "reach flt n s \<Longrightarrow> length (workers s) = n"
  by (blast dest: pool.reachable_inv)+

end
