(* ===== verification/Tpool_Live.thy ===== *)
theory Tpool_Live
  imports Tpool_Steps
begin

text \<open>
  The pool without errors of the pthread calls (\<open>tp_step False\<close>): the queue is never popped when it is
  empty, workers leave only after a stop, no wake-up is lost, and the pool can always finish the
  tasks it was given and stop.
\<close>

subsection \<open>Invariants\<close>

fun leaving :: "wpc \<Rightarrow> bool" where
  "leaving (W_Exit e p c) = True"
| "leaving (W_Exiting e p c) = True"
| "leaving (W_Done e p c) = True"
| "leaving _ = False"

text \<open>Workers that will look at the queue, or signal another worker, before they sleep; workers
  asleep; and workers that will still wake the boss.\<close>

fun attentive :: "wpc \<Rightarrow> nat" where
  "attentive W_Check = 1"
| "attentive W_Wake = 1"
| "attentive W_Decide = 1"
| "attentive (W_Have t) = 1"
| "attentive _ = 0"

fun asleep :: "wpc \<Rightarrow> nat" where
  "asleep W_Wait = 1"
| "asleep _ = 0"

fun to_report :: "wpc \<Rightarrow> nat" where
  "to_report W_Uncounted = 1"
| "to_report w = counted w"

text \<open>The flag is set by the boss alone; a worker decides only on work or on the flag.\<close>

definition stop_ok :: "tpool \<Rightarrow> bool" where
  "stop_ok s \<longleftrightarrow>
     (\<forall>i. at s i W_Decide \<longrightarrow> b_shutdown s \<or> work_queue s \<noteq> []) \<and>
     (b_shutdown s \<longleftrightarrow> boss s \<in> {B_Stopping, B_Join, B_Joined}) \<and>
     (\<forall>i w. at s i w \<longrightarrow> leaving w \<longrightarrow>
        b_shutdown s \<and> w \<in> {W_Exit 0 None False, W_Exiting 0 None False, W_Done 0 None False}) \<and>
     (\<forall>i. at s i W_Wait \<longrightarrow> \<not> b_shutdown s)"

text \<open>While there is work and a worker sleeps, somebody is about to signal or to look.\<close>

definition wake_ok :: "tpool \<Rightarrow> bool" where
  "wake_ok s \<longleftrightarrow> (work_queue s \<noteq> [] \<longrightarrow> total asleep s \<noteq> 0 \<longrightarrow>
     b_shutdown s \<or> boss s = B_Pushed \<or> total attentive s \<noteq> 0)"

text \<open>While the boss sleeps, a worker that will broadcast is under way.\<close>

definition boss_ok :: "tpool \<Rightarrow> bool" where
  "boss_ok s \<longleftrightarrow> (boss s = B_Sleep \<longrightarrow> total to_report s \<noteq> 0)"

lemma leaving_wake [simp]: "leaving (wake w) = leaving w"
  by (simp add: wake_def)

lemma leaving_wake_id [simp]: "leaving w \<Longrightarrow> wake w = w"
  by (auto simp: wake_def)

lemma signalled_stop_ok: "signalled s s' \<Longrightarrow> stop_ok s \<Longrightarrow> stop_ok s'"
  by (auto simp: stop_ok_def signalled_def split: if_splits)

lemma stop_okD:
  assumes "stop_ok s"
  shows "at s i W_Decide \<Longrightarrow> \<not> b_shutdown s \<Longrightarrow> work_queue s = [] \<Longrightarrow> False"
    and "b_shutdown s \<longleftrightarrow> boss s \<in> {B_Stopping, B_Join, B_Joined}"
    and "at s i (W_Exit e p c) \<Longrightarrow> b_shutdown s \<and> e = 0 \<and> p = None \<and> \<not> c"
    and "at s i (W_Exiting e p c) \<Longrightarrow> b_shutdown s \<and> e = 0 \<and> p = None \<and> \<not> c"
    and "at s i (W_Done e p c) \<Longrightarrow> b_shutdown s \<and> e = 0 \<and> p = None \<and> \<not> c"
    and "at s i W_Wait \<Longrightarrow> \<not> b_shutdown s"
  using assms unfolding stop_ok_def by force+

lemma leaves:
  assumes "stop_ok s"
  shows "at s i w \<Longrightarrow> leaving w \<Longrightarrow>
    b_shutdown s \<and> w \<in> {W_Exit 0 None False, W_Exiting 0 None False, W_Done 0 None False}"
  using assms unfolding stop_ok_def by blast

lemma flag_step:
  assumes "tp_step False s s'" and "stop_ok s"
  shows "b_shutdown s' \<longleftrightarrow> boss s' \<in> {B_Stopping, B_Join, B_Joined}"
  using assms(1)
proof (cases rule: tp_step.cases)
  case (w_signal i t s1)
  with stop_okD(2) [OF assms(2)] signalled_fields(1,6) [OF w_signal(4)] show ?thesis
    by simp
next
  case (b_signal s1)
  with stop_okD(2) [OF assms(2)] signalled_fields(1) [OF b_signal(3)] show ?thesis
    by simp
qed (use stop_okD(2) [OF assms(2)] in \<open>auto simp: Let_def wake_boss_def dest: stop_okD(1,3,4,5) [OF assms(2)]\<close>)

lemma decide_step:
  assumes "tp_step False s s'" and "mutex_q s" and "stop_ok s"
  shows "at s' k W_Decide \<Longrightarrow> b_shutdown s' \<or> work_queue s' \<noteq> []"
  using assms(1)
proof (cases rule: tp_step.cases)
  case (w_signal i t s1)
  moreover assume "at s' k W_Decide"
  ultimately show ?thesis
    using signalled_fields(1,2,6,10) [OF w_signal(4)] by (auto dest: stop_okD(1) [OF assms(3)] split: if_splits)
next
  case (b_signal s1)
  moreover assume "at s' k W_Decide"
  ultimately show ?thesis
    using signalled_fields(1,2,6,10) [OF b_signal(3)] by (auto dest: stop_okD(1) [OF assms(3)])
next
  case (w_pop i t ts)
  have "at s j W_Decide \<Longrightarrow> j = i" for j
    using assms(2) w_pop(2) unfolding mutex_q_def by (metis holds_intros(2) option.inject thread.inject)
  moreover assume "at s' k W_Decide"
  ultimately show ?thesis
    using w_pop(1) by (auto split: if_splits)
qed (auto simp: Let_def wake_def dest: stop_okD(1) [OF assms(3)] split: if_splits)

lemma leave_step:
  assumes "tp_step False s s'" and "stop_ok s"
  shows "at s' k w \<Longrightarrow> leaving w \<Longrightarrow>
    b_shutdown s' \<and> w \<in> {W_Exit 0 None False, W_Exiting 0 None False, W_Done 0 None False}"
  using assms(1)
proof (cases rule: tp_step.cases)
  case (w_signal i t s1)
  moreover assume "at s' k w" "leaving w"
  ultimately show ?thesis
    using signalled_fields(1,10) [OF w_signal(4)] assms(2)
    by (fastforce simp: stop_ok_def split: if_splits)
next
  case (b_signal s1)
  moreover assume "at s' k w" "leaving w"
  ultimately show ?thesis
    using signalled_fields(1,10) [OF b_signal(3)] assms(2)
    by (fastforce simp: stop_ok_def split: if_splits)
qed (use assms(2) in \<open>auto simp: Let_def dest: stop_okD(1,3,4,5) [OF assms(2)] leaves [OF assms(2)] split: if_splits\<close>)

lemma sleep_step:
  assumes "tp_step False s s'" and "stop_ok s"
  shows "at s' k W_Wait \<Longrightarrow> \<not> b_shutdown s'"
  using assms(1)
proof (cases rule: tp_step.cases)
  case (w_signal i t s1)
  moreover assume "at s' k W_Wait"
  ultimately show ?thesis
    using signalled_fields(1,10) [OF w_signal(4)] by (auto dest: stop_okD(6) [OF assms(2)] split: if_splits)
next
  case (b_signal s1)
  moreover assume "at s' k W_Wait"
  ultimately show ?thesis
    using signalled_fields(1,10) [OF b_signal(3)] by (auto dest: stop_okD(6) [OF assms(2)] split: if_splits)
qed (auto simp: Let_def wake_def dest: stop_okD(6) [OF assms(2)] split: if_splits)

lemma stop_ok_step:
  assumes "tp_step False s s'" and "mutex_q s" and "stop_ok s"
  shows "stop_ok s'"
  unfolding stop_ok_def
  using flag_step [OF assms(1,3)] decide_step [OF assms] leave_step [OF assms(1,3)] sleep_step [OF assms(1,3)]
  by blast

lemma signalled_wakes:
  assumes "signalled s s'"
  shows "total asleep s' = 0 \<or> (\<exists>j. at s' j W_Wake)"
proof -
  have "asleep w = 0" if "w \<noteq> W_Wait" for w
    using that by (cases w) auto
  then have "total asleep s = 0" if "W_Wait \<notin> set (workers s)"
    using that unfolding total_def by (metis (no_types, lifting) imageE list.set_map sum_list_eq_0_iff)
  with assms show ?thesis
    by (auto simp: signalled_def at_def goto_def)
qed

lemma wake_ok_step:
  assumes "tp_step False s s'" and "wake_ok s"
  shows "wake_ok s'"
  using assms(1)
proof (cases rule: tp_step.cases)
  case (w_signal i t s1)
  have i: "at s1 i (W_Have t)"
    by (rule signalled_fields(9) [OF w_signal(4,2)]) simp
  from signalled_wakes [OF w_signal(4)] show ?thesis
  proof
    assume "total asleep s1 = 0"
    then show ?thesis
      using w_signal(1) by (simp add: wake_ok_def total_move [OF i])
  next
    assume "\<exists>j. at s1 j W_Wake"
    then obtain j where j: "at s1 j W_Wake" ..
    then have "at s' j W_Wake"
      using w_signal(1) at_fun [OF i, of W_Wake] by auto
    from total_at [OF this, of attentive] show ?thesis
      by (simp add: wake_ok_def)
  qed
next
  case (b_signal s1)
  then show ?thesis
    using signalled_wakes [of s s1] by (auto simp: wake_ok_def total_at)
qed (use assms(2) in \<open>auto simp: wake_ok_def total_at total_goto total_goto_all Let_def wake_boss_def\<close>)

lemma counted_to_report: "counted w \<le> to_report w"
  by (cases w) auto

lemma boss_ok_step:
  assumes "tp_step False s s'" and "tasks_ok s" and "boss_ok s"
  shows "boss_ok s'"
  using assms(1)
proof (cases rule: tp_step.cases)
  case (w_signal i t s1)
  then have "at s1 i (W_Have t)"
    using signalled_fields(9) by blast
  with w_signal assms(3) signalled_fields(6) [OF w_signal(4)] total_signalled [OF w_signal(4), of to_report]
  show ?thesis
    by (simp add: boss_ok_def total_move)
next
  case (b_signal s1)
  then show ?thesis
    by (simp add: boss_ok_def)
next
  case b_sleep
  then have "total counted s \<noteq> 0"
    using assms(2) by (intro notI) (simp add: tasks_ok_def)
  moreover have "total counted s \<le> total to_report s"
    unfolding total_def by (rule sum_list_mono) (rule counted_to_report)
  ultimately show ?thesis
    using b_sleep by (simp add: boss_ok_def)
qed (use assms(3) in \<open>auto simp: boss_ok_def total_at total_goto total_goto_all total_wake_all Let_def wake_boss_def split: if_splits\<close>)

definition calm :: "tpool \<Rightarrow> bool" where
  "calm s \<longleftrightarrow> mutex_q s \<and> mutex_a s \<and> tasks_ok s \<and> stop_ok s \<and> wake_ok s \<and> boss_ok s"

lemma calm_step: "tp_step False s s' \<Longrightarrow> calm s \<Longrightarrow> calm s'"
  unfolding calm_def
  by (blast intro: mutex_q_step mutex_a_step tasks_step stop_ok_step wake_ok_step boss_ok_step)

lemma init_calm: "calm (tp_init n)"
proof -
  have "stop_ok (tp_init n)" "wake_ok (tp_init n)" "boss_ok (tp_init n)"
    by (auto simp: stop_ok_def wake_ok_def boss_ok_def) (auto simp: tp_init_def)
  then show ?thesis
    using init_ok by (simp add: calm_def)
qed

interpretation calm_pool: step_invariant "\<lambda>s. s = tp_init n" "tp_step False" calm for n
  by unfold_locales (use init_calm calm_step in blast)+

end
