(* ===== verification/Pool_Interface.thy ===== *)
theory Pool_Interface
  imports Step_Systems "HOL-Library.Multiset"
begin

text \<open>
  The contract of the thread pool for the code that submits tasks to it: a task that is accepted
  is pending until it runs, and it runs once. As an abstract machine the pool is a bag of tasks.
\<close>

type_synonym bag = "nat multiset \<times> nat list"

definition bag_init :: "bag \<Rightarrow> bool" where
  "bag_init b \<longleftrightarrow> b = ({#}, [])"

inductive bag_step :: "bag \<Rightarrow> bag \<Rightarrow> bool" where
  accept: "t \<notin># p \<Longrightarrow> t \<notin> set r \<Longrightarrow> bag_step (p, r) (add_mset t p, r)"
| run: "bag_step (add_mset t p, r) (p, r @ [t])"

inductive_simps bag_step_iff: "bag_step (p, r) (p', r')"

locale task_pool =
  fixes init :: "'s \<Rightarrow> bool" and step :: "'s \<Rightarrow> 's \<Rightarrow> bool"
    and submitted :: "'s \<Rightarrow> nat list" and ran :: "'s \<Rightarrow> nat list" and pending :: "'s \<Rightarrow> nat multiset"
  assumes init_empty: "init s \<Longrightarrow> submitted s = [] \<and> ran s = []"
    and conserve: "reachable init step s \<Longrightarrow> mset (submitted s) = pending s + mset (ran s)"
    and once: "reachable init step s \<Longrightarrow> distinct (submitted s)"
    and grows: "step s s' \<Longrightarrow>
      submitted s' = submitted s \<and> ran s' = ran s \<or>
      (\<exists>t. submitted s' = submitted s @ [t]) \<and> ran s' = ran s \<or>
      submitted s' = submitted s \<and> (\<exists>t. ran s' = ran s @ [t])"
begin

lemma pending_submitted: "reachable init step s \<Longrightarrow> t \<in># pending s \<Longrightarrow> t \<in> set (submitted s)"
  by (metis conserve in_multiset_in_set union_iff)

lemma pending_not_ran: "reachable init step s \<Longrightarrow> t \<in># pending s \<Longrightarrow> t \<notin> set (ran s)"
proof
  assume s: "reachable init step s" and t: "t \<in># pending s" "t \<in> set (ran s)"
  then have "count (pending s) t \<noteq> 0" "count (mset (ran s)) t \<noteq> 0"
    by (simp_all add: count_mset_0_iff)
  then have "2 \<le> count (mset (submitted s)) t"
    unfolding conserve [OF s] count_union by linarith
  moreover have "count (mset (submitted s)) t \<le> 1"
    using once [OF s] by (simp add: distinct_count_atmost_1)
  ultimately show False
    by simp
qed

lemma idle:
  assumes "reachable init step s" and "step s s'" and "submitted s' = submitted s" and "ran s' = ran s"
  shows "pending s' = pending s"
  using conserve [OF assms(1)] conserve [OF reachable.step [OF assms(1,2)]] assms(3,4) by simp

lemma accepts:
  assumes "reachable init step s" and "step s s'" and "submitted s' = submitted s @ [t]"
  shows "pending s' = add_mset t (pending s) \<and> t \<notin> set (submitted s)"
proof
  have s': "reachable init step s'"
    using assms(1,2) by (rule reachable.step)
  have "ran s' = ran s"
    using grows [OF assms(2)] assms(3) by auto
  then show "pending s' = add_mset t (pending s)"
    using conserve [OF assms(1)] conserve [OF s'] assms(3) by simp
  show "t \<notin> set (submitted s)"
    using once [OF s'] assms(3) by simp
qed

lemma runs:
  assumes "reachable init step s" and "step s s'" and "ran s' = ran s @ [t]"
  shows "pending s = add_mset t (pending s')"
proof -
  have "submitted s' = submitted s"
    using grows [OF assms(2)] assms(3) by auto
  then show ?thesis
    using conserve [OF assms(1)] conserve [OF reachable.step [OF assms(1,2)]] assms(3) by simp
qed

end

text \<open>Such a pool refines the bag.\<close>

sublocale task_pool \<subseteq> projection init step bag_init bag_step "\<lambda>s. (pending s, ran s)"
proof
  fix s
  assume "init s"
  then show "bag_init (pending s, ran s)"
    using init_empty conserve [OF reachable.start] by (auto simp: bag_init_def)
next
  fix s s'
  assume s: "reachable init step s" and step: "step s s'"
  from grows [OF step] show "bag_step (pending s, ran s) (pending s', ran s') \<or> (pending s', ran s') = (pending s, ran s)"
  proof (elim disjE conjE exE)
    fix t
    assume "submitted s' = submitted s @ [t]" "ran s' = ran s"
    then show ?thesis
      using accepts [OF s step] pending_submitted [OF s] conserve [OF s]
      by (auto simp: bag_step_iff) (metis in_multiset_in_set union_iff)
  next
    fix t
    assume "ran s' = ran s @ [t]"
    then show ?thesis
      using runs [OF s step] by (auto simp: bag_step_iff)
  qed (use idle [OF s step] in simp)
qed

end
