(* ===== verification/Tpool_Contract.thy ===== *)
theory Tpool_Contract
  imports Tpool_Steps Pool_Interface
begin

text \<open>
  The pool of \<open>concurinc.c\<close> keeps the contract of \<open>Pool_Interface\<close>, under every interleaving and
  after failing pthread calls too: the pending tasks are those in the queue and those that a worker
  holds.
\<close>

definition pending :: "tpool \<Rightarrow> nat multiset" where
  "pending s = mset (work_queue s) + total held s"

lemma signalled_tasks: "signalled s s' \<Longrightarrow> submitted s' = submitted s \<and> ran s' = ran s"
  by (auto simp: signalled_def)

lemma step_grows:
  "tp_step flt s s' \<Longrightarrow>
     submitted s' = submitted s \<and> ran s' = ran s \<or>
     (\<exists>t. submitted s' = submitted s @ [t]) \<and> ran s' = ran s \<or>
     submitted s' = submitted s \<and> (\<exists>t. ran s' = ran s @ [t])"
  by (erule tp_step.cases) (auto simp: Let_def dest: signalled_tasks)

interpretation contract: task_pool "\<lambda>s. s = tp_init n" "tp_step flt" submitted ran pending for flt n
proof
  show "submitted s = [] \<and> ran s = []" if "s = tp_init n" for s
    using that by (simp add: tp_init_def)
  show "mset (submitted s) = pending s + mset (ran s)" and "distinct (submitted s)" if "reach flt n s" for s
    using reach_tasks [OF that] by (simp_all add: tasks_ok_def pending_def)
qed (rule step_grows)

text \<open>A worker that is about to run a task runs one that is pending.\<close>

lemma run_pending: "at s i (W_Run t) \<Longrightarrow> t \<in># pending s"
  by (simp add: pending_def total_at)

text \<open>
  A step of a worker that runs no task, or of the boss inside one of its calls: entering a call and
  leaving it are up to the client.
\<close>

definition inner_step :: "bool \<Rightarrow> tpool \<Rightarrow> tpool \<Rightarrow> bool" where
  "inner_step flt s u \<longleftrightarrow> tp_step flt s u \<and> ran u = ran s \<and>
     (boss u = boss s \<or> boss s \<notin> insert B_Idle (range B_Returned))"

abbreviation inner_steps :: "bool \<Rightarrow> tpool \<Rightarrow> tpool \<Rightarrow> bool" where
  "inner_steps flt \<equiv> (inner_step flt)\<^sup>*\<^sup>*"

lemma inner_stepI:
  "tp_step flt s u \<Longrightarrow> ran u = ran s \<Longrightarrow> boss u = boss s \<or> boss s \<notin> insert B_Idle (range B_Returned) \<Longrightarrow> inner_step flt s u"
  by (simp add: inner_step_def)

lemma reach_inner: "inner_steps flt s u \<Longrightarrow> reach flt n s \<Longrightarrow> reach flt n u"
  by (induction rule: rtranclp_induct) (auto simp: inner_step_def intro: reachable.step)

definition ended :: "wpc \<Rightarrow> bool" where
  "ended w \<longleftrightarrow> (\<exists>e p c. w = W_Done e p c)"

lemma ended_simps [simp]: "ended (W_Done e p c)" "ended (wake w) \<longleftrightarrow> ended w"
  by (auto simp: ended_def wake_def)

lemma at_ended: "at s i w \<Longrightarrow> \<forall>w \<in> set (workers s). ended w \<Longrightarrow> \<exists>e p c. w = W_Done e p c"
  by (auto simp: at_def ended_def)

text \<open>When the boss has joined the workers, all of them have ended.\<close>

interpretation joined: step_invariant "\<lambda>s. s = tp_init n" "tp_step flt"
  "\<lambda>s. boss s = B_Joined \<longrightarrow> (\<forall>w \<in> set (workers s). ended w)" for flt n
proof
  show "boss s' = B_Joined \<longrightarrow> (\<forall>w \<in> set (workers s'). ended w)"
    if inv: "boss s = B_Joined \<longrightarrow> (\<forall>w \<in> set (workers s). ended w)" and step: "tp_step flt s s'" for s s'
    using step
  proof cases
    case b_join
    then show ?thesis
      by (simp add: ended_def)
  qed (use inv in \<open>auto simp: wake_boss_def wake_all_def Let_def signalled_def dest!: at_ended split: if_splits\<close>)
qed (simp add: tp_init_def)

lemma joined_no_run: "reach flt n s \<Longrightarrow> boss s = B_Joined \<Longrightarrow> \<not> at s i (W_Run t)"
  using joined.reachable_inv at_ended by blast

end
