(* ===== verification/Tpool_Demo.thy ===== *)
theory Tpool_Demo
  imports Tpool_Contract
begin

text \<open>
  A run of the pool with one worker, in parts: task 7 is submitted, taken and counted, and the
  boss waits for it. Between the parts the boss is outside its calls.
\<close>

definition demo_queued :: tpool where
  "demo_queued = (tp_init 1)\<lparr>work_queue := [7], submitted := [7]\<rparr>"

text \<open>The only worker has taken the task, but not counted it yet.\<close>

definition demo_taken :: tpool where
  "demo_taken = (tp_init 1)\<lparr>workers := [W_Popped 7], submitted := [7]\<rparr>"

lemmas demo_simps = at_def goto_def tp_init_def signalled_def wake_boss_def demo_queued_def demo_taken_def

lemma demo_submit: "inner_steps flt (tp_init 1 \<lparr>boss := B_Submit 7\<rparr>) demo_queued"
proof -
  note [simp] = demo_simps inner_step_def image_iff
  have "inner_steps flt (tp_init 1 \<lparr>boss := B_Submit 7\<rparr>) (tp_init 1 \<lparr>boss := B_Push 7, queue_owner := Some Boss\<rparr>)"
    by (rule r_into_rtranclp) (use tp_step.b_lock [of "tp_init 1 \<lparr>boss := B_Submit 7\<rparr>" 7 flt] in simp)
  then have "inner_steps flt (tp_init 1 \<lparr>boss := B_Submit 7\<rparr>) (demo_queued\<lparr>boss := B_Pushed, queue_owner := Some Boss\<rparr>)"
    by (rule rtranclp.rtrancl_into_rtrancl)
      (use tp_step.b_push [of "tp_init 1 \<lparr>boss := B_Push 7, queue_owner := Some Boss\<rparr>" 7 flt] in simp)
  then have "inner_steps flt (tp_init 1 \<lparr>boss := B_Submit 7\<rparr>) (demo_queued\<lparr>boss := B_Unlock, queue_owner := Some Boss\<rparr>)"
    by (rule rtranclp.rtrancl_into_rtrancl)
      (use tp_step.b_signal [of "demo_queued\<lparr>boss := B_Pushed, queue_owner := Some Boss\<rparr>"
        "(demo_queued\<lparr>boss := B_Pushed, queue_owner := Some Boss\<rparr>)" flt] in simp)
  then show ?thesis
    by (rule rtranclp.rtrancl_into_rtrancl)
      (use tp_step.b_unlock [of "demo_queued\<lparr>boss := B_Unlock, queue_owner := Some Boss\<rparr>" flt] in simp)
qed

lemma demo_take: "inner_steps flt demo_queued demo_taken"
proof -
  note [simp] = demo_simps inner_step_def image_iff
  have "inner_steps flt demo_queued (demo_queued\<lparr>workers := [W_Check], queue_owner := Some (Worker 0)\<rparr>)"
    by (rule r_into_rtranclp) (use tp_step.w_lock [of demo_queued 0 flt] in simp)
  then have "inner_steps flt demo_queued (demo_queued\<lparr>workers := [W_Decide], queue_owner := Some (Worker 0)\<rparr>)"
    by (rule rtranclp.rtrancl_into_rtrancl)
      (use tp_step.w_leave [of "demo_queued\<lparr>workers := [W_Check], queue_owner := Some (Worker 0)\<rparr>" 0 flt] in simp)
  then have "inner_steps flt demo_queued (demo_queued\<lparr>workers := [W_Have 7], queue_owner := Some (Worker 0), work_queue := []\<rparr>)"
    by (rule rtranclp.rtrancl_into_rtrancl)
      (use tp_step.w_pop [of "demo_queued\<lparr>workers := [W_Decide], queue_owner := Some (Worker 0)\<rparr>" 0 7 "[]" flt] in simp)
  then have "inner_steps flt demo_queued (demo_queued\<lparr>workers := [W_Unlock 7], queue_owner := Some (Worker 0), work_queue := []\<rparr>)"
    by (rule rtranclp.rtrancl_into_rtrancl)
      (use tp_step.w_no_signal [of "demo_queued\<lparr>workers := [W_Have 7], queue_owner := Some (Worker 0), work_queue := []\<rparr>" 0 7 flt] in simp)
  then show ?thesis
    by (rule rtranclp.rtrancl_into_rtrancl)
      (use tp_step.w_unlock [of "demo_queued\<lparr>workers := [W_Unlock 7], queue_owner := Some (Worker 0), work_queue := []\<rparr>" 0 7 flt] in simp)
qed

text \<open>\<open>coin_tpool_wait\<close> sees neither a counted task nor one in the queue.\<close>

lemma demo_wait: "inner_steps flt (demo_taken\<lparr>boss := B_Wait\<rparr>) (demo_taken\<lparr>boss := B_Returned WR_Success\<rparr>)"
proof -
  note [simp] = demo_simps inner_step_def image_iff
  have "inner_steps flt (demo_taken\<lparr>boss := B_Wait\<rparr>) (demo_taken\<lparr>boss := B_Active, active_owner := Some Boss\<rparr>)"
    by (rule r_into_rtranclp) (use tp_step.b_lock_active [of "demo_taken\<lparr>boss := B_Wait\<rparr>" flt] in simp)
  then have "inner_steps flt (demo_taken\<lparr>boss := B_Wait\<rparr>) (demo_taken\<lparr>boss := B_None, active_owner := Some Boss\<rparr>)"
    by (rule rtranclp.rtrancl_into_rtrancl)
      (use tp_step.b_none [of "demo_taken\<lparr>boss := B_Active, active_owner := Some Boss\<rparr>" flt] in simp)
  then have "inner_steps flt (demo_taken\<lparr>boss := B_Wait\<rparr>) (demo_taken\<lparr>boss := B_Queue\<rparr>)"
    by (rule rtranclp.rtrancl_into_rtrancl)
      (use tp_step.b_none_unlock [of "demo_taken\<lparr>boss := B_None, active_owner := Some Boss\<rparr>" flt] in simp)
  then have "inner_steps flt (demo_taken\<lparr>boss := B_Wait\<rparr>) (demo_taken\<lparr>boss := B_Empty, queue_owner := Some Boss\<rparr>)"
    by (rule rtranclp.rtrancl_into_rtrancl)
      (use tp_step.b_lock_queue [of "demo_taken\<lparr>boss := B_Queue\<rparr>" flt] in simp)
  then have "inner_steps flt (demo_taken\<lparr>boss := B_Wait\<rparr>) (demo_taken\<lparr>boss := B_Unlock_Empty True, queue_owner := Some Boss\<rparr>)"
    by (rule rtranclp.rtrancl_into_rtrancl)
      (use tp_step.b_empty [of "demo_taken\<lparr>boss := B_Empty, queue_owner := Some Boss\<rparr>" flt] in simp)
  then show ?thesis
    by (rule rtranclp.rtrancl_into_rtrancl)
      (use tp_step.b_finish [of "demo_taken\<lparr>boss := B_Unlock_Empty True, queue_owner := Some Boss\<rparr>" True flt] in simp)
qed

lemma demo_count: "inner_steps flt demo_taken (demo_taken\<lparr>workers := [W_Run 7], active_tasks := 1\<rparr>)"
proof -
  note [simp] = demo_simps inner_step_def image_iff
  have "inner_steps flt demo_taken (demo_taken\<lparr>workers := [W_Count 7], active_tasks := 0, active_owner := Some (Worker 0)\<rparr>)"
    by (rule r_into_rtranclp) (use tp_step.w_lock_active [of demo_taken 0 7 flt] in simp)
  then have "inner_steps flt demo_taken (demo_taken\<lparr>workers := [W_Counted 7], active_tasks := 1, active_owner := Some (Worker 0)\<rparr>)"
    by (rule rtranclp.rtrancl_into_rtrancl)
      (use tp_step.w_count [of "demo_taken\<lparr>workers := [W_Count 7], active_tasks := 0, active_owner := Some (Worker 0)\<rparr>" 0 7 flt] in simp)
  then have "inner_steps flt demo_taken (demo_taken\<lparr>workers := [W_Release 7], active_tasks := 1, active_owner := Some (Worker 0)\<rparr>)"
    by (rule rtranclp.rtrancl_into_rtrancl)
      (use tp_step.w_broadcast [of "demo_taken\<lparr>workers := [W_Counted 7], active_tasks := 1, active_owner := Some (Worker 0)\<rparr>" 0 7 flt] in simp)
  then show ?thesis
    by (rule rtranclp.rtrancl_into_rtrancl)
      (use tp_step.w_release [of "demo_taken\<lparr>workers := [W_Release 7], active_tasks := 1, active_owner := Some (Worker 0)\<rparr>" 0 7 flt] in simp)
qed

lemma demo_taken_reach: "reach flt 1 demo_taken"
proof -
  have "reach flt 1 (tp_init 1 \<lparr>boss := B_Submit 7\<rparr>)"
    by (rule reachable.step [OF reach_start tp_step.b_submit]) (simp_all add: demo_simps)
  then show ?thesis
    by (rule reach_inner [OF demo_take reach_inner [OF demo_submit]])
qed

lemma demo_wait_reach: "reach flt 1 (demo_taken\<lparr>boss := B_Returned WR_Success\<rparr>)"
proof -
  have "reach flt 1 (demo_taken\<lparr>boss := B_Wait\<rparr>)"
    by (rule reachable.step [OF demo_taken_reach]) (use tp_step.b_wait [of demo_taken flt] in \<open>simp add: demo_simps\<close>)
  then show ?thesis
    by (rule reach_inner [OF demo_wait])
qed

end
