(* ===== verification/Tpool_Progress.thy ===== *)
theory Tpool_Progress
  imports Tpool_Live Tpool_Demo
begin

text \<open>
  The pool without pthread errors never gets stuck: as long as a task is pending, or the workers are
  being stopped, some thread can make a step that brings the end nearer (\<open>distance\<close>). So from every
  reachable state the tasks can be finished, and the workers can be stopped and joined. These are
  statements about what is possible: which thread runs next is for the scheduler.
\<close>

subsection \<open>A mutex that is taken has a holder\<close>

abbreviation hq :: "wpc \<Rightarrow> nat" where
  "hq w \<equiv> of_bool (holds_q w)"

abbreviation ha :: "wpc \<Rightarrow> nat" where
  "ha w \<equiv> of_bool (holds_a w)"

definition owner_ok :: "tpool \<Rightarrow> bool" where
  "owner_ok s \<longleftrightarrow>
     (queue_owner s \<noteq> None \<longrightarrow> boss_holds_q (boss s) \<or> total hq s \<noteq> 0) \<and>
     (active_owner s \<noteq> None \<longrightarrow> boss_holds_a (boss s) \<or> total ha s \<noteq> 0)"

lemma owner_ok_step:
  assumes "tp_step False s s'" and "owner_ok s"
  shows "owner_ok s'"
  using assms(1)
proof (cases rule: tp_step.cases)
  case (w_signal i t s1)
  have i: "at s1 i (W_Have t)"
    by (rule signalled_fields(9) [OF w_signal(4,2)]) simp
  show ?thesis
    using assms(2) w_signal(1) signalled_fields(3,4,6) [OF w_signal(4)] total_signalled [OF w_signal(4), of hq]
      total_signalled [OF w_signal(4), of ha] by (simp add: owner_ok_def total_move [OF i])
next
  case (b_signal s1)
  then show ?thesis
    using assms(2) signalled_fields(3,4) [OF b_signal(3)] total_signalled [OF b_signal(3), of hq]
      total_signalled [OF b_signal(3), of ha] by (simp add: owner_ok_def)
qed (use assms(2) in \<open>simp_all add: owner_ok_def Let_def total_at total_goto total_goto_all total_wake_all\<close>,
  (auto simp: total_wake_all wake_boss_def)?)

interpretation owned_pool: step_invariant "\<lambda>s. s = tp_init n" "tp_step False" owner_ok for n
  by unfold_locales (auto simp: owner_ok_step, simp_all add: owner_ok_def tp_init_def)

subsection \<open>A distance that some step shortens\<close>

fun rank :: "wpc \<Rightarrow> nat" where
  "rank W_Start = 6"
| "rank W_Wake = 6"
| "rank W_Check = 5"
| "rank W_Decide = 4"
| "rank (W_Have t) = 40"
| "rank (W_Unlock t) = 30"
| "rank (W_Popped t) = 29"
| "rank (W_Count t) = 28"
| "rank (W_Counted t) = 27"
| "rank (W_Release t) = 26"
| "rank (W_Run t) = 25"
| "rank W_Ran = 24"
| "rank W_Uncount = 23"
| "rank W_Uncounted = 22"
| "rank W_Released = 21"
| "rank (W_Exit e p c) = 3"
| "rank (W_Exiting e p c) = 2"
| "rank (W_Done e p c) = 0"
| "rank W_Wait = 0"

fun boss_rank :: "bpc \<Rightarrow> nat" where
  "boss_rank (B_Push t) = 100"
| "boss_rank B_Pushed = 20"
| "boss_rank B_Unlock = 1"
| "boss_rank B_Active = 2"
| "boss_rank B_More = 1"
| "boss_rank B_None = 1"
| "boss_rank B_Empty = 2"
| "boss_rank (B_Unlock_Empty b) = 1"
| "boss_rank B_Stopping = 1"
| "boss_rank _ = 0"

definition distance :: "tpool \<Rightarrow> nat" where
  "distance s = 50 * length (work_queue s) + total rank s + boss_rank (boss s)"

fun stopping :: "bpc \<Rightarrow> bool" where
  "stopping B_Stop = True"
| "stopping B_Stopping = True"
| "stopping B_Join = True"
| "stopping _ = False"

text \<open>A step that shortens the distance and leaves the decision to stop as it is.\<close>

definition advance :: "tpool \<Rightarrow> tpool \<Rightarrow> bool" where
  "advance s s' \<longleftrightarrow> tp_step False s s' \<and> distance s' < distance s \<and>
     prefix (submitted s) (submitted s') \<and> (stopping (boss s') \<longleftrightarrow> stopping (boss s)) \<and>
     (boss s' = B_Stop \<longrightarrow> boss s = B_Stop) \<and> (b_shutdown s' \<longleftrightarrow> b_shutdown s)"

lemma signalled_exists:
  obtains s' where "signalled s s'" "total rank s' \<le> total rank s + 6"
proof (cases "\<exists>j. at s j W_Wait")
  case True
  then obtain j where "at s j W_Wait" ..
  then show thesis
    by (intro that [of "goto j W_Wake s"]) (auto simp: signalled_def total_at total_goto)
next
  case False
  then have "signalled s s"
    by (auto simp: signalled_def at_def in_set_conv_nth)
  then show thesis
    by (intro that [of s]) auto
qed

lemma boss_rank_wake [simp]: "boss_rank (boss (wake_boss s)) = boss_rank (boss s)"
  "stopping (boss (wake_boss s)) \<longleftrightarrow> stopping (boss s)"
  "boss (wake_boss s) = B_Stop \<longleftrightarrow> boss s = B_Stop"
  by (auto simp: wake_boss_def)

text \<open>Which mutex a worker needs for its next step.\<close>

fun needs_q :: "wpc \<Rightarrow> bool" where
  "needs_q W_Start = True"
| "needs_q W_Wake = True"
| "needs_q (W_Exit e p c) = True"
| "needs_q _ = False"

fun needs_a :: "wpc \<Rightarrow> bool" where
  "needs_a (W_Popped t) = True"
| "needs_a W_Ran = True"
| "needs_a _ = False"

fun at_rest :: "wpc \<Rightarrow> bool" where
  "at_rest W_Wait = True"
| "at_rest (W_Done e p c) = True"
| "at_rest _ = False"

lemmas adv = advance_def distance_def total_at total_goto

text \<open>The steps of a worker that has taken a task, up to its return to the start of the loop.\<close>

fun on_task :: "wpc \<Rightarrow> bool" where
  "on_task (W_Unlock t) = True"
| "on_task (W_Popped t) = True"
| "on_task (W_Count t) = True"
| "on_task (W_Counted t) = True"
| "on_task (W_Release t) = True"
| "on_task (W_Run t) = True"
| "on_task W_Ran = True"
| "on_task W_Uncount = True"
| "on_task W_Uncounted = True"
| "on_task W_Released = True"
| "on_task _ = False"

lemma task_advances:
  assumes "at s i w" and "on_task w" and "needs_a w \<Longrightarrow> active_owner s = None"
  shows "\<exists>s'. advance s s'"
proof (cases w)
  case (W_Unlock t)
  then show ?thesis
    using assms tp_step.w_unlock [of s i t False] by (auto simp: adv)
next
  case (W_Popped t)
  then show ?thesis
    using assms tp_step.w_lock_active [of s i t False] by (auto simp: adv)
next
  case (W_Count t)
  then show ?thesis
    using assms tp_step.w_count [of s i t False] by (auto simp: adv)
next
  case (W_Counted t)
  then show ?thesis
    using assms tp_step.w_broadcast [of s i t False] by (auto simp: adv)
next
  case (W_Release t)
  then show ?thesis
    using assms tp_step.w_release [of s i t False] by (auto simp: adv)
next
  case (W_Run t)
  then show ?thesis
    using assms tp_step.w_run [of s i t False] by (auto simp: adv)
next
  case W_Ran
  then show ?thesis
    using assms tp_step.w_lock_done [of s i False] by (auto simp: adv)
next
  case W_Uncount
  then show ?thesis
    using assms tp_step.w_uncount [of s i False] by (auto simp: adv)
next
  case W_Uncounted
  then show ?thesis
    using assms tp_step.w_broadcast_done [of s i False] by (auto simp: adv)
next
  case W_Released
  then show ?thesis
    using assms tp_step.w_release_done [of s i False] by (auto simp: adv)
qed (use assms(2) in simp_all)

lemma check_advances:
  assumes "at s i W_Check"
  shows "\<exists>s'. advance s s'"
proof (cases "b_shutdown s \<or> work_queue s \<noteq> []")
  case True
  then show ?thesis
    using assms tp_step.w_leave [of s i False] by (auto simp: adv)
next
  case False
  then show ?thesis
    using assms tp_step.w_wait [of s i False] by (auto simp: adv)
qed

lemma decide_advances:
  assumes "stop_ok s" and "at s i W_Decide"
  shows "\<exists>s'. advance s s'"
proof (cases "b_shutdown s")
  case True
  then show ?thesis
    using assms tp_step.w_shutdown [of s i False] by (auto simp: adv)
next
  case False
  then obtain t ts where "work_queue s = t # ts"
    using stop_okD(1) [OF assms(1,2)] by (cases "work_queue s") auto
  then show ?thesis
    using False assms tp_step.w_pop [of s i t ts False] by (auto simp: adv)
qed

lemma have_advances:
  assumes "at s i (W_Have t)"
  shows "\<exists>s'. advance s s'"
proof (cases "work_queue s = []")
  case True
  then show ?thesis
    using assms tp_step.w_no_signal [of s i t False] by (auto simp: adv)
next
  case False
  obtain s1 where s1: "signalled s s1" "total rank s1 \<le> total rank s + 6"
    by (rule signalled_exists)
  have i: "at s1 i (W_Have t)"
    using signalled_fields(9) [OF s1(1) assms] by simp
  have "total rank (goto i (W_Unlock t) s1) + 40 = total rank s1 + 30"
    using i by (simp add: total_at total_goto)
  then show ?thesis
    using False assms s1 tp_step.w_signal [of s i t s1 False] signalled_fields(1,2,6,7) [OF s1(1)]
    by (auto simp: advance_def distance_def)
qed

lemma worker_advances:
  assumes "stop_ok s" and "at s i w" and "\<not> at_rest w"
    and "needs_q w \<Longrightarrow> queue_owner s = None" and "needs_a w \<Longrightarrow> active_owner s = None"
  shows "\<exists>s'. advance s s'"
proof (cases w)
  case W_Start
  then show ?thesis
    using assms tp_step.w_lock [of s i False] by (auto simp: adv)
next
  case W_Wake
  then show ?thesis
    using assms tp_step.w_wake [of s i False] by (auto simp: adv)
next
  case (W_Exit e p c)
  then show ?thesis
    using assms tp_step.w_exit [of s i e p c False] by (auto simp: adv)
next
  case (W_Exiting e p c)
  then have "b_shutdown s"
    using stop_okD(4) [OF assms(1)] assms(2) by blast
  then show ?thesis
    using W_Exiting assms tp_step.w_exited [of s i e p c False] by (auto simp: adv)
qed (use assms check_advances decide_advances have_advances task_advances [OF assms(2)] in auto)

lemma boss_advances:
  assumes "boss_holds_q (boss s) \<or> boss_holds_a (boss s)" and "boss s \<noteq> B_Stop"
  shows "\<exists>s'. advance s s'"
proof (cases "boss s")
  case (B_Push t)
  then show ?thesis
    using tp_step.b_push [of s t False] by (auto simp: adv)
next
  case B_Pushed
  obtain s1 where s1: "signalled s s1" "total rank s1 \<le> total rank s + 6"
    by (rule signalled_exists)
  then show ?thesis
    using B_Pushed tp_step.b_signal [of s s1 False] signalled_fields(1,2,7) [OF s1(1)] by (auto simp: adv)
next
  case B_Unlock
  then show ?thesis
    using tp_step.b_unlock [of s False] by (auto simp: adv)
next
  case B_Active
  then show ?thesis
    using tp_step.b_sleep [of s False] tp_step.b_more [of s False] tp_step.b_none [of s False]
    by (cases "active_tasks s = 0"; cases "work_queue s = []") (auto simp: adv word_neq_0_conv)
next
  case B_More
  then show ?thesis
    using tp_step.b_more_unlock [of s False] by (auto simp: adv)
next
  case B_None
  then show ?thesis
    using tp_step.b_none_unlock [of s False] by (auto simp: adv)
next
  case B_Empty
  then show ?thesis
    using tp_step.b_empty [of s False] by (auto simp: adv)
next
  case (B_Unlock_Empty b)
  then show ?thesis
    using tp_step.b_finish [of s b False] by (cases b) (auto simp: adv)
next
  case B_Stopping
  then show ?thesis
    using tp_step.b_stop_unlock [of s False] by (auto simp: adv)
qed (use assms in auto)

text \<open>Whoever holds a mutex can go on, so as long as a worker is not at rest the pool advances.\<close>

lemma total_not_0:
  assumes "total f s \<noteq> 0"
  shows "\<exists>i w. at s i w \<and> f w \<noteq> 0"
proof -
  have "(\<Sum>w\<leftarrow>ws. f w) = 0" if "\<forall>w \<in> set ws. f w = 0" for ws
    using that by (induction ws) auto
  with assms show ?thesis
    unfolding total_def at_def by (metis in_set_conv_nth)
qed

lemma holder_advances:
  assumes "stop_ok s" and "owner_ok s" and "boss s \<noteq> B_Stop"
    and "queue_owner s \<noteq> None \<or> active_owner s \<noteq> None"
  shows "\<exists>s'. advance s s'"
proof (cases "boss_holds_q (boss s) \<or> boss_holds_a (boss s)")
  case True
  then show ?thesis
    using boss_advances assms(3) by blast
next
  case False
  then have "total hq s \<noteq> 0 \<or> total ha s \<noteq> 0"
    using assms(2,4) by (auto simp: owner_ok_def)
  then obtain i w where w: "at s i w" "holds_q w \<or> holds_a w"
    using total_not_0 [of hq s] total_not_0 [of ha s] by (auto split: if_splits)
  then have "\<not> at_rest w" "\<not> needs_q w" "\<not> needs_a w"
    by (cases w; simp)+
  with w(1) show ?thesis
    using worker_advances [OF assms(1)] by blast
qed

lemma busy_advances:
  assumes "stop_ok s" and "owner_ok s" and "boss s \<noteq> B_Stop" and "at s i w" and "\<not> at_rest w"
  shows "\<exists>s'. advance s s'"
  using holder_advances [OF assms(1-3)] worker_advances [OF assms(1,4,5)] by argo

lemma pending_advances:
  assumes "calm s" and "owner_ok s" and "boss s \<noteq> B_Stop" and "\<not> b_shutdown s" and "workers s \<noteq> []"
    and "work_queue s \<noteq> [] \<or> total held s \<noteq> {#}"
  shows "\<exists>s'. advance s s'"
proof (cases "\<exists>i w. at s i w \<and> \<not> at_rest w")
  case True
  then show ?thesis
    using busy_advances assms(1-3) by (auto simp: calm_def)
next
  case False
  have ok: "stop_ok s" "wake_ok s"
    using assms(1) by (simp_all add: calm_def)
  have asleep: "w = W_Wait" if "at s i w" for i w
  proof -
    have "at_rest w"
      using that False by blast
    then show ?thesis
      using that stop_okD(5) [OF ok(1)] assms(4) by (cases w) auto
  qed
  then have "total held s = {#}" "total attentive s = 0"
    using total_not_0 [of held s] total_not_0 [of attentive s] by (metis held.simps attentive.simps zero_multiset_def)+
  moreover have "total asleep s \<noteq> 0"
    using asleep assms(5) total_at [of s 0 W_Wait asleep] by (simp add: at_def)
  ultimately have "boss s = B_Pushed"
    using ok(2) assms(4,6) by (auto simp: wake_ok_def)
  then show ?thesis
    using boss_advances by simp
qed

lemma stop_advances:
  assumes "calm s" and "owner_ok s" and "boss s = B_Join" and "at s i w" and "\<forall>e p c. w \<noteq> W_Done e p c"
  shows "\<exists>s'. advance s s'"
proof -
  have "stop_ok s"
    using assms(1) by (simp add: calm_def)
  then have "w \<noteq> W_Wait"
    using stop_okD(2,6) assms(3,4) by blast
  then have "\<not> at_rest w"
    using assms(5) by (cases w) auto
  then show ?thesis
    using busy_advances [OF \<open>stop_ok s\<close> assms(2) _ assms(4)] assms(3) by simp
qed

lemma finish_tasks:
  assumes "calm s" "owner_ok s" "boss s \<noteq> B_Stop" "\<not> b_shutdown s" "workers s \<noteq> []"
  shows "\<exists>s'. (tp_step False)\<^sup>*\<^sup>* s s' \<and> calm s' \<and> prefix (submitted s) (submitted s') \<and>
    work_queue s' = [] \<and> total held s' = {#}"
  using assms
proof (induction "distance s" arbitrary: s rule: less_induct)
  case less
  show ?case
  proof (cases "work_queue s = [] \<and> total held s = {#}")
    case False
    then obtain s1 where s1: "advance s s1"
      using pending_advances less.prems by blast
    then have "calm s1" "owner_ok s1" "boss s1 \<noteq> B_Stop" "\<not> b_shutdown s1" "workers s1 \<noteq> []"
      using less.prems calm_step owner_ok_step workers_step unfolding advance_def by (blast, blast, blast, blast, force)
    with less.hyps s1 obtain s' where "(tp_step False)\<^sup>*\<^sup>* s1 s'" "calm s'" "prefix (submitted s1) (submitted s')"
        "work_queue s' = []" "total held s' = {#}"
      by (auto simp: advance_def)
    moreover have "tp_step False s s1" "prefix (submitted s) (submitted s1)"
      using s1 by (simp_all add: advance_def)
    ultimately show ?thesis
      by (meson converse_rtranclp_into_rtranclp prefix_order.trans)
  qed (use less.prems in auto)
qed

lemma finish_stop:
  assumes "calm s" "owner_ok s" "boss s \<in> {B_Stopping, B_Join}"
  shows "\<exists>s'. (tp_step False)\<^sup>*\<^sup>* s s' \<and> calm s' \<and> boss s' = B_Joined \<and>
    (\<forall>w \<in> set (workers s'). w = W_Done 0 None False)"
  using assms
proof (induction "distance s" arbitrary: s rule: less_induct)
  case less
  show ?case
  proof (cases "boss s = B_Join \<and> (\<forall>w \<in> set (workers s). \<exists>e p c. w = W_Done e p c)")
    case True
    then have "tp_step False s (s\<lparr>boss := B_Joined\<rparr>)"
      by (blast intro: b_join)
    moreover have "stop_ok (s\<lparr>boss := B_Joined\<rparr>)"
      using calm_step [OF calculation less.prems(1)] by (simp add: calm_def)
    then have "\<forall>w \<in> set (workers s). w = W_Done 0 None False"
      using True leaves by (fastforce simp: at_def in_set_conv_nth)
    ultimately show ?thesis
      using calm_step [OF _ less.prems(1)] by (intro exI [of _ "s\<lparr>boss := B_Joined\<rparr>"]) auto
  next
    case False
    have "\<exists>s1. advance s s1"
    proof (cases "boss s = B_Join")
      case True
      with False obtain i w where "at s i w" "\<forall>e p c. w \<noteq> W_Done e p c"
        by (auto simp: at_def in_set_conv_nth)
      then show ?thesis
        using stop_advances less.prems(1,2) True by blast
    next
      case False
      then show ?thesis
        using boss_advances [of s] less.prems(3) by auto
    qed
    then obtain s1 where s1: "advance s s1" ..
    have "stop_ok s"
      using less.prems(1) by (simp add: calm_def)
    then have "calm s1" "owner_ok s1" "boss s1 \<in> {B_Stopping, B_Join}"
      using s1 less.prems calm_step owner_ok_step stop_okD(2) unfolding advance_def
      by (blast, blast) (cases "boss s1"; use s1 less.prems in \<open>auto simp: advance_def\<close>)
    with less.hyps s1 obtain s' where "(tp_step False)\<^sup>*\<^sup>* s1 s'" "calm s'" "boss s' = B_Joined"
        "\<forall>w \<in> set (workers s'). w = W_Done 0 None False"
      by (auto simp: advance_def)
    moreover have "tp_step False s s1"
      using s1 by (simp add: advance_def)
    ultimately show ?thesis
      by (meson converse_rtranclp_into_rtranclp)
  qed
qed

subsection \<open>A pool that is being stopped\<close>

definition demo_stopping :: tpool where
  "demo_stopping = (tp_init 1)\<lparr>boss := B_Stopping, b_shutdown := True, queue_owner := Some Boss\<rparr>"

lemma demo_stopping_reach: "reach flt 1 demo_stopping"
proof -
  have "reach flt 1 (tp_init 1 \<lparr>boss := B_Stop, queue_owner := Some Boss\<rparr>)"
    by (rule reachable.step [OF reach_start]) (use tp_step.b_stop_lock [of "tp_init 1" flt] in \<open>simp add: tp_init_def\<close>)
  then show ?thesis
    by (rule reachable.step) (use tp_step.b_stop [of "tp_init 1 \<lparr>boss := B_Stop, queue_owner := Some Boss\<rparr>" flt]
      in \<open>simp add: tp_init_def wake_all_def wake_def demo_stopping_def\<close>)
qed

subsection \<open>Properties\<close>

text \<open>
  C19: the threads of the pool exclude each other. In every reachable state, also after failing
  pthread calls, at most one thread is between a lock and an unlock of the queue's mutex, and at
  most one between a lock and an unlock of the counter's mutex. The accesses to the queue, to the
  shutdown flag and to the counter that the code makes under these mutexes therefore never overlap.
\<close>

theorem tpool_mutual_exclusion:
  assumes "reach flt n s"
  shows "(\<forall>i w. at s i w \<and> holds_q w \<longrightarrow>
      \<not> boss_holds_q (boss s) \<and> (\<forall>j w'. at s j w' \<and> holds_q w' \<longrightarrow> j = i)) \<and>
    (\<forall>i w. at s i w \<and> holds_a w \<longrightarrow>
      \<not> boss_holds_a (boss s) \<and> (\<forall>j w'. at s j w' \<and> holds_a w' \<longrightarrow> j = i))"
  using reach_mutex [OF assms] unfolding mutex_q_def mutex_a_def
  by (metis option.inject thread.distinct(1) thread.inject)

theorem tpool_mutual_exclusion_witness:
  "\<not> boss_holds_q (boss (tp_init 2 \<lparr>workers := [W_Check, W_Start], queue_owner := Some (Worker 0)\<rparr>))"
proof -
  let ?s = "tp_init 2 \<lparr>workers := [W_Check, W_Start], queue_owner := Some (Worker 0)\<rparr>"
  have "reach False 2 ?s"
    by (rule reachable.step [OF reach_start])
      (use tp_step.w_lock [of "tp_init 2" 0 False] in \<open>simp add: at_def goto_def tp_init_def numeral_2_eq_2\<close>)
  moreover have "at ?s 0 W_Check \<and> holds_q W_Check"
    by (simp add: at_def)
  ultimately show ?thesis
    using tpool_mutual_exclusion by blast
qed

text \<open>
  C2: no task is lost and none runs twice. In every reachable state the tasks submitted so far
  are, each once, those still in the queue, those a worker holds, and those that have run; the
  queue is the end of the sequence of submissions, so tasks are handed out in that order; and the
  counter \<open>active_tasks\<close> is the number of workers between its increment and its decrement. This
  holds after failing pthread calls too, where a worker that leaves its loop keeps the task it held.
\<close>

theorem tpool_tasks_conserved:
  assumes "reach flt n s"
  shows "mset (submitted s) = mset (work_queue s) + total held s + mset (ran s) \<and>
    distinct (submitted s) \<and> distinct (ran s) \<and> set (ran s) \<subseteq> set (submitted s) \<and>
    suffix (work_queue s) (submitted s) \<and> active_tasks s = of_nat (total counted s)"
proof -
  have ok: "tasks_ok s"
    by (rule reach_tasks [OF assms])
  then have m: "mset (submitted s) = mset (work_queue s) + total held s + mset (ran s)" and d: "distinct (submitted s)"
    by (simp_all add: tasks_ok_def)
  then have sub: "mset (ran s) \<subseteq># mset (submitted s)"
    by (simp add: subset_mset.le_iff_add ac_simps)
  obtain ts where "mset ts = mset (work_queue s) + total held s"
    using ex_mset by blast
  then have "mset (ts @ ran s) = mset (submitted s)"
    using m by simp
  then have "distinct (ran s)"
    using mset_eq_imp_distinct_iff d distinct_append by blast
  moreover have "set (ran s) \<subseteq> set (submitted s)"
    using set_mset_mono [OF sub] by simp
  ultimately show ?thesis
    using ok by (simp add: tasks_ok_def)
qed

theorem tpool_tasks_conserved_witness:
  "distinct (ran demo_taken) \<and> mset (submitted demo_taken) = {#} + total held demo_taken + {#}"
  using tpool_tasks_conserved [OF demo_taken_reach] by (simp add: demo_taken_def tp_init_def)

text \<open>
  Without pthread errors a worker pops only a queue that has a task, and leaves its loop only
  after the boss has set the shutdown flag in \<open>coin_tpool_stop_workers\<close>, with the result 0 and no
  task in its hands. So \<open>pthread_join\<close> on a worker that nobody has stopped, which is what
  \<open>coin_initialize_workers\<close> does at \<open>cleanup_threads\<close> when a later \<open>pthread_create\<close> fails, waits for
  a thread that never ends.
\<close>

lemma tpool_workers_stay:
  assumes "reach False n s"
  shows "(\<forall>i. at s i W_Decide \<longrightarrow> b_shutdown s \<or> work_queue s \<noteq> []) \<and>
    (b_shutdown s \<longleftrightarrow> boss s \<in> {B_Stopping, B_Join, B_Joined}) \<and>
    (\<forall>i w. at s i w \<and> leaving w \<longrightarrow>
      b_shutdown s \<and> w \<in> {W_Exit 0 None False, W_Exiting 0 None False, W_Done 0 None False})"
proof -
  have "stop_ok s"
    using calm_pool.reachable_inv [OF assms] by (simp add: calm_def)
  then show ?thesis
    unfolding stop_ok_def by blast
qed

text \<open>
  C9: no wake-up is lost. Without pthread errors, whenever the queue has a task, a worker
  sleeps and no stop was ordered, either the boss is about to signal or some worker is awake and
  will look at the queue, or signal, before it sleeps. And while the boss sleeps in
  \<open>coin_tpool_wait\<close>, some worker is still to broadcast on the counter's condition.
\<close>

theorem tpool_no_lost_wakeup:
  assumes "reach False n s"
  shows "(work_queue s \<noteq> [] \<and> (\<exists>i. at s i W_Wait) \<longrightarrow>
      b_shutdown s \<or> boss s = B_Pushed \<or> (\<exists>j w. at s j w \<and> w \<in> {W_Check, W_Wake, W_Decide} \<union> range W_Have)) \<and>
    (boss s = B_Sleep \<longrightarrow> (\<exists>j w. at s j w \<and> (counted w \<noteq> 0 \<or> w = W_Uncounted)))"
proof -
  have ok: "wake_ok s" "boss_ok s"
    using calm_pool.reachable_inv [OF assms] by (simp_all add: calm_def)
  have "w \<in> {W_Check, W_Wake, W_Decide} \<union> range W_Have" if "attentive w \<noteq> 0" for w
    using that by (cases w) auto
  moreover have "total asleep s \<noteq> 0" if "at s i W_Wait" for i
    using total_at [OF that, of asleep] by simp
  moreover have "counted w \<noteq> 0 \<or> w = W_Uncounted" if "to_report w \<noteq> 0" for w
    using that by (cases w) auto
  ultimately show ?thesis
    using ok total_not_0 [of attentive s] total_not_0 [of to_report s] unfolding wake_ok_def boss_ok_def by meson
qed

theorem tpool_no_lost_wakeup_witness:
  "\<exists>s. reach False 1 s \<and> work_queue s \<noteq> [] \<and> at s 0 W_Wait \<and>
     (b_shutdown s \<or> boss s = B_Pushed \<or> (\<exists>j w. at s j w \<and> w \<in> {W_Check, W_Wake, W_Decide} \<union> range W_Have))"
proof -
  let ?a = "tp_init 1 \<lparr>workers := [W_Wait]\<rparr>"
  let ?s = "?a\<lparr>boss := B_Pushed, queue_owner := Some Boss, work_queue := [7], submitted := [7]\<rparr>"
  note [simp] = demo_simps
  have "reach False 1 (tp_init 1 \<lparr>workers := [W_Check], queue_owner := Some (Worker 0)\<rparr>)"
    by (rule reachable.step [OF reach_start]) (use tp_step.w_lock [of "tp_init 1" 0 False] in simp)
  then have "reach False 1 ?a"
    by (rule reachable.step)
      (use tp_step.w_wait [of "tp_init 1 \<lparr>workers := [W_Check], queue_owner := Some (Worker 0)\<rparr>" 0 False] in simp)
  then have "reach False 1 (?a\<lparr>boss := B_Submit 7\<rparr>)"
    by (rule reachable.step) (use tp_step.b_submit [of ?a 7 False] in simp)
  then have "reach False 1 (?a\<lparr>boss := B_Push 7, queue_owner := Some Boss\<rparr>)"
    by (rule reachable.step) (use tp_step.b_lock [of "?a\<lparr>boss := B_Submit 7\<rparr>" 7 False] in simp)
  then have s: "reach False 1 ?s"
    by (rule reachable.step) (use tp_step.b_push [of "?a\<lparr>boss := B_Push 7, queue_owner := Some Boss\<rparr>" 7 False] in simp)
  moreover have "work_queue ?s \<noteq> []" "at ?s 0 W_Wait"
    by simp_all
  ultimately show ?thesis
    using tpool_no_lost_wakeup [OF s] by blast
qed

text \<open>
  C13: the pool can always finish what it was given. From every reachable state (no pthread
  errors, at least one worker, no stop ordered) some order of the threads' steps leads to a state in
  which the queue is empty and every submitted task has run, each once, also those submitted on the
  way; so the mutexes and conditions never leave the pool in a deadlock with work pending.
\<close>

theorem tpool_tasks_can_finish:
  assumes "reach False n s" and "0 < n" and "\<not> b_shutdown s" and "boss s \<noteq> B_Stop"
  shows "\<exists>s'. (tp_step False)\<^sup>*\<^sup>* s s' \<and> work_queue s' = [] \<and> prefix (submitted s) (submitted s') \<and>
    mset (ran s') = mset (submitted s')"
proof -
  have "workers s \<noteq> []"
    using reach_workers [OF assms(1)] assms(2) by auto
  then obtain s' where "(tp_step False)\<^sup>*\<^sup>* s s'" "calm s'" "prefix (submitted s) (submitted s')"
      "work_queue s' = []" "total held s' = {#}"
    using finish_tasks [OF calm_pool.reachable_inv owned_pool.reachable_inv] assms by blast
  then show ?thesis
    by (intro exI [of _ s']) (simp add: calm_def tasks_ok_def)
qed

theorem tpool_tasks_can_finish_witness:
  "\<exists>s'. (tp_step False)\<^sup>*\<^sup>* demo_taken s' \<and> work_queue s' = [] \<and> prefix [7] (submitted s') \<and>
     mset (ran s') = mset (submitted s')"
  using tpool_tasks_can_finish [OF demo_taken_reach] by (simp add: demo_taken_def tp_init_def)

text \<open>
  C18: the workers can always be stopped. Once \<open>coin_tpool_stop_workers\<close> has set the flag and
  broadcast, some order of steps lets every worker leave its loop with the result 0, and
  \<open>pthread_join\<close> return for all of them. Tasks still in the queue stay there.
\<close>

theorem tpool_can_stop:
  assumes "reach False n s" and "boss s \<in> {B_Stopping, B_Join}"
  shows "\<exists>s'. (tp_step False)\<^sup>*\<^sup>* s s' \<and> boss s' = B_Joined \<and> workers s' = replicate n (W_Done 0 None False)"
proof -
  obtain s' where s': "(tp_step False)\<^sup>*\<^sup>* s s'" "boss s' = B_Joined" "\<forall>w \<in> set (workers s'). w = W_Done 0 None False"
    using finish_stop [OF calm_pool.reachable_inv owned_pool.reachable_inv] assms by blast
  have "length (workers s') = n"
    using s'(1) reach_workers [OF assms(1)] by (induction rule: rtranclp_induct) (auto simp: workers_step)
  with s' show ?thesis
    by (intro exI [of _ s']) (auto intro: replicate_eqI)
qed

theorem tpool_can_stop_witness:
  "\<exists>s'. (tp_step False)\<^sup>*\<^sup>* demo_stopping s' \<and> boss s' = B_Joined \<and> workers s' = [W_Done 0 None False]"
  using tpool_can_stop [OF demo_stopping_reach] by (simp add: demo_stopping_def)

text \<open>
  C38: \<open>coin_tpool_wait\<close> may report \<open>COIN_SUCCESS\<close>, \<open>All tasks have been successfully completed\<close>,
  while a task it should have waited for has not run: a worker takes the task from the queue under
  one mutex and counts it as active under another, and in between neither \<open>active_tasks\<close> nor the
  size of the queue shows it. One worker, one task and no error are enough.
\<close>

theorem tpool_wait_returns_early:
  "\<exists>s. reach False 1 s \<and> boss s = B_Returned WR_Success \<and> submitted s = [7] \<and> ran s = [] \<and> at s 0 (W_Popped 7)"
  by (rule exI, intro conjI, rule demo_wait_reach) (simp_all add: demo_simps)

end
