(* ===== verification/Tpool.thy ===== *)
theory Tpool
  imports Coin_Queue
begin

text \<open>
  The functions of \<open>src/libs/concurinc/src/concurinc.c\<close> that set the pool up, take it down, submit
  tasks and wait, each as one call in the thread that makes it; how these threads interleave with
  the workers is in \<open>Tpool_Steps\<close>.

  The results of the pthread calls are an argument: \<open>tw_res k n\<close> is what the n-th call returns if it
  is of kind \<open>k\<close>, and theorems hold for every such function. The world \<open>tp_world\<close> keeps which
  mutexes and conditions are initialised, which mutexes the calling thread holds, and whether it
  has its signals blocked; using an object that is not initialised is a fault. \<open>pthread_join\<close> does
  not return (\<open>None\<close>) when the worker does not end; a worker ends when the shutdown flag is set
  (see \<open>tpool_can_stop\<close>), or, when \<open>tw_ends\<close> says so, after a pthread error of its own.
\<close>

datatype pcall =
    Mutex_Init | Mutex_Destroy | Mutex_Lock | Mutex_Unlock
  | Cond_Init | Cond_Destroy | Cond_Signal | Cond_Broadcast | Cond_Wait
  | Attr_Init | Attr_Destroy | Sig_Fill_Set | Sig_Mask | Thread_Create | Thread_Join

datatype sync_obj = Queue_Mutex | Queue_Cond | Active_Mutex | Active_Cond | Create_Attr

datatype thread_status_t = COIN_THREAD_STARTED | COIN_THREAD_TERMINATED | COIN_THREAD_JOINED

record coin_tpool_thread_t =
  tid :: nat
  thr_status :: thread_status_t
  p_retval :: ptr

record tpool_ctx_t =
  ctx_b_shutdown :: bool
  p_work_queue :: "coin_queue_t owned"
  ctx_active_tasks :: size_t

record coin_threadpool_t =
  p_threads :: "coin_tpool_thread_t list owned"
  p_ctx :: "tpool_ctx_t owned"
  num_workers :: size_t

record coin_task_t =
  coin_task_func :: ptr
  coin_task_arg :: ptr
  coin_task_free_arg_func :: ptr

record tp_world =
  tw_heap :: cq_heap
  tw_tasks :: "nat \<rightharpoonup> coin_task_t"
  tw_res :: "pcall \<Rightarrow> nat \<Rightarrow> int"
  tw_calls :: nat
  tw_inited :: "sync_obj set"
  tw_held :: "sync_obj set"
  tw_blocked :: bool
  tw_ends :: "nat \<Rightarrow> bool"
  tw_retval :: "nat \<Rightarrow> ptr"
  tw_threads :: "nat set"

subsection \<open>Calls of the pthread library\<close>

definition pcall :: "pcall \<Rightarrow> tp_world \<Rightarrow> int \<times> tp_world" where
  "pcall k w = (tw_res w k (tw_calls w), w\<lparr>tw_calls := Suc (tw_calls w)\<rparr>)"

definition sync_init :: "pcall \<Rightarrow> sync_obj \<Rightarrow> tp_world \<Rightarrow> int \<times> tp_world" where
  "sync_init k x w =
     (let (err, w) = pcall k w in (err, if err = 0 then w\<lparr>tw_inited := insert x (tw_inited w)\<rparr> else w))"

definition sync_destroy :: "pcall \<Rightarrow> sync_obj \<Rightarrow> tp_world \<Rightarrow> cfault + (int \<times> tp_world)" where
  "sync_destroy k x w =
     (if x \<notin> tw_inited w then Inl Uninit_Mutex
      else (let (err, w) = pcall k w in
            Inr (err, if err = 0 then w\<lparr>tw_inited := tw_inited w - {x}\<rparr> else w)))"

definition mutex_lock :: "sync_obj \<Rightarrow> tp_world \<Rightarrow> cfault + (int \<times> tp_world)" where
  "mutex_lock x w =
     (if x \<notin> tw_inited w then Inl Uninit_Mutex
      else (let (err, w) = pcall Mutex_Lock w in
            Inr (err, if err = 0 then w\<lparr>tw_held := insert x (tw_held w)\<rparr> else w)))"

definition mutex_unlock :: "sync_obj \<Rightarrow> tp_world \<Rightarrow> cfault + (int \<times> tp_world)" where
  "mutex_unlock x w =
     (if x \<notin> tw_inited w then Inl Uninit_Mutex
      else (let (err, w) = pcall Mutex_Unlock w in
            Inr (err, if err = 0 then w\<lparr>tw_held := tw_held w - {x}\<rparr> else w)))"

definition cond_call :: "pcall \<Rightarrow> sync_obj \<Rightarrow> tp_world \<Rightarrow> cfault + (int \<times> tp_world)" where
  "cond_call k x w = (if x \<notin> tw_inited w then Inl Uninit_Mutex else Inr (pcall k w))"

text \<open>Sequencing calls that may fault or not return.\<close>

definition o_then :: "(cfault + 'a) option \<Rightarrow> ('a \<Rightarrow> (cfault + 'b) option) \<Rightarrow> (cfault + 'b) option" where
  "o_then r f = (case r of None \<Rightarrow> None | Some (Inl e) \<Rightarrow> Some (Inl e) | Some (Inr x) \<Rightarrow> f x)"

lemma o_then_simps [simp]:
  "o_then None f = None" "o_then (Some (Inl e)) f = Some (Inl e)" "o_then (Some (Inr x)) f = f x"
  by (simp_all add: o_then_def)

subsection \<open>The context\<close>

text \<open>The cleanup labels of \<open>coin_tpool_ctx_init\<close>, each running into the next.\<close>

definition ctx_cleanup_ctx :: "tpool_ctx_t owned \<Rightarrow> tp_world \<Rightarrow> cfault + tp_world" where
  [op_defs]: "ctx_cleanup_ctx c w =
     and_then (release (cq_mem (tw_heap w)) c) (\<lambda>m. Inr (w\<lparr>tw_heap := (tw_heap w)\<lparr>cq_mem := m\<rparr>\<rparr>))"

definition ctx_cleanup_queue_mutex :: "tpool_ctx_t owned \<Rightarrow> tp_world \<Rightarrow> cfault + tp_world" where
  [op_defs]: "ctx_cleanup_queue_mutex c w =
     and_then (sync_destroy Mutex_Destroy Queue_Mutex w) (\<lambda>(_, w). ctx_cleanup_ctx c w)"

definition ctx_cleanup_queue_cond :: "tpool_ctx_t owned \<Rightarrow> tp_world \<Rightarrow> cfault + tp_world" where
  [op_defs]: "ctx_cleanup_queue_cond c w =
     and_then (sync_destroy Cond_Destroy Queue_Cond w) (\<lambda>(_, w). ctx_cleanup_queue_mutex c w)"

definition ctx_cleanup_queue :: "tpool_ctx_t owned \<Rightarrow> coin_queue_t owned \<Rightarrow> tp_world \<Rightarrow> (cfault + tp_world) option" where
  [op_defs]: "ctx_cleanup_queue c p_queue w =
     o_then (coin_queue_destroy (tw_heap w) p_queue) (\<lambda>(_, h). Some (ctx_cleanup_queue_cond c (w\<lparr>tw_heap := h\<rparr>)))"

definition ctx_cleanup_tasks_mutex ::
    "tpool_ctx_t owned \<Rightarrow> coin_queue_t owned \<Rightarrow> tp_world \<Rightarrow> (cfault + tp_world) option" where
  [op_defs]: "ctx_cleanup_tasks_mutex c p_queue w =
     o_then (Some (sync_destroy Mutex_Destroy Active_Mutex w)) (\<lambda>(_, w). ctx_cleanup_queue c p_queue w)"

text \<open>Leaving through a cleanup label with a status.\<close>

definition leave :: "coin_status_t \<Rightarrow> (cfault + tp_world) option \<Rightarrow> (cfault + (coin_status_t \<times> 'a owned \<times> tp_world)) option" where
  "leave status r = o_then r (\<lambda>w. Some (Inr (status, ONull, w)))"

definition coin_tpool_ctx_init :: "tp_world \<Rightarrow> (cfault + (coin_status_t \<times> tpool_ctx_t owned \<times> tp_world)) option" where
  [op_defs]: "coin_tpool_ctx_init w =
     (let (c, m) = alloc (cq_mem (tw_heap w)) \<lparr>ctx_b_shutdown = False, p_work_queue = ONull, ctx_active_tasks = 0\<rparr>;
          w = w\<lparr>tw_heap := (tw_heap w)\<lparr>cq_mem := m\<rparr>\<rparr> in
      case c of
        ONull \<Rightarrow> Some (Inr (COIN_ALLOCATION_FAILURE, ONull, w))
      | Own a ctx \<Rightarrow>
          (let (err, w) = sync_init Mutex_Init Queue_Mutex w in
           if err \<noteq> 0 then leave COIN_PTHREAD_MUTEX_ERROR (Some (ctx_cleanup_ctx c w))
           else
             (let (err, w) = sync_init Cond_Init Queue_Cond w in
              if err \<noteq> 0 then leave COIN_PTHREAD_COND_ERROR (Some (ctx_cleanup_queue_mutex c w))
              else
                (case coin_queue_init (cq_mem (tw_heap w)) (Some ONull) of
                   (status, pp_queue, m) \<Rightarrow>
                     (let w = w\<lparr>tw_heap := (tw_heap w)\<lparr>cq_mem := m\<rparr>\<rparr>;
                          p_queue = (case pp_queue of None \<Rightarrow> ONull | Some q \<Rightarrow> q) in
                      if status \<noteq> COIN_SUCCESS then leave status (Some (ctx_cleanup_queue_cond c w))
                      else
                        (let (err, w) = sync_init Mutex_Init Active_Mutex w in
                         if err \<noteq> 0 then leave COIN_PTHREAD_MUTEX_ERROR (ctx_cleanup_queue c p_queue w)
                         else
                           (let (err, w) = sync_init Cond_Init Active_Cond w in
                            if err \<noteq> 0 then leave COIN_PTHREAD_COND_ERROR (ctx_cleanup_tasks_mutex c p_queue w)
                            else
                              Some (Inr (COIN_SUCCESS,
                                Own a (ctx\<lparr>p_work_queue := p_queue, ctx_b_shutdown := False, ctx_active_tasks := 0\<rparr>),
                                w)))))))))"

definition coin_tpool_ctx_destroy :: "tp_world \<Rightarrow> tpool_ctx_t owned \<Rightarrow> (cfault + (coin_status_t \<times> tp_world)) option" where
  [op_defs]: "coin_tpool_ctx_destroy w c =
     (case c of
        ONull \<Rightarrow> Some (Inl Assert_Fail)
      | Own a ctx \<Rightarrow>
          o_then (Some (sync_destroy Cond_Destroy Queue_Cond w)) (\<lambda>(err, w).
            if err \<noteq> 0 then Some (Inr (COIN_PTHREAD_COND_ERROR, w))
            else o_then (Some (sync_destroy Mutex_Destroy Queue_Mutex w)) (\<lambda>(err, w).
              if err \<noteq> 0 then Some (Inr (COIN_PTHREAD_MUTEX_ERROR, w))
              else o_then (coin_queue_destroy (tw_heap w) (p_work_queue ctx)) (\<lambda>(status, h).
                let w = w\<lparr>tw_heap := h\<rparr> in
                if status \<noteq> COIN_SUCCESS then Some (Inr (status, w))
                else o_then (Some (sync_destroy Cond_Destroy Active_Cond w)) (\<lambda>(err, w).
                  if err \<noteq> 0 then Some (Inr (COIN_PTHREAD_COND_ERROR, w))
                  else o_then (Some (sync_destroy Mutex_Destroy Active_Mutex w)) (\<lambda>(err, w).
                    if err \<noteq> 0 then Some (Inr (COIN_PTHREAD_MUTEX_ERROR, w))
                    else o_then (Some (release (cq_mem (tw_heap w)) c)) (\<lambda>m.
                      Some (Inr (COIN_SUCCESS, w\<lparr>tw_heap := (tw_heap w)\<lparr>cq_mem := m\<rparr>\<rparr>)))))))))"

subsection \<open>The workers\<close>

definition sigmask :: "bool \<Rightarrow> tp_world \<Rightarrow> int \<times> tp_world" where
  "sigmask on w =
     (let (err, w) = pcall Sig_Mask w in (err, if err = 0 then w\<lparr>tw_blocked := on\<rparr> else w))"

text \<open>\<open>pthread_create\<close> starts a worker; its number is the number of the call.\<close>

definition thread_create :: "tp_world \<Rightarrow> int \<times> nat \<times> tp_world" where
  "thread_create w =
     (let (err, w') = pcall Thread_Create w in
      (err, tw_calls w, if err = 0 then w'\<lparr>tw_threads := insert (tw_calls w) (tw_threads w')\<rparr> else w'))"

text \<open>\<open>pthread_join\<close> of a worker, given the shutdown flag it looks at.\<close>

definition thread_join :: "bool \<Rightarrow> nat \<Rightarrow> tp_world \<Rightarrow> (cfault + (int \<times> ptr \<times> tp_world)) option" where
  "thread_join b_shutdown t w =
     (if \<not> b_shutdown \<and> \<not> tw_ends w t then None
      else (let (err, w) = pcall Thread_Join w in
            Some (Inr (err, tw_retval w t, if err = 0 then w\<lparr>tw_threads := tw_threads w - {t}\<rparr> else w))))"

fun create_loop :: "nat \<Rightarrow> coin_tpool_thread_t list \<Rightarrow> tp_world \<Rightarrow> int \<times> coin_tpool_thread_t list \<times> tp_world" where
  "create_loop 0 created w = (0, created, w)"
| "create_loop (Suc left) created w =
     (let (err, t, w) = thread_create w in
      if err \<noteq> 0 then (err, created, w)
      else create_loop left (created @ [\<lparr>tid = t, thr_status = COIN_THREAD_STARTED, p_retval = NULL\<rparr>]) w)"

fun join_created :: "bool \<Rightarrow> coin_tpool_thread_t list \<Rightarrow> tp_world \<Rightarrow> (cfault + tp_world) option" where
  "join_created b_shutdown [] w = Some (Inr w)"
| "join_created b_shutdown (t # ts) w =
     o_then (thread_join b_shutdown (tid t) w) (\<lambda>(_, _, w). join_created b_shutdown ts w)"

definition workers_cleanup_attr :: "tp_world \<Rightarrow> cfault + tp_world" where
  [op_defs]: "workers_cleanup_attr w = and_then (sync_destroy Attr_Destroy Create_Attr w) (\<lambda>(_, w). Inr w)"

definition workers_cleanup_threads ::
    "bool \<Rightarrow> nat \<Rightarrow> coin_tpool_thread_t list \<Rightarrow> tp_world \<Rightarrow> (cfault + tp_world) option" where
  [op_defs]: "workers_cleanup_threads b_shutdown b created w =
     o_then (join_created b_shutdown created w) (\<lambda>w.
       Some (and_then (release (cq_mem (tw_heap w)) (Own b ())) (\<lambda>m.
         workers_cleanup_attr (w\<lparr>tw_heap := (tw_heap w)\<lparr>cq_mem := m\<rparr>\<rparr>))))"

definition coin_initialize_workers ::
    "tp_world \<Rightarrow> tpool_ctx_t owned \<Rightarrow> size_t \<Rightarrow>
     (cfault + (coin_status_t \<times> coin_tpool_thread_t list owned \<times> tp_world)) option" where
  [op_defs]: "coin_initialize_workers w c num =
     (case c of
        ONull \<Rightarrow> Some (Inl Assert_Fail)
      | Own _ ctx \<Rightarrow>
          if num = 0 then Some (Inl Assert_Fail)
          else
            (let (err, w) = sync_init Attr_Init Create_Attr w in
             if err \<noteq> 0 then Some (Inr (COIN_PTHREAD_SIGMASK_ERROR, ONull, w))
             else
               (let (err, w) = pcall Sig_Fill_Set w in
                if err \<noteq> 0 then leave COIN_PTHREAD_SIGMASK_ERROR (Some (workers_cleanup_attr w))
                else
                  (let (err, w) = sigmask True w in
                   if err \<noteq> 0 then leave COIN_PTHREAD_SIGMASK_ERROR (Some (workers_cleanup_attr w))
                   else
                     (case alloc (cq_mem (tw_heap w)) () of
                        (ONull, m) \<Rightarrow>
                          Some (Inr (COIN_ALLOCATION_FAILURE, ONull, w\<lparr>tw_heap := (tw_heap w)\<lparr>cq_mem := m\<rparr>\<rparr>))
                      | (Own b _, m) \<Rightarrow>
                          (let w = w\<lparr>tw_heap := (tw_heap w)\<lparr>cq_mem := m\<rparr>\<rparr>;
                               (err, ts, w) = create_loop (unat num) [] w in
                           if err \<noteq> 0 then
                             leave COIN_PTHREAD_CREATE_ERROR (workers_cleanup_threads (ctx_b_shutdown ctx) b ts w)
                           else
                             (let (err, w) = sigmask False w in
                              if err \<noteq> 0 then
                                leave COIN_PTHREAD_SIGMASK_ERROR (workers_cleanup_threads (ctx_b_shutdown ctx) b ts w)
                              else Some (Inr (COIN_SUCCESS, Own b ts, w)))))))))"

text \<open>
  \<open>coin_tpool_stop_workers\<close>: the loop joins every worker; \<open>status\<close> remembers a failed join.
\<close>

fun join_loop ::
    "coin_tpool_thread_t list \<Rightarrow> coin_status_t \<Rightarrow> tp_world \<Rightarrow>
     (cfault + (coin_status_t \<times> coin_tpool_thread_t list \<times> tp_world)) option" where
  "join_loop [] status w = Some (Inr (status, [], w))"
| "join_loop (t # ts) status w =
     o_then (thread_join True (tid t) w) (\<lambda>(err, ret, w).
       if err \<noteq> 0 then
         o_then (join_loop ts COIN_PTHREAD_JOIN_ERROR w) (\<lambda>(status, ts, w). Some (Inr (status, t # ts, w)))
       else
         o_then (join_loop ts status w) (\<lambda>(status, ts, w).
           Some (Inr (status, t\<lparr>p_retval := ret, thr_status := COIN_THREAD_JOINED\<rparr> # ts, w))))"

definition coin_tpool_stop_workers ::
    "tp_world \<Rightarrow> coin_threadpool_t \<Rightarrow> (cfault + (coin_status_t \<times> coin_threadpool_t \<times> tp_world)) option" where
  [op_defs]: "coin_tpool_stop_workers w pool =
     (case (p_threads pool, p_ctx pool) of
        (Own b ts, Own a ctx) \<Rightarrow>
          o_then (Some (mutex_lock Queue_Mutex w)) (\<lambda>(err, w).
            if err \<noteq> 0 then Some (Inr (COIN_PTHREAD_MUTEX_ERROR, pool, w))
            else
              (let pool = pool\<lparr>p_ctx := Own a (ctx\<lparr>ctx_b_shutdown := True\<rparr>)\<rparr> in
               o_then (Some (cond_call Cond_Broadcast Queue_Cond w)) (\<lambda>(err, w).
                 if err \<noteq> 0 then
                   o_then (Some (mutex_unlock Queue_Mutex w)) (\<lambda>(_, w). Some (Inr (COIN_PTHREAD_COND_ERROR, pool, w)))
                 else
                   o_then (Some (mutex_unlock Queue_Mutex w)) (\<lambda>(err, w).
                     if err \<noteq> 0 then Some (Inr (COIN_PTHREAD_MUTEX_ERROR, pool, w))
                     else
                       o_then (join_loop ts COIN_GENERIC_FAILURE w) (\<lambda>(status, ts, w).
                         Some (Inr (if status = COIN_PTHREAD_JOIN_ERROR then COIN_PTHREAD_JOIN_ERROR else COIN_SUCCESS,
                           pool\<lparr>p_threads := Own b ts\<rparr>, w)))))))
      | _ \<Rightarrow> Some (Inl Assert_Fail))"

subsection \<open>The pool\<close>

definition free_pool :: "tp_world \<Rightarrow> 'a owned \<Rightarrow> cfault + tp_world" where
  "free_pool w p =
     and_then (release (cq_mem (tw_heap w)) p) (\<lambda>m. Inr (w\<lparr>tw_heap := (tw_heap w)\<lparr>cq_mem := m\<rparr>\<rparr>))"

text \<open>\<open>pp_given\<close>: whether \<open>pp_tpool\<close> is not \<open>NULL\<close>. The result is what is stored there.\<close>

definition coin_tpool_init ::
    "tp_world \<Rightarrow> bool \<Rightarrow> size_t \<Rightarrow> (cfault + (coin_status_t \<times> coin_threadpool_t owned \<times> tp_world)) option" where
  [op_defs]: "coin_tpool_init w pp_given num =
     (if \<not> pp_given \<or> num = 0 then Some (Inr (COIN_INVALID_INPUT, ONull, w))
      else
        (case alloc (cq_mem (tw_heap w)) \<lparr>p_threads = ONull, p_ctx = ONull, num_workers = 0\<rparr> of
           (ONull, m) \<Rightarrow> Some (Inr (COIN_ALLOCATION_FAILURE, ONull, w\<lparr>tw_heap := (tw_heap w)\<lparr>cq_mem := m\<rparr>\<rparr>))
         | (Own p pool, m) \<Rightarrow>
             o_then (coin_tpool_ctx_init (w\<lparr>tw_heap := (tw_heap w)\<lparr>cq_mem := m\<rparr>\<rparr>)) (\<lambda>(status, c, w).
               if status \<noteq> COIN_SUCCESS then leave status (Some (free_pool w (Own p pool)))
               else
                 o_then (coin_initialize_workers w c num) (\<lambda>(status, ts, w).
                   if status \<noteq> COIN_SUCCESS then
                     o_then (coin_tpool_ctx_destroy w c) (\<lambda>(_, w).
                       leave status (Some (free_pool w (Own p pool))))
                   else
                     Some (Inr (COIN_SUCCESS,
                       Own p (pool\<lparr>p_ctx := c, num_workers := num, p_threads := ts\<rparr>), w))))))"

text \<open>
  \<open>coin_tpool_destroy\<close>. The workers return \<open>(void *)(intptr_t)err\<close>, and the loop over \<open>retvals\<close> reads
  an \<open>int\<close> through that value: \<open>err = 0\<close> is \<open>NULL\<close>, and another value points to no object.
\<close>

definition read_retval :: "ptr \<Rightarrow> cfault + int" where
  "read_retval p = (case p of NULL \<Rightarrow> Inl Null_Deref | Addr _ \<Rightarrow> Inl Out_Of_Bounds)"

fun read_retvals :: "coin_tpool_thread_t list \<Rightarrow> cfault + int list" where
  "read_retvals [] = Inr []"
| "read_retvals (t # ts) =
     and_then (read_retval (p_retval t)) (\<lambda>r. and_then (read_retvals ts) (\<lambda>rs. Inr (r # rs)))"

definition coin_tpool_destroy ::
    "tp_world \<Rightarrow> coin_threadpool_t owned \<Rightarrow> bool \<Rightarrow> (cfault + (coin_status_t \<times> tp_world)) option" where
  [op_defs]: "coin_tpool_destroy w p_tpool retvals_given =
     (case p_tpool of
        ONull \<Rightarrow> Some (Inr (COIN_INVALID_INPUT, w))
      | Own p pool \<Rightarrow>
          o_then (coin_tpool_stop_workers w pool) (\<lambda>(status, pool, w).
            if status \<noteq> COIN_SUCCESS then Some (Inr (status, w))
            else
              o_then (Some (if retvals_given then (case p_threads pool of ONull \<Rightarrow> Inr [] | Own _ ts \<Rightarrow> read_retvals ts)
                            else Inr [])) (\<lambda>_.
              o_then (coin_tpool_ctx_destroy w (p_ctx pool)) (\<lambda>(status, w).
                if status \<noteq> COIN_SUCCESS then Some (Inr (status, w))
                else
                  o_then (Some (free_pool w (p_threads pool))) (\<lambda>w.
                  o_then (Some (free_pool w p_tpool)) (\<lambda>w. Some (Inr (COIN_SUCCESS, w))))))))"

text \<open>\<open>coin_tpool_submit\<close>; the result is the status and the pool with its queue changed.\<close>

definition submit_cleanup_task :: "tp_world \<Rightarrow> nat \<Rightarrow> cfault + tp_world" where
  [op_defs]: "submit_cleanup_task w t =
     and_then (release (cq_mem (tw_heap w)) (Own t ())) (\<lambda>m.
       Inr (w\<lparr>tw_heap := (tw_heap w)\<lparr>cq_mem := m\<rparr>, tw_tasks := (tw_tasks w)(t := None)\<rparr>))"

definition coin_tpool_submit ::
    "tp_world \<Rightarrow> coin_threadpool_t owned \<Rightarrow> ptr \<Rightarrow> ptr \<Rightarrow> ptr \<Rightarrow>
     cfault + (coin_status_t \<times> coin_threadpool_t owned \<times> tp_world)" where
  [op_defs]: "coin_tpool_submit w p_tpool task_func p_task_arg free_arg_func =
     (case p_tpool of
        ONull \<Rightarrow> Inr (COIN_INVALID_INPUT, p_tpool, w)
      | Own p pool \<Rightarrow>
          (case p_ctx pool of
             ONull \<Rightarrow> Inr (COIN_INVALID_INPUT, p_tpool, w)
           | Own a ctx \<Rightarrow>
               if task_func = NULL \<or> p_task_arg = NULL then Inr (COIN_INVALID_INPUT, p_tpool, w)
               else
                 (case alloc (cq_mem (tw_heap w)) () of
                    (ONull, m) \<Rightarrow>
                      Inr (COIN_ALLOCATION_FAILURE, p_tpool, w\<lparr>tw_heap := (tw_heap w)\<lparr>cq_mem := m\<rparr>\<rparr>)
                  | (Own t _, m) \<Rightarrow>
                      (let w = w\<lparr>tw_heap := (tw_heap w)\<lparr>cq_mem := m\<rparr>, tw_tasks := (tw_tasks w)(t \<mapsto>
                             \<lparr>coin_task_func = task_func, coin_task_arg = p_task_arg,
                              coin_task_free_arg_func = free_arg_func\<rparr>)\<rparr> in
                       and_then (mutex_lock Queue_Mutex w) (\<lambda>(err, w).
                         if err \<noteq> 0 then
                           and_then (submit_cleanup_task w t) (\<lambda>w. Inr (COIN_PTHREAD_MUTEX_ERROR, p_tpool, w))
                         else
                           and_then (coin_queue_push (tw_heap w) (p_work_queue ctx) (Addr t)) (\<lambda>(status, q, h).
                             let w = w\<lparr>tw_heap := h\<rparr>; p_tpool = Own p (pool\<lparr>p_ctx := Own a (ctx\<lparr>p_work_queue := q\<rparr>)\<rparr>) in
                             if status \<noteq> COIN_SUCCESS then
                               and_then (mutex_unlock Queue_Mutex w) (\<lambda>(_, w).
                               and_then (submit_cleanup_task w t) (\<lambda>w. Inr (status, p_tpool, w)))
                             else
                               and_then (cond_call Cond_Signal Queue_Cond w) (\<lambda>(err, w).
                                 if err \<noteq> 0 then
                                   and_then (mutex_unlock Queue_Mutex w) (\<lambda>(_, w).
                                     Inr (COIN_PTHREAD_COND_ERROR, p_tpool, w))
                                 else
                                   and_then (mutex_unlock Queue_Mutex w) (\<lambda>(err, w).
                                     Inr (if err \<noteq> 0 then COIN_PTHREAD_MUTEX_ERROR else status, p_tpool, w)))))))))"

end
