(* ===== verification/Tpool_Life.thy ===== *)
theory Tpool_Life
  imports Tpool
begin

text \<open>
  What the calls of \<open>Tpool\<close> do with a pool: the outcomes of setting it up, submitting to it and
  taking it down, with the ledger of blocks, synchronisation objects and threads on every path.
\<close>

definition sound :: "tp_world \<Rightarrow> bool" where
  "sound w \<longleftrightarrow> mem_ok (cq_mem (tw_heap w)) \<and>
     (\<forall>n. tw_res w Mutex_Destroy n = 0 \<and> tw_res w Cond_Destroy n = 0 \<and> tw_res w Attr_Destroy n = 0)"

text \<open>What no call changes.\<close>

definition keeps :: "tp_world \<Rightarrow> tp_world \<Rightarrow> bool" where
  "keeps w w' \<longleftrightarrow> tw_res w' = tw_res w \<and> tw_ends w' = tw_ends w \<and> tw_retval w' = tw_retval w \<and>
     grant (cq_mem (tw_heap w')) = grant (cq_mem (tw_heap w)) \<and> mem_ok (cq_mem (tw_heap w'))"

abbreviation blocks :: "tp_world \<Rightarrow> nat set" where
  "blocks w \<equiv> live (cq_mem (tw_heap w))"

abbreviation pool_objects :: "sync_obj set" where
  "pool_objects \<equiv> {Queue_Mutex, Queue_Cond, Active_Mutex, Active_Cond}"

lemmas call_defs = sync_init_def sync_destroy_def mutex_lock_def mutex_unlock_def cond_call_def pcall_def sigmask_def

lemma two_fresh: "mem_ok m \<Longrightarrow> asked m \<notin> live m \<and> Suc (asked m) \<notin> live m"
  by (auto simp: mem_ok_def)

subsection \<open>The context\<close>

lemma ctx_init_ok:
  assumes "sound w" and "tw_inited w = {}"
  shows "\<exists>st c w'. coin_tpool_ctx_init w = Some (Inr (st, c, w')) \<and> keeps w w' \<and>
    nodes (tw_heap w') = nodes (tw_heap w) \<and> tw_tasks w' = tw_tasks w \<and> tw_held w' = tw_held w \<and>
    tw_blocked w' = tw_blocked w \<and> tw_threads w' = tw_threads w \<and>
    (if st = COIN_SUCCESS
     then tw_inited w' = pool_objects \<and>
       (\<exists>a q. c = Own a \<lparr>ctx_b_shutdown = False, p_work_queue = Own q \<lparr>p_head = NULL, p_tail = NULL, cq_size = 0\<rparr>,
            ctx_active_tasks = 0\<rparr> \<and> a \<noteq> q \<and> a \<notin> blocks w \<and> q \<notin> blocks w \<and> blocks w' = blocks w \<union> {a, q})
     else c = ONull \<and> tw_inited w' = {} \<and> blocks w' = blocks w)"
  using assms two_fresh [of "cq_mem (tw_heap w)"] unfolding coin_tpool_ctx_init_def sound_def
  by (auto simp: alloc_def Let_def call_defs leave_def coin_queue_init_def coin_queue_destroy_def
    destroy_loop.simps [of _ NULL] ctx_cleanup_ctx_def ctx_cleanup_queue_mutex_def ctx_cleanup_queue_cond_def
    ctx_cleanup_queue_def ctx_cleanup_tasks_mutex_def release_def keeps_def mem_ok_def less_SucI split: if_splits)

lemma ctx_destroy_ok:
  assumes "sound w" and "pool_objects \<subseteq> tw_inited w" and "cq_rep (tw_heap w) q ns"
    and "p_work_queue ctx = Own b q" and "distinct (a # b # map fst ns @ task_blocks ns)"
    and "{a, b} \<union> set (task_blocks ns) \<subseteq> blocks w"
  shows "\<exists>w'. coin_tpool_ctx_destroy w (Own a ctx) = Some (Inr (COIN_SUCCESS, w')) \<and> keeps w w' \<and>
    nodes (tw_heap w') = Map.empty \<and> tw_tasks w' = tw_tasks w \<and> tw_held w' = tw_held w \<and>
    tw_blocked w' = tw_blocked w \<and> tw_threads w' = tw_threads w \<and> tw_inited w' = tw_inited w - pool_objects \<and>
    blocks w' = blocks w - ({a, b} \<union> set (map fst ns @ task_blocks ns))"
proof -
  have "b \<in> blocks w" "distinct (b # map fst ns @ task_blocks ns)" "set (task_blocks ns) \<subseteq> blocks w"
    using assms(5,6) by auto
  from cq_destroy_ok [OF assms(3) this] obtain h where h:
    "coin_queue_destroy (tw_heap w) (Own b q) = Some (Inr (COIN_SUCCESS, h))"
    "live (cq_mem h) = blocks w - ({b} \<union> set (map fst ns) \<union> set (task_blocks ns))"
    "nodes h = Map.empty" "grant (cq_mem h) = grant (cq_mem (tw_heap w))" "asked (cq_mem h) = asked (cq_mem (tw_heap w))"
    by blast
  then have "a \<in> live (cq_mem h)" "mem_ok (cq_mem h)"
    using assms(1,5,6) by (auto simp: sound_def mem_ok_def)
  with h show ?thesis
    using assms(1,2,4) by (auto simp: coin_tpool_ctx_destroy_def call_defs sound_def Let_def release_def keeps_def mem_ok_def)
qed

subsection \<open>The workers\<close>

lemma create_loop_ok:
  "\<exists>err new w'. create_loop left created w = (err, created @ new, w') \<and>
    w' = w\<lparr>tw_calls := tw_calls w', tw_threads := tw_threads w \<union> tid ` set new\<rparr> \<and> tw_calls w \<le> tw_calls w' \<and>
    (if err = 0 then length new = left else length new < left) \<and> distinct (map tid new) \<and>
    (\<forall>t \<in> set new. tw_calls w \<le> tid t)"
proof (induction left arbitrary: created w)
  case 0
  then show ?case by (intro exI [of _ 0] exI [of _ "[]"] exI [of _ w]) simp
next
  case (Suc left)
  let ?t = "tw_calls w"
  let ?th = "\<lparr>tid = ?t, thr_status = COIN_THREAD_STARTED, p_retval = NULL\<rparr>"
  let ?w = "w\<lparr>tw_calls := Suc ?t, tw_threads := insert ?t (tw_threads w)\<rparr>"
  show ?case
  proof (cases "tw_res w Thread_Create ?t = 0")
    case False
    then show ?thesis
      by (intro exI [of _ "tw_res w Thread_Create ?t"] exI [of _ "[]"] exI [of _ "w\<lparr>tw_calls := Suc ?t\<rparr>"])
        (simp add: thread_create_def pcall_def Let_def)
  next
    case True
    from Suc [of "created @ [?th]" ?w] obtain err new w' where IH:
      "create_loop left (created @ [?th]) ?w = (err, (created @ [?th]) @ new, w')"
      "w' = ?w\<lparr>tw_calls := tw_calls w', tw_threads := tw_threads ?w \<union> tid ` set new\<rparr>" "Suc ?t \<le> tw_calls w'"
      "if err = 0 then length new = left else length new < left" "distinct (map tid new)"
      "\<forall>t \<in> set new. Suc ?t \<le> tid t"
      by auto
    have "create_loop (Suc left) created w = (err, created @ ?th # new, w')"
      using IH(1) True by (simp add: thread_create_def pcall_def Let_def)
    moreover have "?t \<notin> tid ` set new"
      using IH(6) by fastforce
    moreover have "w' = w\<lparr>tw_calls := tw_calls w', tw_threads := tw_threads w \<union> tid ` set (?th # new)\<rparr>"
      by (subst IH(2)) simp
    ultimately show ?thesis
      using IH(3-6) by (intro exI [of _ err] exI [of _ "?th # new"] exI [of _ w']) (auto simp: Suc_le_eq)
  qed
qed

lemma join_created_blocks:
  "ts \<noteq> [] \<Longrightarrow> (\<And>t. \<not> tw_ends w t) \<Longrightarrow> join_created False ts w = None"
  by (cases ts) (auto simp: thread_join_def)

text \<open>A worker that was joined: its result is recorded.\<close>

definition joined :: "tp_world \<Rightarrow> coin_tpool_thread_t \<Rightarrow> coin_tpool_thread_t" where
  "joined w t = t\<lparr>p_retval := tw_retval w (tid t), thr_status := COIN_THREAD_JOINED\<rparr>"

lemma join_loop_ok:
  assumes "\<And>n. tw_res w Thread_Join n = 0"
  shows "join_loop ts st w = Some (Inr (st, map (joined w) ts,
    w\<lparr>tw_calls := tw_calls w + length ts, tw_threads := tw_threads w - tid ` set ts\<rparr>))"
  using assms
proof (induction ts arbitrary: w)
  case (Cons t ts)
  let ?w = "w\<lparr>tw_calls := Suc (tw_calls w), tw_threads := tw_threads w - {tid t}\<rparr>"
  have "join_loop ts st ?w = Some (Inr (st, map (joined ?w) ts,
      ?w\<lparr>tw_calls := tw_calls ?w + length ts, tw_threads := tw_threads ?w - tid ` set ts\<rparr>))"
    by (rule Cons.IH) (simp add: Cons.prems)
  moreover have "joined ?w = joined w"
    by (simp add: joined_def fun_eq_iff)
  ultimately show ?case
    using Cons.prems by (simp add: thread_join_def pcall_def Let_def joined_def Diff_insert2 [symmetric])
qed simp

lemma initialize_workers_ok:
  assumes "sound w" and "Create_Attr \<notin> tw_inited w" and "\<And>t. \<not> tw_ends w t"
    and "c = Own a ctx" and "\<not> ctx_b_shutdown ctx" and "num \<noteq> 0" and "tw_threads w = {}"
  shows "coin_initialize_workers w c num = None \<or>
    (\<exists>st ts w'. coin_initialize_workers w c num = Some (Inr (st, ts, w')) \<and> keeps w w' \<and>
      nodes (tw_heap w') = nodes (tw_heap w) \<and> tw_tasks w' = tw_tasks w \<and> tw_held w' = tw_held w \<and>
      (if st = COIN_SUCCESS
       then tw_inited w' = insert Create_Attr (tw_inited w) \<and> \<not> tw_blocked w' \<and>
         (\<exists>b l. ts = Own b l \<and> length l = unat num \<and> b \<notin> blocks w \<and> blocks w' = insert b (blocks w) \<and>
            tw_threads w' = tid ` set l \<and> distinct (map tid l))
       else ts = ONull \<and> blocks w' = blocks w \<and> tw_threads w' = {} \<and>
         st \<in> {COIN_ALLOCATION_FAILURE, COIN_PTHREAD_SIGMASK_ERROR, COIN_PTHREAD_CREATE_ERROR} \<and>
         tw_inited w' = (if st = COIN_ALLOCATION_FAILURE then insert Create_Attr (tw_inited w) else tw_inited w) \<and>
         tw_blocked w' = (if st = COIN_PTHREAD_SIGMASK_ERROR then tw_blocked w else True)))"
proof -
  define w3 where "w3 = w\<lparr>tw_inited := insert Create_Attr (tw_inited w), tw_calls := Suc (Suc (Suc (tw_calls w))),
    tw_blocked := True\<rparr>"
  let ?m = "cq_mem (tw_heap w)"
  define w4 where "w4 = w3\<lparr>tw_heap := (tw_heap w)\<lparr>cq_mem := ?m\<lparr>asked := Suc (asked ?m), live := insert (asked ?m) (live ?m)\<rparr>\<rparr>\<rparr>"
  obtain err l w5 where loop: "create_loop (unat num) [] w4 = (err, l, w5)"
    "w5 = w4\<lparr>tw_calls := tw_calls w5, tw_threads := tid ` set l\<rparr>"
    "if err = 0 then length l = unat num else length l < unat num" "distinct (map tid l)"
    using create_loop_ok [of "unat num" "[]" w4] assms(7) by (auto simp: w4_def w3_def)
  have "unat num \<noteq> 0"
    using assms(6) by (metis unat_eq_zero)
  with loop(3) have l0: "l = [] \<Longrightarrow> err \<noteq> 0"
    by auto
  define k where "k = tw_calls w5"
  have w5: "w5 = w\<lparr>tw_heap := tw_heap w4, tw_calls := k, tw_inited := insert Create_Attr (tw_inited w),
      tw_blocked := True, tw_threads := tid ` set l\<rparr>"
    by (subst loop(2)) (simp add: w4_def w3_def k_def)
  have ends: "\<not> tw_ends w5 t" for t
    using assms(3) by (subst w5) simp
  let ?n = "tw_calls w"
  show ?thesis
  proof (cases "tw_res w Attr_Init ?n = 0 \<and> tw_res w Sig_Fill_Set (Suc ?n) = 0 \<and>
      tw_res w Sig_Mask (Suc (Suc ?n)) = 0 \<and> grant ?m (asked ?m)")
    case False
    then show ?thesis
      using assms(1,2,4-7) unfolding coin_initialize_workers_def sound_def
      by (auto simp: Let_def call_defs leave_def workers_cleanup_attr_def alloc_def keeps_def split: if_splits)
  next
    case True
    have res: "tw_res w5 = tw_res w"
      by (subst w5) simp
    have eq: "coin_initialize_workers w c num =
       (if err \<noteq> 0 then leave COIN_PTHREAD_CREATE_ERROR (workers_cleanup_threads False (asked ?m) l w5)
        else (let (err, w) = sigmask False w5 in
          if err \<noteq> 0 then leave COIN_PTHREAD_SIGMASK_ERROR (workers_cleanup_threads False (asked ?m) l w)
          else Some (Inr (COIN_SUCCESS, Own (asked ?m) l, w))))"
      using True loop(1) [unfolded w4_def w3_def] assms(4-6) unfolding coin_initialize_workers_def
      by (simp add: Let_def call_defs alloc_def)
    show ?thesis
    proof (cases "l = []")
      case True
      let ?w = "w5\<lparr>tw_calls := Suc (tw_calls w5), tw_inited := tw_inited w, tw_heap := (tw_heap w)\<lparr>cq_mem :=
        ?m\<lparr>asked := Suc (asked ?m)\<rparr>\<rparr>\<rparr>"
      have "coin_initialize_workers w c num = Some (Inr (COIN_PTHREAD_CREATE_ERROR, ONull, ?w))"
        using True l0 assms(1,2) unfolding eq w5
        by (simp add: workers_cleanup_threads_def workers_cleanup_attr_def call_defs leave_def Let_def sound_def
            release_def w4_def w3_def mem_ok_fresh)
      moreover have "keeps w ?w"
        using assms(1) by (simp add: keeps_def sound_def w5)
      ultimately show ?thesis
        using True by (auto simp: w5)
    next
      case False
      then have none: "workers_cleanup_threads False (asked ?m) l w5 = None"
          "workers_cleanup_threads False (asked ?m) l (w5\<lparr>tw_calls := k\<rparr>) = None" for k
        using ends by (simp_all add: workers_cleanup_threads_def join_created_blocks)
      then show ?thesis
        unfolding eq using loop(3,4) assms(1) mem_ok_fresh
        by (auto simp: leave_def sigmask_def pcall_def Let_def keeps_def sound_def w5 w4_def w3_def)
    qed
  qed
qed

text \<open>Which of the calls of \<open>pthread_create\<close> decide how the loop ends.\<close>

lemma create_loop_calls:
  assumes "create_loop left created w = (err, ts, w')"
  shows "(err = 0 \<longleftrightarrow> (\<forall>j < left. tw_res w Thread_Create (tw_calls w + j) = 0)) \<and>
    (err = 0 \<longrightarrow> tw_calls w' = tw_calls w + left) \<and>
    (left \<noteq> 0 \<longrightarrow> (ts = created \<longleftrightarrow> tw_res w Thread_Create (tw_calls w) \<noteq> 0))"
  using assms
proof (induction left arbitrary: created w)
  case (Suc left)
  let ?t = "tw_calls w"
  let ?th = "\<lparr>tid = ?t, thr_status = COIN_THREAD_STARTED, p_retval = NULL\<rparr>"
  let ?w = "w\<lparr>tw_calls := Suc ?t, tw_threads := insert ?t (tw_threads w)\<rparr>"
  show ?case
  proof (cases "tw_res w Thread_Create ?t = 0")
    case False
    then show ?thesis using Suc.prems by (auto simp: thread_create_def pcall_def Let_def)
  next
    case True
    then have run: "create_loop left (created @ [?th]) ?w = (err, ts, w')"
      using Suc.prems by (simp add: thread_create_def pcall_def Let_def)
    obtain new where "ts = (created @ [?th]) @ new"
      using create_loop_ok [of left "created @ [?th]" ?w] run by auto
    moreover have "(\<forall>j < Suc left. tw_res w Thread_Create (?t + j) = 0) \<longleftrightarrow>
        (\<forall>j < left. tw_res w Thread_Create (Suc ?t + j) = 0)"
      using True by (auto simp: less_Suc_eq_0_disj)
    ultimately show ?thesis using Suc.IH [OF run] True by auto
  qed
qed simp

text \<open>The world when the first worker is about to be created, and what follows.\<close>

definition before_create :: "tp_world \<Rightarrow> tp_world" where
  "before_create w = w\<lparr>tw_inited := insert Create_Attr (tw_inited w), tw_calls := Suc (Suc (Suc (tw_calls w))),
     tw_blocked := True, tw_heap := (tw_heap w)\<lparr>cq_mem := (cq_mem (tw_heap w))\<lparr>asked := Suc (asked (cq_mem (tw_heap w))),
       live := insert (asked (cq_mem (tw_heap w))) (live (cq_mem (tw_heap w)))\<rparr>\<rparr>\<rparr>"

lemma workers_create:
  assumes "num \<noteq> 0" and "grant (cq_mem (tw_heap w)) (asked (cq_mem (tw_heap w)))"
    and "tw_res w Attr_Init (tw_calls w) = 0" and "tw_res w Sig_Fill_Set (tw_calls w + 1) = 0"
    and "tw_res w Sig_Mask (tw_calls w + 2) = 0"
  shows "coin_initialize_workers w (Own a ctx) num =
    (let b = asked (cq_mem (tw_heap w)); (err, ts, w) = create_loop (unat num) [] (before_create w) in
     if err \<noteq> 0 then leave COIN_PTHREAD_CREATE_ERROR (workers_cleanup_threads (ctx_b_shutdown ctx) b ts w)
     else (let (err, w) = sigmask False w in
       if err \<noteq> 0 then leave COIN_PTHREAD_SIGMASK_ERROR (workers_cleanup_threads (ctx_b_shutdown ctx) b ts w)
       else Some (Inr (COIN_SUCCESS, Own b ts, w))))"
  using assms by (simp add: coin_initialize_workers_def before_create_def Let_def call_defs alloc_def)

text \<open>
  How the workers are started, once the attribute, the signal set and the mask are there: which
  calls decide that the function fails, never returns, or succeeds.
\<close>

lemma workers_outcome:
  assumes "num \<noteq> 0" and "tw_res w Attr_Init (tw_calls w) = 0" and "tw_res w Sig_Fill_Set (tw_calls w + 1) = 0"
    and "tw_res w Sig_Mask (tw_calls w + 2) = 0"
    and "\<And>t. \<not> tw_ends w t" and "\<not> ctx_b_shutdown ctx" and "sound w"
  shows "if \<not> grant (cq_mem (tw_heap w)) (asked (cq_mem (tw_heap w))) then
      \<exists>w'. coin_initialize_workers w (Own a ctx) num = Some (Inr (COIN_ALLOCATION_FAILURE, ONull, w'))
    else if tw_res w Thread_Create (tw_calls w + 3) \<noteq> 0 then
      \<exists>w'. coin_initialize_workers w (Own a ctx) num = Some (Inr (COIN_PTHREAD_CREATE_ERROR, ONull, w'))
    else if (\<exists>j < unat num. tw_res w Thread_Create (tw_calls w + 3 + j) \<noteq> 0) \<or>
        tw_res w Sig_Mask (tw_calls w + 3 + unat num) \<noteq> 0 then
      coin_initialize_workers w (Own a ctx) num = None
    else \<exists>r w'. coin_initialize_workers w (Own a ctx) num = Some (Inr (COIN_SUCCESS, r, w'))"
proof (cases "grant (cq_mem (tw_heap w)) (asked (cq_mem (tw_heap w)))")
  case False
  then show ?thesis
    using assms(1-4) by (simp add: coin_initialize_workers_def Let_def call_defs alloc_def)
next
  case True
  let ?w = "before_create w"
  have w: "tw_calls ?w = tw_calls w + 3" "tw_res ?w = tw_res w" "tw_ends ?w = tw_ends w"
    by (simp_all add: before_create_def)
  obtain err ts w5 where loop: "create_loop (unat num) [] ?w = (err, ts, w5)"
    and w5: "w5 = ?w\<lparr>tw_calls := tw_calls w5, tw_threads := tw_threads ?w \<union> tid ` set ts\<rparr>"
    using create_loop_ok [of "unat num" "[]" ?w] by auto
  have same: "tw_ends w5 = tw_ends w" "tw_res w5 = tw_res w" "tw_heap w5 = tw_heap ?w" "tw_inited w5 = tw_inited ?w"
    by (subst w5, simp add: w)+
  have n: "unat num \<noteq> 0" using assms(1) by (metis unat_eq_zero)
  have decide: "err = 0 \<longleftrightarrow> (\<forall>j < unat num. tw_res w Thread_Create (tw_calls w + 3 + j) = 0)"
    "err = 0 \<longrightarrow> tw_calls w5 = tw_calls w + 3 + unat num" "ts = [] \<longleftrightarrow> tw_res w Thread_Create (tw_calls w + 3) \<noteq> 0"
    using create_loop_calls [OF loop] n unfolding w by auto
  have none: "workers_cleanup_threads False b ts (w5\<lparr>tw_calls := k\<rparr>) = None" if "ts \<noteq> []" for b k
    using that assms(5) same(1) by (simp add: workers_cleanup_threads_def join_created_blocks)
  show ?thesis
  proof (cases "ts = []")
    case True
    then have "err \<noteq> 0" using decide n by (metis add.right_neutral neq0_conv)
    moreover have "\<exists>w'. workers_cleanup_threads False (asked (cq_mem (tw_heap w))) [] w5 = Some (Inr w')"
      using assms(7) same
      by (simp add: workers_cleanup_threads_def workers_cleanup_attr_def before_create_def call_defs release_def Let_def)
    ultimately show ?thesis
      using True decide(3) \<open>grant _ _\<close> assms(6) unfolding workers_create [OF assms(1) \<open>grant _ _\<close> assms(2-4)] loop
      by (auto simp: Let_def leave_def)
  next
    case False
    then show ?thesis
      using none [OF False] none [OF False, of _ "tw_calls w5"] decide \<open>grant _ _\<close> assms(6) same(2)
      unfolding workers_create [OF assms(1) \<open>grant _ _\<close> assms(2-4)] loop
      by (auto simp: Let_def leave_def sigmask_def pcall_def)
  qed
qed

subsection \<open>A pool and what it owns\<close>

text \<open>\<open>pool_rep w p pool ns F\<close>: a pool at block \<open>p\<close> whose queue holds the nodes \<open>ns\<close>; \<open>F\<close> is every
  block it owns, the nodes and the queued tasks included.\<close>

definition pool_rep :: "tp_world \<Rightarrow> nat \<Rightarrow> coin_threadpool_t \<Rightarrow> (nat \<times> ptr) list \<Rightarrow> nat set \<Rightarrow> bool" where
  "pool_rep w p pool ns F \<longleftrightarrow> (\<exists>b ts a ctx qb q.
     p_threads pool = Own b ts \<and> length ts = unat (num_workers pool) \<and> tid ` set ts = tw_threads w \<and>
     p_ctx pool = Own a ctx \<and> p_work_queue ctx = Own qb q \<and> cq_rep (tw_heap w) q ns \<and>
     distinct (p # b # a # qb # map fst ns @ task_blocks ns) \<and>
     F = set (p # b # a # qb # map fst ns @ task_blocks ns) \<and> F \<subseteq> blocks w \<and> pool_objects \<subseteq> tw_inited w)"

text \<open>\<open>coin_tpool_init\<close> up to the start of the workers, when nothing fails.\<close>

lemma init_context:
  assumes "sound w" and "tw_inited w = {}" and "tw_threads w = {}" and "nodes (tw_heap w) = Map.empty"
    and "num \<noteq> 0"
    and "\<forall>k. \<forall>j < 7. tw_res w k (tw_calls w + j) = 0"
    and "\<forall>j < 3. grant (cq_mem (tw_heap w)) (asked (cq_mem (tw_heap w)) + j)"
  obtains a ctx q p pool w1 where "tw_calls w1 + 3 = tw_calls w + 7"
    "asked (cq_mem (tw_heap w1)) = asked (cq_mem (tw_heap w)) + 3" "keeps w w1"
    "sound w1" "tw_inited w1 = pool_objects" "tw_threads w1 = {}" "nodes (tw_heap w1) = Map.empty"
    "ctx = \<lparr>ctx_b_shutdown = False, p_work_queue = Own q \<lparr>p_head = NULL, p_tail = NULL, cq_size = 0\<rparr>,
      ctx_active_tasks = 0\<rparr>"
    "distinct [p, a, q]" "{p, a, q} \<subseteq> blocks w1" "blocks w1 - {p, a, q} = blocks w"
    "coin_tpool_init w True num = o_then (coin_initialize_workers w1 (Own a ctx) num) (\<lambda>(status, ts, w).
       if status \<noteq> COIN_SUCCESS then
         o_then (coin_tpool_ctx_destroy w (Own a ctx)) (\<lambda>(_, w). leave status (Some (free_pool w (Own p pool))))
       else Some (Inr (COIN_SUCCESS, Own p (pool\<lparr>p_ctx := Own a ctx, num_workers := num, p_threads := ts\<rparr>), w)))"
proof -
  let ?m = "cq_mem (tw_heap w)" let ?k = "asked ?m" let ?n = "tw_calls w"
  define ctx where "ctx = \<lparr>ctx_b_shutdown = False, p_work_queue = Own (Suc (Suc ?k))
    \<lparr>p_head = NULL, p_tail = NULL, cq_size = 0\<rparr>, ctx_active_tasks = 0\<rparr>"
  define w1 where "w1 = w\<lparr>tw_heap := (tw_heap w)\<lparr>cq_mem := ?m\<lparr>asked := Suc (Suc (Suc ?k)),
      live := {Suc (Suc ?k), Suc ?k, ?k} \<union> live ?m\<rparr>\<rparr>,
    tw_calls := Suc (Suc (Suc (Suc ?n))), tw_inited := {Active_Cond, Active_Mutex, Queue_Cond, Queue_Mutex}\<rparr>"
  let ?pool = "\<lparr>p_threads = ONull, p_ctx = ONull, num_workers = 0\<rparr>"
  have "tw_res w Mutex_Init ?n = 0" "tw_res w Cond_Init (Suc ?n) = 0" "tw_res w Mutex_Init (Suc (Suc ?n)) = 0"
    "tw_res w Cond_Init (Suc (Suc (Suc ?n))) = 0" "grant ?m ?k" "grant ?m (Suc ?k)" "grant ?m (Suc (Suc ?k))"
    using assms(6) [rule_format, of 0] assms(6) [rule_format, of 1] assms(6) [rule_format, of 2]
      assms(6) [rule_format, of 3] assms(7) [rule_format, of 0] assms(7) [rule_format, of 1] assms(7) [rule_format, of 2]
    by (simp_all add: eval_nat_numeral)
  then have "coin_tpool_init w True num = o_then (coin_initialize_workers w1 (Own (Suc ?k) ctx) num) (\<lambda>(status, ts, w).
       if status \<noteq> COIN_SUCCESS then
         o_then (coin_tpool_ctx_destroy w (Own (Suc ?k) ctx)) (\<lambda>(_, w). leave status (Some (free_pool w (Own ?k ?pool))))
       else Some (Inr (COIN_SUCCESS, Own ?k (?pool\<lparr>p_ctx := Own (Suc ?k) ctx, num_workers := num, p_threads := ts\<rparr>), w)))"
    using assms(2,5) unfolding w1_def ctx_def
    by (simp add: coin_tpool_init_def coin_tpool_ctx_init_def alloc_def call_defs coin_queue_init_def Let_def)
  moreover have "blocks w1 - {?k, Suc ?k, Suc (Suc ?k)} = blocks w"
    using assms(1) by (auto simp: w1_def sound_def mem_ok_def)
  ultimately show thesis
    using assms(1,3,4)
    by (intro that [of w1 ctx "Suc (Suc ?k)" ?k "Suc ?k" ?pool])
      (auto simp: w1_def ctx_def keeps_def sound_def mem_ok_def)
qed

text \<open>\<open>coin_tpool_init\<close> from the start of the workers on.\<close>

lemma init_rest:
  assumes "sound w" and "tw_inited w = pool_objects" and "tw_threads w = {}" and "nodes (tw_heap w) = Map.empty"
    and "\<And>t. \<not> tw_ends w t" and "num \<noteq> 0" and "c = Own a ctx"
    and ctx: "ctx = \<lparr>ctx_b_shutdown = False, p_work_queue = Own q \<lparr>p_head = NULL, p_tail = NULL, cq_size = 0\<rparr>,
      ctx_active_tasks = 0\<rparr>"
    and d: "distinct [p, a, q]" and sub: "{p, a, q} \<subseteq> blocks w"
    and r: "r = o_then (coin_initialize_workers w c num) (\<lambda>(status, ts, w).
       if status \<noteq> COIN_SUCCESS then
         o_then (coin_tpool_ctx_destroy w c) (\<lambda>(_, w). leave status (Some (free_pool w (Own p pool))))
       else Some (Inr (COIN_SUCCESS, Own p (pool\<lparr>p_ctx := c, num_workers := num, p_threads := ts\<rparr>), w)))"
  shows "r = None \<and> coin_initialize_workers w c num = None \<or>
    (\<exists>st r' w'. r = Some (Inr (st, r', w')) \<and> tw_held w' = tw_held w \<and> keeps w w' \<and>
      (if st = COIN_SUCCESS
       then \<exists>pool F. r' = Own p pool \<and> num_workers pool = num \<and> pool_rep w' p pool [] F \<and>
         F \<inter> (blocks w - {p, a, q}) = {} \<and> blocks w' = (blocks w - {p, a, q}) \<union> F \<and> \<not> tw_blocked w'
       else r' = ONull \<and> blocks w' = blocks w - {p, a, q} \<and> tw_threads w' = {} \<and>
         st \<in> {COIN_ALLOCATION_FAILURE, COIN_PTHREAD_SIGMASK_ERROR, COIN_PTHREAD_CREATE_ERROR} \<and>
         tw_inited w' = (if st = COIN_ALLOCATION_FAILURE then {Create_Attr} else {}) \<and>
         tw_blocked w' = (if st = COIN_PTHREAD_SIGMASK_ERROR then tw_blocked w else True)))"
proof (cases "coin_initialize_workers w c num")
  case (Some x)
  have "Create_Attr \<notin> tw_inited w" "\<not> ctx_b_shutdown ctx"
    using assms(2) ctx by simp_all
  from initialize_workers_ok [OF assms(1) this(1) assms(5,7) this(2) assms(6,3), unfolded assms(2,4)] Some
  obtain st ts w1 where x: "x = Inr (st, ts, w1)" and k: "keeps w w1" "nodes (tw_heap w1) = Map.empty" "tw_held w1 = tw_held w"
    and out: "if st = COIN_SUCCESS
       then tw_inited w1 = insert Create_Attr pool_objects \<and> \<not> tw_blocked w1 \<and>
         (\<exists>b l. ts = Own b l \<and> length l = unat num \<and> b \<notin> blocks w \<and> blocks w1 = insert b (blocks w) \<and>
            tw_threads w1 = tid ` set l \<and> distinct (map tid l))
       else ts = ONull \<and> blocks w1 = blocks w \<and> tw_threads w1 = {} \<and>
         st \<in> {COIN_ALLOCATION_FAILURE, COIN_PTHREAD_SIGMASK_ERROR, COIN_PTHREAD_CREATE_ERROR} \<and>
         tw_inited w1 = (if st = COIN_ALLOCATION_FAILURE then insert Create_Attr pool_objects else pool_objects) \<and>
         tw_blocked w1 = (if st = COIN_PTHREAD_SIGMASK_ERROR then tw_blocked w else True)"
    by auto
  have rep: "cq_rep (tw_heap w1) \<lparr>p_head = NULL, p_tail = NULL, cq_size = 0\<rparr> []"
    using k by (simp add: cq_rep_def last_ptr_def keeps_def)
  have attr: "insert Create_Attr pool_objects - pool_objects = {Create_Attr}" by auto
  show ?thesis
  proof (cases "st = COIN_SUCCESS")
    case True
    then obtain b l where "ts = Own b l" "length l = unat num" "b \<notin> blocks w" "blocks w1 = insert b (blocks w)"
        "tw_threads w1 = tid ` set l" "tw_inited w1 = insert Create_Attr pool_objects" "\<not> tw_blocked w1"
      using out by auto
    then show ?thesis
      using Some x True rep d sub assms(7) ctx k r
      by (auto simp: pool_rep_def task_blocks_def intro!: exI [of _ "{p, b, a, q}"])
  next
    case False
    have "sound w1"
      using assms(1) k(1) by (simp add: sound_def keeps_def)
    moreover have "pool_objects \<subseteq> tw_inited w1" "{a, q} \<union> set (task_blocks []) \<subseteq> blocks w1"
      using out False sub by (auto split: if_splits)
    ultimately obtain w2 where w2: "coin_tpool_ctx_destroy w1 (Own a ctx) = Some (Inr (COIN_SUCCESS, w2))" "keeps w1 w2"
        "tw_held w2 = tw_held w1" "tw_blocked w2 = tw_blocked w1" "tw_threads w2 = tw_threads w1"
        "tw_inited w2 = tw_inited w1 - pool_objects" "blocks w2 = blocks w1 - {a, q}"
      using ctx_destroy_ok [OF _ _ rep, of ctx q a] ctx d by auto
    have k2: "keeps w w2" using k(1) w2(2) by (auto simp: keeps_def)
    have "p \<in> blocks w2"
      using w2(7) out False d sub by auto
    moreover from k2 have "keeps w (w2\<lparr>tw_heap := (tw_heap w2)\<lparr>cq_mem := (cq_mem (tw_heap w2))\<lparr>live := blocks w2 - {p}\<rparr>\<rparr>\<rparr>)"
      by (auto simp: keeps_def mem_ok_def)
    ultimately show ?thesis
      using Some x False w2 out k(3) assms(7) r attr by (auto simp: leave_def free_pool_def release_def)
  qed
qed (simp add: r)

lemma tpool_init_ok:
  assumes "sound w" and "tw_inited w = {}" and "tw_threads w = {}" and "nodes (tw_heap w) = Map.empty"
    and "\<And>t. \<not> tw_ends w t" and "num \<noteq> 0"
  shows "coin_tpool_init w True num = None \<or>
    (\<exists>st r w'. coin_tpool_init w True num = Some (Inr (st, r, w')) \<and> tw_held w' = tw_held w \<and> keeps w w' \<and>
      (if st = COIN_SUCCESS
       then \<exists>p pool F. r = Own p pool \<and> num_workers pool = num \<and> pool_rep w' p pool [] F \<and>
         F \<inter> blocks w = {} \<and> blocks w' = blocks w \<union> F \<and> \<not> tw_blocked w'
       else r = ONull \<and> blocks w' = blocks w \<and> tw_threads w' = {} \<and>
         (tw_inited w' = {} \<or> st = COIN_ALLOCATION_FAILURE \<and> tw_inited w' = {Create_Attr}) \<and>
         (tw_blocked w' = tw_blocked w \<or> st \<in> {COIN_ALLOCATION_FAILURE, COIN_PTHREAD_CREATE_ERROR})))"
proof (cases "grant (cq_mem (tw_heap w)) (asked (cq_mem (tw_heap w)))")
  case False
  moreover have "keeps w (w\<lparr>tw_heap := (tw_heap w)\<lparr>cq_mem := (cq_mem (tw_heap w))\<lparr>asked := Suc (asked (cq_mem (tw_heap w)))\<rparr>\<rparr>\<rparr>)"
    using assms(1) by (simp add: keeps_def sound_def)
  ultimately show ?thesis
    using assms(2,3,6) by (simp add: coin_tpool_init_def alloc_def)
next
  case True
  let ?m = "cq_mem (tw_heap w)"
  let ?p = "asked ?m"
  let ?pool = "\<lparr>p_threads = ONull, p_ctx = ONull, num_workers = 0\<rparr>"
  let ?w = "w\<lparr>tw_heap := (tw_heap w)\<lparr>cq_mem := ?m\<lparr>asked := Suc ?p, live := insert ?p (live ?m)\<rparr>\<rparr>\<rparr>"
  have p: "?p \<notin> blocks w"
    using assms(1) mem_ok_fresh by (auto simp: sound_def)
  have w: "sound ?w" "tw_inited ?w = {}"
    using assms(1,2) by (auto simp: sound_def)
  obtain st c w1 where c: "coin_tpool_ctx_init ?w = Some (Inr (st, c, w1))" "keeps ?w w1"
    "nodes (tw_heap w1) = Map.empty" "tw_held w1 = tw_held w" "tw_blocked w1 = tw_blocked w" "tw_threads w1 = {}"
    "if st = COIN_SUCCESS
     then tw_inited w1 = pool_objects \<and>
       (\<exists>a q. c = Own a \<lparr>ctx_b_shutdown = False, p_work_queue = Own q \<lparr>p_head = NULL, p_tail = NULL, cq_size = 0\<rparr>,
            ctx_active_tasks = 0\<rparr> \<and> a \<noteq> q \<and> a \<notin> blocks ?w \<and> q \<notin> blocks ?w \<and> blocks w1 = blocks ?w \<union> {a, q})
     else c = ONull \<and> tw_inited w1 = {} \<and> blocks w1 = blocks ?w"
    using ctx_init_ok [OF w] assms(3,4) by auto
  have init: "coin_tpool_init w True num = (if st \<noteq> COIN_SUCCESS then leave st (Some (free_pool w1 (Own ?p ?pool)))
     else o_then (coin_initialize_workers w1 c num) (\<lambda>(status, ts, w).
       if status \<noteq> COIN_SUCCESS then
         o_then (coin_tpool_ctx_destroy w c) (\<lambda>(_, w). leave status (Some (free_pool w (Own ?p ?pool))))
       else Some (Inr (COIN_SUCCESS, Own ?p (?pool\<lparr>p_ctx := c, num_workers := num, p_threads := ts\<rparr>), w))))"
    using True c(1) assms(6) by (simp add: coin_tpool_init_def alloc_def)
  show ?thesis
  proof (cases "st = COIN_SUCCESS")
    case False
    have "keeps w (w1\<lparr>tw_heap := (tw_heap w1)\<lparr>cq_mem := (cq_mem (tw_heap w1))\<lparr>live := blocks w\<rparr>\<rparr>\<rparr>)"
      using c(2,7) False by (auto simp: keeps_def mem_ok_def)
    with False show ?thesis
      using c p unfolding init by (simp add: leave_def free_pool_def release_def)
  next
    case True
    then obtain a q ctx where cs: "c = Own a ctx" "ctx = \<lparr>ctx_b_shutdown = False, p_work_queue = Own q \<lparr>p_head = NULL, p_tail = NULL, cq_size = 0\<rparr>,
            ctx_active_tasks = 0\<rparr>" "distinct [?p, a, q]" "a \<notin> blocks w" "q \<notin> blocks w" "blocks w1 = blocks w \<union> {?p, a, q}"
       and in1: "tw_inited w1 = pool_objects"
      using c(7) by (auto simp: insert_commute)
    have s1: "sound w1"
      using c(2) w(1) by (simp add: sound_def keeps_def)
    have B: "blocks w1 - {?p, a, q} = blocks w" "{?p, a, q} \<subseteq> blocks w1" and E: "\<And>t. \<not> tw_ends w1 t"
      using cs p assms(5) c(2) by (auto simp: keeps_def)
    from init True have eq: "coin_tpool_init w True num = o_then (coin_initialize_workers w1 c num) (\<lambda>(status, ts, w).
       if status \<noteq> COIN_SUCCESS then
         o_then (coin_tpool_ctx_destroy w c) (\<lambda>(_, w). leave status (Some (free_pool w (Own ?p ?pool))))
       else Some (Inr (COIN_SUCCESS, Own ?p (?pool\<lparr>p_ctx := c, num_workers := num, p_threads := ts\<rparr>), w)))"
      by simp
    have k: "keeps w w2" if "keeps w1 w2" for w2
      using that c(2) by (simp add: keeps_def)
    from init_rest [OF s1 in1 c(6,3) E assms(6) cs(1,2,3) B(2) eq, unfolded B(1) c(4,5)]
    show ?thesis
      using k by (elim disjE exE conjE) (auto split: if_splits)
  qed
qed

text \<open>Which failures decide what becomes of the call, once the first calls succeeded.\<close>

lemma init_outcome:
  assumes "sound w" and "tw_inited w = {}" and "tw_threads w = {}" and "nodes (tw_heap w) = Map.empty"
    and "\<forall>t. \<not> tw_ends w t" and "num \<noteq> 0"
    and "\<forall>k. \<forall>j < 7. tw_res w k (tw_calls w + j) = 0"
    and "\<forall>j < 3. grant (cq_mem (tw_heap w)) (asked (cq_mem (tw_heap w)) + j)"
  defines "n \<equiv> tw_calls w + 7" and "array \<equiv> asked (cq_mem (tw_heap w)) + 3"
  shows "if \<not> grant (cq_mem (tw_heap w)) array then
      \<exists>w'. coin_tpool_init w True num = Some (Inr (COIN_ALLOCATION_FAILURE, ONull, w')) \<and>
        blocks w' = blocks w \<and> tw_blocked w' \<and> tw_inited w' = {Create_Attr}
    else if tw_res w Thread_Create n \<noteq> 0 then
      \<exists>w'. coin_tpool_init w True num = Some (Inr (COIN_PTHREAD_CREATE_ERROR, ONull, w')) \<and>
        blocks w' = blocks w \<and> tw_blocked w' \<and> tw_inited w' = {}
    else if (\<exists>j < unat num. tw_res w Thread_Create (n + j) \<noteq> 0) \<or> tw_res w Sig_Mask (n + unat num) \<noteq> 0 then
      coin_tpool_init w True num = None
    else \<exists>r w'. coin_tpool_init w True num = Some (Inr (COIN_SUCCESS, r, w'))"
proof -
  obtain a ctx q p pool w1 where w1: "tw_calls w1 + 3 = tw_calls w + 7" "asked (cq_mem (tw_heap w1)) = array" "keeps w w1"
    and pre: "sound w1" "tw_inited w1 = pool_objects" "tw_threads w1 = {}" "nodes (tw_heap w1) = Map.empty"
    and ctx: "ctx = \<lparr>ctx_b_shutdown = False, p_work_queue = Own q \<lparr>p_head = NULL, p_tail = NULL, cq_size = 0\<rparr>,
      ctx_active_tasks = 0\<rparr>"
    and bl: "distinct [p, a, q]" "{p, a, q} \<subseteq> blocks w1" "blocks w1 - {p, a, q} = blocks w"
    and init: "coin_tpool_init w True num = o_then (coin_initialize_workers w1 (Own a ctx) num) (\<lambda>(status, ts, w).
       if status \<noteq> COIN_SUCCESS then
         o_then (coin_tpool_ctx_destroy w (Own a ctx)) (\<lambda>(_, w). leave status (Some (free_pool w (Own p pool))))
       else Some (Inr (COIN_SUCCESS, Own p (pool\<lparr>p_ctx := Own a ctx, num_workers := num, p_threads := ts\<rparr>), w)))"
    unfolding array_def by (rule init_context [OF assms(1-4,6-8)])
  have ends: "\<not> tw_ends w1 t" for t using assms(5) w1(3) by (simp add: keeps_def)
  have calls: "tw_res w1 Attr_Init (tw_calls w1) = 0" "tw_res w1 Sig_Fill_Set (tw_calls w1 + 1) = 0"
    "tw_res w1 Sig_Mask (tw_calls w1 + 2) = 0"
    using assms(7) [rule_format, of 4] assms(7) [rule_format, of 5] assms(7) [rule_format, of 6] w1(1,3)
    by (simp_all add: keeps_def add.commute)
  have res: "tw_res w1 = tw_res w" "grant (cq_mem (tw_heap w1)) = grant (cq_mem (tw_heap w))"
    using w1(3) by (simp_all add: keeps_def)
  have "\<not> ctx_b_shutdown ctx" by (simp add: ctx)
  note start = workers_outcome [OF assms(6) calls ends this pre(1), where a = a, unfolded w1(1,2) res n_def [symmetric]]
  note rest = init_rest [OF pre(1-4) ends assms(6) refl ctx bl(1,2) init]
  have fails: "\<exists>w'. coin_tpool_init w True num = Some (Inr (st, ONull, w')) \<and> blocks w' = blocks w \<and>
      tw_inited w' = (if st = COIN_ALLOCATION_FAILURE then {Create_Attr} else {}) \<and> (st \<noteq> COIN_PTHREAD_SIGMASK_ERROR \<longrightarrow> tw_blocked w')"
    if i: "coin_initialize_workers w1 (Own a ctx) num = Some (Inr (st, ONull, w2))" "st \<noteq> COIN_SUCCESS" for st w2
  proof -
    from rest i obtain st' r' w' where r: "coin_tpool_init w True num = Some (Inr (st', r', w'))"
      "st' \<noteq> COIN_SUCCESS \<longrightarrow> r' = ONull \<and> blocks w' = blocks w \<and>
        tw_inited w' = (if st' = COIN_ALLOCATION_FAILURE then {Create_Attr} else {}) \<and>
        tw_blocked w' = (if st' = COIN_PTHREAD_SIGMASK_ERROR then tw_blocked w1 else True)"
      unfolding bl(3) by (auto split: if_splits)
    moreover have "st' = st"
      using r(1) i unfolding init by (auto simp: leave_def o_then_def split: option.splits sum.splits if_splits)
    ultimately show ?thesis using i(2) by auto
  qed
  show ?thesis
    using start fails by (auto simp: init split: if_splits)
qed

subsection \<open>Submitting\<close>

definition new_task :: "ptr \<Rightarrow> ptr \<Rightarrow> ptr \<Rightarrow> coin_task_t" where
  "new_task f x g = \<lparr>coin_task_func = f, coin_task_arg = x, coin_task_free_arg_func = g\<rparr>"

lemma pool_parts:
  assumes "pool_rep w p pool ns F"
  obtains b ts a ctx qb q where "p_threads pool = Own b ts" "length ts = unat (num_workers pool)"
     "tid ` set ts = tw_threads w" "p_ctx pool = Own a ctx" "p_work_queue ctx = Own qb q" "cq_rep (tw_heap w) q ns"
     "distinct (p # b # a # qb # map fst ns @ task_blocks ns)"
     "F = set (p # b # a # qb # map fst ns @ task_blocks ns)" "F \<subseteq> blocks w" "pool_objects \<subseteq> tw_inited w"
  using assms unfolding pool_rep_def by (elim exE conjE) (rule that)

lemma pool_repI:
  assumes "p_threads pool = Own b ts" "length ts = unat (num_workers pool)"
     "tid ` set ts = tw_threads w" "p_ctx pool = Own a ctx" "p_work_queue ctx = Own qb q" "cq_rep (tw_heap w) q ns"
     "distinct (p # b # a # qb # map fst ns @ task_blocks ns)"
     "F = set (p # b # a # qb # map fst ns @ task_blocks ns)" "F \<subseteq> blocks w" "pool_objects \<subseteq> tw_inited w"
  shows "pool_rep w p pool ns F"
  unfolding pool_rep_def by (intro exI conjI) (rule assms)+

text \<open>The parts of the world a pool does not depend on may change.\<close>

lemma pool_rep_frame:
  assumes rep: "pool_rep w p pool ns F" and "nodes (tw_heap w') = nodes (tw_heap w)" and "mem_ok (cq_mem (tw_heap w'))"
    and "blocks w' = blocks w" and "tw_threads w' = tw_threads w" and "tw_inited w' = tw_inited w"
  shows "pool_rep w' p pool ns F"
proof -
  obtain b ts a ctx qb q where P: "p_threads pool = Own b ts" "length ts = unat (num_workers pool)"
     "tid ` set ts = tw_threads w" "p_ctx pool = Own a ctx" "p_work_queue ctx = Own qb q" "cq_rep (tw_heap w) q ns"
     "distinct (p # b # a # qb # map fst ns @ task_blocks ns)"
     "F = set (p # b # a # qb # map fst ns @ task_blocks ns)" "F \<subseteq> blocks w" "pool_objects \<subseteq> tw_inited w"
    by (rule pool_parts [OF rep])
  have "cq_rep (tw_heap w') q ns"
    using P(6) assms(3) unfolding cq_rep_def assms(2,4) by blast
  from pool_repI [OF P(1,2) _ P(4,5) this P(7,8)] show ?thesis
    using P(3,9,10) assms(4-6) by simp
qed

lemma drop_fresh: "mem_ok m \<Longrightarrow> insert (asked m) (live m) - {asked m} = live m"
  using mem_ok_fresh by auto

lemma submit_refused:
  assumes rep: "pool_rep w p pool ns F" and ok: "sound w" and args: "f \<noteq> NULL" "x \<noteq> NULL"
    and free: "Queue_Mutex \<notin> tw_held w"
    and no: "\<not> (grant (cq_mem (tw_heap w)) (asked (cq_mem (tw_heap w))) \<and> tw_res w Mutex_Lock (tw_calls w) = 0)"
  shows "\<exists>w'. coin_tpool_submit w (Own p pool) f x g =
      Inr (if grant (cq_mem (tw_heap w)) (asked (cq_mem (tw_heap w))) then COIN_PTHREAD_MUTEX_ERROR
           else COIN_ALLOCATION_FAILURE, Own p pool, w') \<and>
    pool_rep w' p pool ns F \<and> blocks w' = blocks w \<and> tw_held w' = tw_held w"
proof -
  obtain b ts a ctx where P: "p_ctx pool = Own a ctx" "pool_objects \<subseteq> tw_inited w"
    by (rule pool_parts [OF rep])
  have m: "mem_ok (cq_mem (tw_heap w))"
    using ok by (simp add: sound_def)
  obtain w' where "coin_tpool_submit w (Own p pool) f x g =
      Inr (if grant (cq_mem (tw_heap w)) (asked (cq_mem (tw_heap w))) then COIN_PTHREAD_MUTEX_ERROR
           else COIN_ALLOCATION_FAILURE, Own p pool, w')"
      "nodes (tw_heap w') = nodes (tw_heap w)" "mem_ok (cq_mem (tw_heap w'))" "blocks w' = blocks w"
      "tw_threads w' = tw_threads w" "tw_inited w' = tw_inited w" "tw_held w' = tw_held w"
    using P args no m drop_fresh [OF m]
    by (cases "grant (cq_mem (tw_heap w)) (asked (cq_mem (tw_heap w)))")
      (simp_all add: coin_tpool_submit_def alloc_def mutex_lock_def pcall_def Let_def submit_cleanup_task_def release_def)
  with pool_rep_frame [OF rep] show ?thesis
    by blast
qed

lemmas submit_defs = coin_tpool_submit_def alloc_def call_defs Let_def submit_cleanup_task_def release_def

lemma submit_no_node:
  assumes rep: "pool_rep w p pool ns F" and ok: "sound w" and args: "f \<noteq> NULL" "x \<noteq> NULL"
    and free: "Queue_Mutex \<notin> tw_held w"
    and yes: "grant (cq_mem (tw_heap w)) (asked (cq_mem (tw_heap w)))" "tw_res w Mutex_Lock (tw_calls w) = 0"
    and no: "\<not> grant (cq_mem (tw_heap w)) (Suc (asked (cq_mem (tw_heap w))))"
  shows "\<exists>w'. coin_tpool_submit w (Own p pool) f x g = Inr (COIN_ALLOCATION_FAILURE, Own p pool, w') \<and>
    pool_rep w' p pool ns F \<and> blocks w' = blocks w \<and>
    tw_held w' = (if tw_res w Mutex_Unlock (Suc (tw_calls w)) = 0 then tw_held w else insert Queue_Mutex (tw_held w))"
proof -
  obtain b ts a ctx qb q where P: "p_ctx pool = Own a ctx" "p_work_queue ctx = Own qb q" "pool_objects \<subseteq> tw_inited w"
    by (rule pool_parts [OF rep])
  have same: "pool\<lparr>p_ctx := Own a (ctx\<lparr>p_work_queue := Own qb q\<rparr>)\<rparr> = pool"
    using P(1,2) by (cases pool; cases ctx) simp
  have m: "mem_ok (cq_mem (tw_heap w))"
    using ok by (simp add: sound_def)
  obtain w' where "coin_tpool_submit w (Own p pool) f x g = Inr (COIN_ALLOCATION_FAILURE, Own p pool, w')"
      "nodes (tw_heap w') = nodes (tw_heap w)" "mem_ok (cq_mem (tw_heap w'))" "blocks w' = blocks w"
      "tw_threads w' = tw_threads w" "tw_inited w' = tw_inited w"
      "tw_held w' = (if tw_res w Mutex_Unlock (Suc (tw_calls w)) = 0 then tw_held w else insert Queue_Mutex (tw_held w))"
    using P args free yes no m drop_fresh [OF m] same
    by (cases "tw_res w Mutex_Unlock (Suc (tw_calls w)) = 0")
      (simp_all add: submit_defs coin_queue_push_def mem_ok_def less_SucI)
  with pool_rep_frame [OF rep] show ?thesis
    by blast
qed

lemma submit_queued:
  assumes rep: "pool_rep w p pool ns F" and ok: "sound w" and args: "f \<noteq> NULL" "x \<noteq> NULL"
    and free: "Queue_Mutex \<notin> tw_held w"
    and yes: "grant (cq_mem (tw_heap w)) (asked (cq_mem (tw_heap w)))" "tw_res w Mutex_Lock (tw_calls w) = 0"
      "grant (cq_mem (tw_heap w)) (Suc (asked (cq_mem (tw_heap w))))"
  defines "t \<equiv> asked (cq_mem (tw_heap w))" and "k \<equiv> tw_calls w"
  shows "\<exists>pool' w'. coin_tpool_submit w (Own p pool) f x g =
      Inr (if tw_res w Cond_Signal (Suc k) \<noteq> 0 then COIN_PTHREAD_COND_ERROR
           else if tw_res w Mutex_Unlock (Suc (Suc k)) \<noteq> 0 then COIN_PTHREAD_MUTEX_ERROR else COIN_SUCCESS,
           Own p pool', w') \<and>
    pool_rep w' p pool' (ns @ [(Suc t, Addr t)]) ({t, Suc t} \<union> F) \<and>
    tw_tasks w' = (tw_tasks w)(t \<mapsto> new_task f x g) \<and> blocks w' = {t, Suc t} \<union> blocks w \<and>
    tw_held w' = (if tw_res w Mutex_Unlock (Suc (Suc k)) = 0 then tw_held w else insert Queue_Mutex (tw_held w))"
proof -
  obtain b ts a ctx qb q where P: "p_threads pool = Own b ts" "length ts = unat (num_workers pool)"
     "tid ` set ts = tw_threads w" "p_ctx pool = Own a ctx" "p_work_queue ctx = Own qb q" "cq_rep (tw_heap w) q ns"
     "distinct (p # b # a # qb # map fst ns @ task_blocks ns)"
     "F = set (p # b # a # qb # map fst ns @ task_blocks ns)" "F \<subseteq> blocks w" "pool_objects \<subseteq> tw_inited w"
    by (rule pool_parts [OF rep])
  let ?m = "cq_mem (tw_heap w)"
  have mok: "mem_ok ?m"
    using ok by (simp add: sound_def)
  let ?h = "(tw_heap w)\<lparr>cq_mem := ?m\<lparr>asked := Suc t, live := insert t (live ?m)\<rparr>\<rparr>"
  have "cq_rep ?h q ns"
    using P(6) unfolding cq_rep_def by (auto simp: t_def)
  from cq_push_ok [OF this, of "Addr t" qb] yes(3) obtain q' h' where push:
    "coin_queue_push ?h (Own qb q) (Addr t) = Inr (COIN_SUCCESS, Own qb q', h')"
    "cq_rep h' q' (ns @ [(Suc t, Addr t)])" "live (cq_mem h') = insert (Suc t) (insert t (live ?m))"
    by (auto simp: t_def)
  let ?pool = "pool\<lparr>p_ctx := Own a (ctx\<lparr>p_work_queue := Own qb q'\<rparr>)\<rparr>"
  obtain w' where w': "coin_tpool_submit w (Own p pool) f x g =
      Inr (if tw_res w Cond_Signal (Suc k) \<noteq> 0 then COIN_PTHREAD_COND_ERROR
           else if tw_res w Mutex_Unlock (Suc (Suc k)) \<noteq> 0 then COIN_PTHREAD_MUTEX_ERROR else COIN_SUCCESS,
           Own p ?pool, w')"
      "tw_heap w' = h'" "tw_tasks w' = (tw_tasks w)(t \<mapsto> new_task f x g)"
      "tw_threads w' = tw_threads w" "tw_inited w' = tw_inited w"
      "tw_held w' = (if tw_res w Mutex_Unlock (Suc (Suc k)) = 0 then tw_held w else insert Queue_Mutex (tw_held w))"
    using P(4,5,10) args free yes push(1) unfolding t_def k_def
    by (cases "tw_res w Cond_Signal (Suc (tw_calls w)) = 0"; cases "tw_res w Mutex_Unlock (Suc (Suc (tw_calls w))) = 0")
      (simp_all add: submit_defs new_task_def)
  have "t \<notin> F" "Suc t \<notin> F"
    using two_fresh [OF mok] P(9) by (auto simp: t_def)
  then have new: "t \<notin> set (p # b # a # qb # map fst ns @ task_blocks ns)"
      "Suc t \<notin> set (p # b # a # qb # map fst ns @ task_blocks ns)"
    using P(8) by blast+
  have tb: "task_blocks (ns @ [(Suc t, Addr t)]) = task_blocks ns @ [t]"
    by (simp add: task_blocks_def)
  have "distinct (p # b # a # qb # map fst (ns @ [(Suc t, Addr t)]) @ task_blocks (ns @ [(Suc t, Addr t)]))"
    using P(7) new unfolding tb by auto
  moreover have "{t, Suc t} \<union> F = set (p # b # a # qb # map fst (ns @ [(Suc t, Addr t)]) @ task_blocks (ns @ [(Suc t, Addr t)]))"
    unfolding P(8) tb by auto
  moreover have "{t, Suc t} \<union> F \<subseteq> blocks w'"
    using P(9) w'(2) push(3) by auto
  ultimately have "pool_rep w' p ?pool (ns @ [(Suc t, Addr t)]) ({t, Suc t} \<union> F)"
    using P(1,2,3,10) w'(2,4,5) push(2) by (intro pool_repI [of ?pool b ts w' a "ctx\<lparr>p_work_queue := Own qb q'\<rparr>" qb q']) simp_all
  then show ?thesis
    using w' push(3) by auto
qed

subsection \<open>Taking the pool down\<close>

definition all_succeed :: "tp_world \<Rightarrow> bool" where
  "all_succeed w \<longleftrightarrow> (\<forall>k n. tw_res w k n = 0)"

lemma stop_workers_ok:
  assumes rep: "pool_rep w p pool ns F" and ok: "all_succeed w"
    and P: "p_threads pool = Own b ts" "p_ctx pool = Own a ctx"
  shows "coin_tpool_stop_workers w pool = Some (Inr (COIN_SUCCESS,
    pool\<lparr>p_threads := Own b (map (joined w) ts), p_ctx := Own a (ctx\<lparr>ctx_b_shutdown := True\<rparr>)\<rparr>,
    w\<lparr>tw_calls := tw_calls w + 3 + length ts, tw_held := tw_held w - {Queue_Mutex}, tw_threads := {}\<rparr>))"
proof -
  obtain ts' where T: "tid ` set ts' = tw_threads w" "p_threads pool = Own b ts'" "pool_objects \<subseteq> tw_inited w"
    by (rule pool_parts [OF rep]) (use P(1) in auto)
  then have "tw_threads w - tid ` set ts = {}"
    using P(1) by simp
  then show ?thesis
    using ok P T(3) by (simp add: coin_tpool_stop_workers_def call_defs all_succeed_def join_loop_ok Let_def
      joined_def [abs_def] numeral_3_eq_3)
qed

lemma read_retvals_null:
  "ts \<noteq> [] \<Longrightarrow> (\<And>t. tw_retval w t = NULL) \<Longrightarrow> read_retvals (map (joined w) ts) = Inl Null_Deref"
  by (cases ts) (simp_all add: read_retval_def joined_def)

lemma destroy_ok:
  assumes rep: "pool_rep w p pool ns F" and m: "mem_ok (cq_mem (tw_heap w))" and ok: "all_succeed w"
  shows "\<exists>w'. coin_tpool_destroy w (Own p pool) False = Some (Inr (COIN_SUCCESS, w')) \<and> blocks w' = blocks w - F \<and>
    tw_inited w' = tw_inited w - pool_objects \<and> tw_threads w' = {} \<and> nodes (tw_heap w') = Map.empty \<and>
    mem_ok (cq_mem (tw_heap w'))"
proof -
  obtain b ts a ctx qb q where P: "p_threads pool = Own b ts" "p_ctx pool = Own a ctx" "p_work_queue ctx = Own qb q"
     "cq_rep (tw_heap w) q ns" "distinct (p # b # a # qb # map fst ns @ task_blocks ns)"
     "F = set (p # b # a # qb # map fst ns @ task_blocks ns)" "F \<subseteq> blocks w" "pool_objects \<subseteq> tw_inited w"
    by (rule pool_parts [OF rep])
  define w1 where "w1 = w\<lparr>tw_calls := tw_calls w + 3 + length ts, tw_held := tw_held w - {Queue_Mutex}, tw_threads := {}\<rparr>"
  let ?ctx = "ctx\<lparr>ctx_b_shutdown := True\<rparr>"
  have w1: "sound w1" "pool_objects \<subseteq> tw_inited w1" "cq_rep (tw_heap w1) q ns" "p_work_queue ?ctx = Own qb q"
    using m ok P by (simp_all add: sound_def all_succeed_def w1_def)
  have "distinct (a # qb # map fst ns @ task_blocks ns)" "{a, qb} \<union> set (task_blocks ns) \<subseteq> blocks w1"
    using P(5,6,7) by (auto simp: w1_def)
  from ctx_destroy_ok [OF w1 this] obtain w2 where w2:
    "coin_tpool_ctx_destroy w1 (Own a ?ctx) = Some (Inr (COIN_SUCCESS, w2))" "nodes (tw_heap w2) = Map.empty"
    "tw_threads w2 = {}" "tw_inited w2 = tw_inited w - pool_objects"
    "blocks w2 = blocks w - ({a, qb} \<union> set (map fst ns @ task_blocks ns))"
    "mem_ok (cq_mem (tw_heap w2))"
    by (auto simp: w1_def keeps_def)
  have bp: "b \<in> blocks w2" "p \<in> blocks w2" "p \<noteq> b"
    using P(5,6,7) w2(5) by auto
  have "blocks w2 - {b} - {p} = blocks w - F"
    using P(6) w2(5) by auto
  moreover have "mem_ok ((cq_mem (tw_heap w2))\<lparr>live := blocks w2 - {b} - {p}\<rparr>)"
    using w2(6) by (auto simp: mem_ok_def)
  ultimately show ?thesis
    using w2 bp stop_workers_ok [OF rep ok P(1,2)]
    by (simp add: coin_tpool_destroy_def free_pool_def release_def w1_def [symmetric])
qed

lemma destroy_retvals:
  assumes rep: "pool_rep w p pool ns F" and ok: "all_succeed w" and "num_workers pool \<noteq> 0"
    and "\<And>t. tw_retval w t = NULL"
  shows "coin_tpool_destroy w (Own p pool) True = Some (Inl Null_Deref)"
proof -
  obtain b ts a ctx where P: "p_threads pool = Own b ts" "p_ctx pool = Own a ctx" "length ts = unat (num_workers pool)"
    by (rule pool_parts [OF rep])
  then have "ts \<noteq> []"
    using assms(3) by (auto simp: unat_eq_zero)
  then have "read_retvals (map (joined w) ts) = Inl Null_Deref"
    by (rule read_retvals_null) (rule assms(4))
  then show ?thesis
    using stop_workers_ok [OF rep ok P(1,2)] by (simp add: coin_tpool_destroy_def)
qed

subsection \<open>Properties\<close>

definition demo_world :: "(pcall \<Rightarrow> nat \<Rightarrow> int) \<Rightarrow> tp_world" where
  "demo_world res = \<lparr>tw_heap = \<lparr>cq_mem = \<lparr>grant = (\<lambda>n. True), asked = 0, live = {}\<rparr>, nodes = Map.empty\<rparr>,
     tw_tasks = Map.empty, tw_res = res, tw_calls = 0, tw_inited = {}, tw_held = {}, tw_blocked = False,
     tw_ends = (\<lambda>t. False), tw_retval = (\<lambda>t. NULL), tw_threads = {}\<rparr>"

text \<open>
  C26: \<open>coin_tpool_init\<close> either returns \<open>COIN_SUCCESS\<close> with a pool of \<open>num_workers\<close> running
  workers, an empty queue and all four synchronisation objects initialised, owning only blocks it
  obtained, and with the caller's signals unblocked; or returns another status, having freed
  every block and left no worker; or never returns (see \<open>tpool_init_failure_paths\<close>). The
  attribute object, and after two of the failures the blocked signals, are all it leaves behind.
  This holds whichever pthread calls and allocations fail, as long as the destroy calls succeed.
\<close>

theorem tpool_init_correct:
  assumes "sound w" and "tw_inited w = {}" and "tw_threads w = {}" and "nodes (tw_heap w) = Map.empty"
    and "\<forall>t. \<not> tw_ends w t" and "num \<noteq> 0"
  shows "coin_tpool_init w True num = None \<or>
    (\<exists>st r w'. coin_tpool_init w True num = Some (Inr (st, r, w')) \<and> tw_held w' = tw_held w \<and>
      (if st = COIN_SUCCESS
       then \<exists>p pool F. r = Own p pool \<and> num_workers pool = num \<and> pool_rep w' p pool [] F \<and>
         F \<inter> blocks w = {} \<and> blocks w' = blocks w \<union> F \<and> \<not> tw_blocked w'
       else r = ONull \<and> blocks w' = blocks w \<and> tw_threads w' = {} \<and>
         (tw_inited w' = {} \<or> st = COIN_ALLOCATION_FAILURE \<and> tw_inited w' = {Create_Attr}) \<and>
         (tw_blocked w' = tw_blocked w \<or> st \<in> {COIN_ALLOCATION_FAILURE, COIN_PTHREAD_CREATE_ERROR})))"
proof -
  have "\<not> tw_ends w t" for t using assms(5) by simp
  from tpool_init_ok [OF assms(1-4) this assms(6)] show ?thesis by blast
qed

lemmas init_defs = coin_tpool_init_def coin_tpool_ctx_init_def coin_initialize_workers_def alloc_def call_defs
  coin_queue_init_def demo_world_def leave_def free_pool_def release_def thread_create_def

lemma create_loop_2: "create_loop 2 = create_loop (Suc (Suc 0))"
  by (simp only: numeral_2_eq_2)

lemma demo_init: "\<exists>r w'. coin_tpool_init (demo_world (\<lambda>_ _. 0)) True 2 = Some (Inr (COIN_SUCCESS, r, w'))"
  by (simp add: init_defs create_loop_2)

theorem tpool_init_correct_witness:
  "\<exists>p pool w' F. coin_tpool_init (demo_world (\<lambda>_ _. 0)) True 2 = Some (Inr (COIN_SUCCESS, Own p pool, w')) \<and>
     pool_rep w' p pool [] F \<and> blocks w' = F \<and> num_workers pool = 2"
proof -
  obtain r w' where "coin_tpool_init (demo_world (\<lambda>_ _. 0)) True 2 = Some (Inr (COIN_SUCCESS, r, w'))"
    using demo_init by blast
  then show ?thesis
    using tpool_init_correct [of "demo_world (\<lambda>_ _. 0)" 2] by (auto simp: demo_world_def sound_def mem_ok_def)
qed

text \<open>
  C39: what becomes of \<open>coin_tpool_init\<close> once its first seven pthread calls and its first three
  allocations succeeded and no worker ends of its own accord. When the array of threads cannot be
  allocated, the function returns with all signals of the calling thread blocked and the
  attribute object not destroyed. When not even the first worker can be created, it returns with the
  signals blocked. When a worker was created and creating another one, or restoring the signals,
  fails, the function never returns: it joins workers that nobody has told to stop (see
  \<open>tpool_workers_stay\<close>). Only otherwise it succeeds.
\<close>

theorem tpool_init_failure_paths:
  assumes "sound w" and "tw_inited w = {}" and "tw_threads w = {}" and "nodes (tw_heap w) = Map.empty"
    and "\<forall>t. \<not> tw_ends w t" and "num \<noteq> 0"
    and "\<forall>k. \<forall>j < 7. tw_res w k (tw_calls w + j) = 0"
    and "\<forall>j < 3. grant (cq_mem (tw_heap w)) (asked (cq_mem (tw_heap w)) + j)"
  defines "n \<equiv> tw_calls w + 7" and "array \<equiv> asked (cq_mem (tw_heap w)) + 3"
  shows "if \<not> grant (cq_mem (tw_heap w)) array then
      \<exists>w'. coin_tpool_init w True num = Some (Inr (COIN_ALLOCATION_FAILURE, ONull, w')) \<and>
        blocks w' = blocks w \<and> tw_blocked w' \<and> tw_inited w' = {Create_Attr}
    else if tw_res w Thread_Create n \<noteq> 0 then
      \<exists>w'. coin_tpool_init w True num = Some (Inr (COIN_PTHREAD_CREATE_ERROR, ONull, w')) \<and>
        blocks w' = blocks w \<and> tw_blocked w' \<and> tw_inited w' = {}
    else if (\<exists>j < unat num. tw_res w Thread_Create (n + j) \<noteq> 0) \<or> tw_res w Sig_Mask (n + unat num) \<noteq> 0 then
      coin_tpool_init w True num = None
    else \<exists>r w'. coin_tpool_init w True num = Some (Inr (COIN_SUCCESS, r, w'))"
  unfolding n_def array_def by (rule init_outcome [OF assms(1-8)])

text \<open>The three failures: no memory for the array, no first worker, no second worker.\<close>

theorem tpool_init_failure_paths_witness:
  "(\<exists>w'. coin_tpool_init (demo_world (\<lambda>_ _. 0) \<lparr>tw_heap := \<lparr>cq_mem = \<lparr>grant = (\<lambda>n. n < 3), asked = 0, live = {}\<rparr>,
       nodes = Map.empty\<rparr>\<rparr>) True 2 = Some (Inr (COIN_ALLOCATION_FAILURE, ONull, w')) \<and>
     tw_blocked w' \<and> tw_inited w' = {Create_Attr}) \<and>
   (\<exists>w'. coin_tpool_init (demo_world (\<lambda>k n. if k = Thread_Create \<and> 7 \<le> n then 11 else 0)) True 2 =
       Some (Inr (COIN_PTHREAD_CREATE_ERROR, ONull, w')) \<and> tw_blocked w' \<and> tw_inited w' = {}) \<and>
   coin_tpool_init (demo_world (\<lambda>k n. if k = Thread_Create \<and> n = 8 then 11 else 0)) True 2 = None"
proof (intro conjI)
  let ?w = "demo_world (\<lambda>_ _. 0) \<lparr>tw_heap := \<lparr>cq_mem = \<lparr>grant = (\<lambda>n. n < 3), asked = 0, live = {}\<rparr>, nodes = Map.empty\<rparr>\<rparr>"
  show "\<exists>w'. coin_tpool_init ?w True 2 = Some (Inr (COIN_ALLOCATION_FAILURE, ONull, w')) \<and>
      tw_blocked w' \<and> tw_inited w' = {Create_Attr}"
    using tpool_init_failure_paths [of ?w 2] by (auto simp: demo_world_def sound_def mem_ok_def)
  show "\<exists>w'. coin_tpool_init (demo_world (\<lambda>k n. if k = Thread_Create \<and> 7 \<le> n then 11 else 0)) True 2 =
      Some (Inr (COIN_PTHREAD_CREATE_ERROR, ONull, w')) \<and> tw_blocked w' \<and> tw_inited w' = {}"
    using tpool_init_failure_paths [of "demo_world (\<lambda>k n. if k = Thread_Create \<and> 7 \<le> n then 11 else 0)" 2]
    by (auto simp: demo_world_def sound_def mem_ok_def)
  have "\<exists>j < 2. (if j = Suc 0 then 11 else 0 :: int) \<noteq> 0"
    by (intro exI [of _ 1]) simp
  then show "coin_tpool_init (demo_world (\<lambda>k n. if k = Thread_Create \<and> n = 8 then 11 else 0)) True 2 = None"
    using tpool_init_failure_paths [of "demo_world (\<lambda>k n. if k = Thread_Create \<and> n = 8 then 11 else 0)" 2]
    by (simp add: demo_world_def sound_def mem_ok_def)
qed

text \<open>
  C15: \<open>coin_tpool_submit\<close> on every path. If the task block or the queue node cannot be allocated,
  or the lock fails, an error is returned and the pool and the live blocks are as before. Otherwise
  the task is queued last with its function, argument and destructor, and exactly its two blocks
  are new; this is so too when the signal or the unlock fails, and the function then returns an
  error for a task that will be run, although its comment says that on an error the task is not
  submitted. The queue mutex, not held by the caller, is held afterwards only if unlocking it failed.
\<close>

theorem tpool_submit_correct:
  assumes "pool_rep w p pool ns F" and "sound w" and "f \<noteq> NULL" and "x \<noteq> NULL"
    and "Queue_Mutex \<notin> tw_held w"
  defines "m \<equiv> cq_mem (tw_heap w)" and "t \<equiv> asked (cq_mem (tw_heap w))" and "k \<equiv> tw_calls w"
  shows "\<exists>st pool' w'. coin_tpool_submit w (Own p pool) f x g = Inr (st, Own p pool', w') \<and>
    tw_held w' = (if grant m t \<and> tw_res w Mutex_Lock k = 0 \<and>
        tw_res w Mutex_Unlock (if grant m (Suc t) then Suc (Suc k) else Suc k) \<noteq> 0
      then insert Queue_Mutex (tw_held w) else tw_held w) \<and>
    (if grant m t \<and> tw_res w Mutex_Lock k = 0 \<and> grant m (Suc t)
     then pool_rep w' p pool' (ns @ [(Suc t, Addr t)]) ({t, Suc t} \<union> F) \<and> tw_tasks w' t = Some (new_task f x g) \<and>
       blocks w' = {t, Suc t} \<union> blocks w \<and>
       st = (if tw_res w Cond_Signal (Suc k) \<noteq> 0 then COIN_PTHREAD_COND_ERROR
             else if tw_res w Mutex_Unlock (Suc (Suc k)) \<noteq> 0 then COIN_PTHREAD_MUTEX_ERROR else COIN_SUCCESS)
     else pool' = pool \<and> pool_rep w' p pool ns F \<and> blocks w' = blocks w \<and>
       st = (if grant m t \<and> tw_res w Mutex_Lock k \<noteq> 0 then COIN_PTHREAD_MUTEX_ERROR else COIN_ALLOCATION_FAILURE))"
proof (cases "grant m t \<and> tw_res w Mutex_Lock k = 0")
  case False
  then show ?thesis
    using submit_refused [OF assms(1-5) False [unfolded m_def t_def k_def], of g]
    unfolding m_def t_def k_def by (elim exE conjE) auto
next
  case True
  show ?thesis
  proof (cases "grant m (Suc t)")
    case False
    with True show ?thesis
      using submit_no_node [OF assms(1-5), of g] unfolding m_def t_def k_def by auto
  next
    case granted: True
    with True show ?thesis
      using submit_queued [OF assms(1-5), of g] unfolding m_def t_def k_def by auto
  qed
qed

definition demo_pool :: coin_threadpool_t where
  "demo_pool = \<lparr>p_threads = Own 3 [\<lparr>tid = 7, thr_status = COIN_THREAD_STARTED, p_retval = NULL\<rparr>],
     p_ctx = Own 1 \<lparr>ctx_b_shutdown = False, p_work_queue = Own 2 \<lparr>p_head = NULL, p_tail = NULL, cq_size = 0\<rparr>,
       ctx_active_tasks = 0\<rparr>, num_workers = 1\<rparr>"

definition demo_pool_world :: "(pcall \<Rightarrow> nat \<Rightarrow> int) \<Rightarrow> tp_world" where
  "demo_pool_world res = (demo_world res)\<lparr>tw_heap := \<lparr>cq_mem = \<lparr>grant = (\<lambda>n. True), asked = 4, live = {0, 1, 2, 3}\<rparr>,
     nodes = Map.empty\<rparr>, tw_inited := pool_objects, tw_threads := {7}\<rparr>"

lemma demo_pool_rep: "pool_rep (demo_pool_world res) 0 demo_pool [] {0, 3, 1, 2}"
  by (rule pool_repI) (auto simp: demo_pool_def demo_pool_world_def demo_world_def cq_rep_def last_ptr_def mem_ok_def
    task_blocks_def)

theorem tpool_submit_correct_witness:
  "\<exists>pool' w'. coin_tpool_submit (demo_pool_world (\<lambda>k n. if k = Cond_Signal then 22 else 0)) (Own 0 demo_pool)
       (Addr 90) (Addr 91) NULL = Inr (COIN_PTHREAD_COND_ERROR, Own 0 pool', w') \<and>
     pool_rep w' 0 pool' [(5, Addr 4)] ({4, 5} \<union> {0, 3, 1, 2})"
  using tpool_submit_correct [OF demo_pool_rep, of "\<lambda>k n. if k = Cond_Signal then 22 else 0" "Addr 90" "Addr 91" NULL]
  by (auto simp: demo_pool_world_def demo_world_def sound_def mem_ok_def)

text \<open>
  C27: \<open>coin_tpool_destroy\<close> without \<open>retvals\<close>, when every pthread call succeeds, stops and joins all
  workers and frees exactly what the pool owned, the tasks still queued included, and destroys its
  four synchronisation objects. With \<open>retvals\<close> it dereferences the workers' exit values as pointers:
  after normal exits these are \<open>(void *)0\<close>, so the call reads through a null pointer.
\<close>

theorem tpool_destroy_correct:
  assumes "pool_rep w p pool ns F" and "mem_ok (cq_mem (tw_heap w))" and "all_succeed w" and "num_workers pool \<noteq> 0"
    and "\<forall>t. tw_retval w t = NULL"
  shows "(\<exists>w'. coin_tpool_destroy w (Own p pool) False = Some (Inr (COIN_SUCCESS, w')) \<and> blocks w' = blocks w - F \<and>
      tw_inited w' = tw_inited w - pool_objects \<and> tw_threads w' = {}) \<and>
    coin_tpool_destroy w (Own p pool) True = Some (Inl Null_Deref)"
  using destroy_ok [OF assms(1-3)] destroy_retvals [OF assms(1,3,4)] assms(5) by blast

theorem tpool_destroy_correct_witness:
  "\<exists>w'. coin_tpool_destroy (demo_pool_world (\<lambda>_ _. 0)) (Own 0 demo_pool) False = Some (Inr (COIN_SUCCESS, w')) \<and>
     blocks w' = {} \<and> tw_inited w' = {} \<and> tw_threads w' = {}"
  using tpool_destroy_correct [OF demo_pool_rep, of "\<lambda>_ _. 0"]
  by (simp add: demo_pool_world_def demo_world_def mem_ok_def all_succeed_def demo_pool_def)

end
