(* ===== verification/Tpool_Wait.thy ===== *)
theory Tpool_Wait
  imports Tpool_Life
begin

text \<open>
  \<open>coin_tpool_wait\<close> as one call. What it reads of the shared data depends on the workers: \<open>act n\<close> and
  \<open>sz n\<close> are \<open>active_tasks\<close> and the size of the queue as they are after the thread's n-th pthread
  call, and theorems hold for every such observation. Both loops may run for ever, which is \<open>None\<close>.
\<close>

lemma o_then_bind:
  "o_then r f = Option.bind r (\<lambda>x. case x of Inl e \<Rightarrow> Some (Inl e) | Inr y \<Rightarrow> f y)"
  by (simp add: o_then_def split: option.splits sum.splits)

lemma o_then_mono [partial_function_mono]:
  assumes "mono_option B" and "\<And>y. mono_option (\<lambda>f. C y f)"
  shows "mono_option (\<lambda>f. o_then (B f) (\<lambda>y. C y f))"
  unfolding o_then_bind
proof (rule bind_mono [OF assms(1)])
  fix x :: "cfault + 'c"
  show "mono_option (\<lambda>f. case x of Inl e \<Rightarrow> Some (Inl e) | Inr y \<Rightarrow> C y f)"
    using assms(2) by (cases x) (auto intro: option.const_mono)
qed

text \<open>The inner loop: sleep while a task is active. The result is 0, or the error of the wait.\<close>

partial_function (option) wait_active :: "(nat \<Rightarrow> size_t) \<Rightarrow> tp_world \<Rightarrow> (cfault + (int \<times> tp_world)) option" where
  "wait_active act w =
     (if act (tw_calls w) = 0 then Some (Inr (0, w))
      else
        o_then (Some (cond_call Cond_Wait Active_Cond w)) (\<lambda>r.
          if fst r \<noteq> 0 then Some (Inr r) else wait_active act (snd r)))"

partial_function (option) wait_loop ::
    "(nat \<Rightarrow> size_t) \<Rightarrow> (nat \<Rightarrow> size_t) \<Rightarrow> tp_world \<Rightarrow> (cfault + (coin_status_t \<times> tp_world)) option" where
  "wait_loop act sz w =
     o_then (Some (mutex_lock Active_Mutex w)) (\<lambda>r.
       if fst r \<noteq> 0 then Some (Inr (COIN_PTHREAD_MUTEX_ERROR, snd r))
       else
         o_then (wait_active act (snd r)) (\<lambda>r.
           if fst r \<noteq> 0 then
             o_then (Some (mutex_unlock Active_Mutex (snd r))) (\<lambda>r. Some (Inr (COIN_PTHREAD_COND_ERROR, snd r)))
           else if 0 < sz (tw_calls (snd r)) then
             o_then (Some (mutex_unlock Active_Mutex (snd r))) (\<lambda>r.
               if fst r \<noteq> 0 then Some (Inr (COIN_PTHREAD_MUTEX_ERROR, snd r)) else wait_loop act sz (snd r))
           else
             o_then (Some (mutex_unlock Active_Mutex (snd r))) (\<lambda>r.
               if fst r \<noteq> 0 then Some (Inr (COIN_PTHREAD_MUTEX_ERROR, snd r))
               else
                 o_then (Some (mutex_lock Queue_Mutex (snd r))) (\<lambda>r.
                   if fst r \<noteq> 0 then Some (Inr (COIN_PTHREAD_MUTEX_ERROR, snd r))
                   else
                     (let b_isempty = (sz (tw_calls (snd r)) = 0) in
                      o_then (Some (mutex_unlock Queue_Mutex (snd r))) (\<lambda>r.
                        if b_isempty then Some (Inr (COIN_SUCCESS, snd r))
                        else if fst r \<noteq> 0 then Some (Inr (COIN_PTHREAD_MUTEX_ERROR, snd r))
                        else wait_loop act sz (snd r)))))))"

text \<open>\<open>p_tpool\<close> and its context are dereferenced without a check.\<close>

definition coin_tpool_wait ::
    "(nat \<Rightarrow> size_t) \<Rightarrow> (nat \<Rightarrow> size_t) \<Rightarrow> tp_world \<Rightarrow> coin_threadpool_t owned \<Rightarrow>
     (cfault + (coin_status_t \<times> tp_world)) option" where
  "coin_tpool_wait act sz w p_tpool =
     (case p_tpool of
        ONull \<Rightarrow> Some (Inl Null_Deref)
      | Own _ pool \<Rightarrow>
          (case p_ctx pool of ONull \<Rightarrow> Some (Inl Null_Deref) | Own _ _ \<Rightarrow> wait_loop act sz w))"

subsection \<open>What a return means\<close>

lemma wait_active_result:
  assumes "wait_active act w = Some r" and "Active_Cond \<in> tw_inited w"
  shows "\<exists>err k. r = Inr (err, w\<lparr>tw_calls := k\<rparr>) \<and> tw_calls w \<le> k \<and> (err = 0 \<longrightarrow> act k = 0)"
  using assms
proof (induction rule: wait_active.raw_induct [rotated 1, consumes 1, case_names step])
  case (step wait act w r)
  show ?case
  proof (cases "act (tw_calls w) = 0")
    case True
    then show ?thesis
      using step(2) by (intro exI [of _ 0] exI [of _ "tw_calls w"]) auto
  next
    case False
    let ?e = "tw_res w Cond_Wait (tw_calls w)" and ?w = "w\<lparr>tw_calls := Suc (tw_calls w)\<rparr>"
    show ?thesis
    proof (cases "?e = 0")
      case True
      then have "wait act ?w = Some r"
        using step(2,3) False by (simp add: cond_call_def pcall_def split: if_splits)
      then show ?thesis
        using step(1) [of act ?w r] step(3) by (auto dest: Suc_leD)
    next
      case e: False
      then show ?thesis
        using step(2,3) False by (intro exI [of _ ?e] exI [of _ "Suc (tw_calls w)"]) (auto simp: cond_call_def pcall_def)
    qed
  qed
qed

definition wait_post :: "(nat \<Rightarrow> size_t) \<Rightarrow> (nat \<Rightarrow> size_t) \<Rightarrow> tp_world \<Rightarrow> coin_status_t \<Rightarrow> tp_world \<Rightarrow> bool" where
  "wait_post act sz w st w' \<longleftrightarrow>
     st \<in> {COIN_SUCCESS, COIN_PTHREAD_MUTEX_ERROR, COIN_PTHREAD_COND_ERROR} \<and>
     (st = COIN_SUCCESS \<longrightarrow> (\<exists>i j. tw_calls w \<le> i \<and> i < j \<and> act i = 0 \<and> sz i = 0 \<and> sz j = 0)) \<and>
     ((\<forall>n. tw_res w Mutex_Unlock n = 0) \<longrightarrow> tw_held w' = {}) \<and>
     tw_inited w' = tw_inited w \<and> tw_heap w' = tw_heap w \<and> tw_res w' = tw_res w"

lemma wait_post_later:
  "wait_post act sz w1 st w' \<Longrightarrow> tw_calls w \<le> tw_calls w1 \<Longrightarrow> tw_inited w1 = tw_inited w \<Longrightarrow>
   tw_heap w1 = tw_heap w \<Longrightarrow> tw_res w1 = tw_res w \<Longrightarrow> wait_post act sz w st w'"
  by (auto simp: wait_post_def intro: order_trans)

text \<open>Going round again from a later world: what is shown there holds for the whole.\<close>

lemma wait_again:
  assumes IH: "\<And>w1 r. wait w1 = Some r \<Longrightarrow> pool_objects \<subseteq> tw_inited w1 \<Longrightarrow>
      (\<forall>n. tw_res w1 Mutex_Unlock n = 0) \<longrightarrow> tw_held w1 = {} \<Longrightarrow> \<exists>st w'. r = Inr (st, w') \<and> wait_post act sz w1 st w'"
    and run: "wait (w\<lparr>tw_calls := j, tw_held := H\<rparr>) = Some r" and obj: "pool_objects \<subseteq> tw_inited w"
    and held: "(\<forall>n. tw_res w Mutex_Unlock n = 0) \<longrightarrow> tw_held w = {}"
    and later: "tw_calls w \<le> j" "H \<subseteq> tw_held w"
  shows "\<exists>st w'. r = Inr (st, w') \<and> wait_post act sz w st w'"
proof -
  have "\<exists>st w'. r = Inr (st, w') \<and> wait_post act sz (w\<lparr>tw_calls := j, tw_held := H\<rparr>) st w'"
    using IH [OF run] obj held later(2) by auto
  then show ?thesis
    using wait_post_later [of act sz "w\<lparr>tw_calls := j, tw_held := H\<rparr>" _ _ w] later(1) by auto
qed

text \<open>The part of a round of \<open>wait_loop\<close> after the inner loop has ended without an error at call \<open>k\<close>.\<close>

lemma wait_round:
  assumes obj: "pool_objects \<subseteq> tw_inited w" and held: "(\<forall>n. tw_res w Mutex_Unlock n = 0) \<longrightarrow> tw_held w = {}"
    and IH: "\<And>w1 r. wait w1 = Some r \<Longrightarrow> pool_objects \<subseteq> tw_inited w1 \<Longrightarrow>
      (\<forall>n. tw_res w1 Mutex_Unlock n = 0) \<longrightarrow> tw_held w1 = {} \<Longrightarrow> \<exists>st w'. r = Inr (st, w') \<and> wait_post act sz w1 st w'"
    and w2: "w2 = w\<lparr>tw_held := insert Active_Mutex (tw_held w), tw_calls := k\<rparr>" and k: "tw_calls w \<le> k" "act k = 0"
    and r: "(if 0 < sz k then
             o_then (Some (mutex_unlock Active_Mutex w2)) (\<lambda>r.
               if fst r \<noteq> 0 then Some (Inr (COIN_PTHREAD_MUTEX_ERROR, snd r)) else wait (snd r))
           else
             o_then (Some (mutex_unlock Active_Mutex w2)) (\<lambda>r.
               if fst r \<noteq> 0 then Some (Inr (COIN_PTHREAD_MUTEX_ERROR, snd r))
               else
                 o_then (Some (mutex_lock Queue_Mutex (snd r))) (\<lambda>r.
                   if fst r \<noteq> 0 then Some (Inr (COIN_PTHREAD_MUTEX_ERROR, snd r))
                   else
                     (let b_isempty = (sz (tw_calls (snd r)) = 0) in
                      o_then (Some (mutex_unlock Queue_Mutex (snd r))) (\<lambda>r.
                        if b_isempty then Some (Inr (COIN_SUCCESS, snd r))
                        else if fst r \<noteq> 0 then Some (Inr (COIN_PTHREAD_MUTEX_ERROR, snd r))
                        else wait (snd r)))))) = Some r"
  shows "\<exists>st w'. r = Inr (st, w') \<and> wait_post act sz w st w'"
proof -
  have o: "Active_Mutex \<in> tw_inited w" "Queue_Mutex \<in> tw_inited w"
    using obj by auto
  note calls = mutex_lock_def mutex_unlock_def pcall_def Let_def w2
  define w3 where "w3 = w\<lparr>tw_calls := Suc k, tw_held := tw_held w - {Active_Mutex}\<rparr>"
  define w4 where "w4 = w\<lparr>tw_calls := Suc (Suc (Suc k)), tw_held := tw_held w - {Active_Mutex} - {Queue_Mutex}\<rparr>"
  have again: "\<exists>st w'. r = Inr (st, w') \<and> wait_post act sz w st w'" if "wait w' = Some r" "w' = w3 \<or> w' = w4" for w'
  proof -
    define j where "j = tw_calls w'"
    define H where "H = tw_held w'"
    have later: "w' = w\<lparr>tw_calls := j, tw_held := H\<rparr>" "tw_calls w \<le> j" "H \<subseteq> tw_held w"
      using that(2) k(1) by (auto simp: w3_def w4_def j_def H_def)
    then have "wait (w\<lparr>tw_calls := j, tw_held := H\<rparr>) = Some r" using that(1) by simp
    from wait_again [where wait = wait, OF _ this obj held later(2,3)] IH show ?thesis by blast
  qed
  show ?thesis
  proof (cases "tw_res w Mutex_Unlock k = 0")
    case False
    then show ?thesis
      using r o by (auto simp: calls wait_post_def split: if_splits)
  next
    case un: True
    show ?thesis
    proof (cases "0 < sz k")
      case True
      then have "wait w3 = Some r"
        using r o un by (simp add: calls w3_def)
      then show ?thesis
        using again by blast
    next
      case size: False
      show ?thesis
      proof (cases "tw_res w Mutex_Lock (Suc k) = 0")
        case False
        then show ?thesis
          using r o un size held by (auto simp: calls wait_post_def)
      next
        case lock: True
        show ?thesis
        proof (cases "sz (Suc (Suc k)) = 0")
          case True
          then have "\<exists>i j. tw_calls w \<le> i \<and> i < j \<and> act i = 0 \<and> sz i = 0 \<and> sz j = 0"
            using k size by (intro exI [of _ k] exI [of _ "Suc (Suc k)"]) (simp add: word_gt_0)
          then show ?thesis
            using True r o un size lock held by (auto simp: calls wait_post_def split: if_splits)
        next
          case False
          then have "tw_res w Mutex_Unlock (Suc (Suc k)) \<noteq> 0 \<or> wait w4 = Some r"
            using r o un size lock by (auto simp: calls w4_def insert_commute)
          then show ?thesis
            using again False r o un size lock held by (auto simp: calls wait_post_def split: if_splits)
        qed
      qed
    qed
  qed
qed

lemma wait_loop_result:
  assumes "wait_loop act sz w = Some r" and "pool_objects \<subseteq> tw_inited w"
    and "(\<forall>n. tw_res w Mutex_Unlock n = 0) \<longrightarrow> tw_held w = {}"
  shows "\<exists>st w'. r = Inr (st, w') \<and> wait_post act sz w st w'"
  using assms
proof (induction rule: wait_loop.raw_induct [rotated 1, consumes 1, case_names step])
  case (step wait act sz w r)
  have o: "Active_Mutex \<in> tw_inited w" "Active_Cond \<in> tw_inited w"
    using step(3) by auto
  note calls = mutex_lock_def mutex_unlock_def pcall_def
  show ?case
  proof (cases "tw_res w Mutex_Lock (tw_calls w) = 0")
    case False
    then show ?thesis
      using step(2,4) o by (auto simp: calls wait_post_def)
  next
    case lock: True
    let ?w1 = "w\<lparr>tw_calls := Suc (tw_calls w), tw_held := insert Active_Mutex (tw_held w)\<rparr>"
    obtain ra where "wait_active act ?w1 = Some ra"
      using step(2) lock o by (cases "wait_active act ?w1") (auto simp: calls)
    moreover from wait_active_result [OF this] o obtain err k where
      ra: "ra = Inr (err, ?w1\<lparr>tw_calls := k\<rparr>)" "Suc (tw_calls w) \<le> k" "err = 0 \<longrightarrow> act k = 0"
      by auto
    ultimately have wa: "wait_active act ?w1 = Some (Inr (err, ?w1\<lparr>tw_calls := k\<rparr>))"
      by simp
    let ?w2 = "w\<lparr>tw_held := insert Active_Mutex (tw_held w), tw_calls := k\<rparr>"
    show ?thesis
    proof (cases "err = 0")
      case False
      then show ?thesis
        using step(2,4) lock o wa by (auto simp: calls wait_post_def split: if_splits)
    next
      case True
      have lk: "mutex_lock Active_Mutex w = Inr (0, ?w1)"
        using lock o by (simp add: calls)
      show ?thesis
      proof (rule wait_round [where wait = "wait act sz" and k = k, OF step(3,4) _ refl])
        show "\<exists>st w'. r = Inr (st, w') \<and> wait_post act sz w1 st w'"
          if "wait act sz w1 = Some r" "pool_objects \<subseteq> tw_inited w1"
            "(\<forall>n. tw_res w1 Mutex_Unlock n = 0) \<longrightarrow> tw_held w1 = {}" for w1 r
          by (rule step(1) [OF that])
      qed (use True ra(2,3) step(2) wa in \<open>simp_all add: lk split: if_splits\<close>)
    qed
  qed
qed

subsection \<open>When it returns\<close>

lemma wait_active_ends:
  assumes "all_succeed w" and "Active_Cond \<in> tw_inited w" and "\<forall>n \<ge> N. act n = 0"
  shows "\<exists>k. wait_active act w = Some (Inr (0, w\<lparr>tw_calls := k\<rparr>)) \<and> tw_calls w \<le> k"
  using assms
proof (induction "N - tw_calls w" arbitrary: w rule: less_induct)
  case less
  show ?case
  proof (cases "act (tw_calls w) = 0")
    case True
    then show ?thesis
      by (intro exI [of _ "tw_calls w"]) (simp add: wait_active.simps)
  next
    case False
    then have "tw_calls w < N"
      using less.prems(3) by (meson not_le)
    then have "N - tw_calls (w\<lparr>tw_calls := Suc (tw_calls w)\<rparr>) < N - tw_calls w"
      by simp
    from less.hyps [OF this] less.prems obtain k where
        "wait_active act (w\<lparr>tw_calls := Suc (tw_calls w)\<rparr>) = Some (Inr (0, w\<lparr>tw_calls := k\<rparr>))"
        "Suc (tw_calls w) \<le> k"
      by (auto simp: all_succeed_def)
    then show ?thesis
      using False less.prems by (intro exI [of _ k], subst wait_active.simps)
        (simp add: cond_call_def pcall_def all_succeed_def)
  qed
qed

lemma wait_loop_ends:
  assumes "all_succeed w" and "pool_objects \<subseteq> tw_inited w" and "\<forall>n \<ge> N. act n = 0 \<and> sz n = 0"
  shows "\<exists>w'. wait_loop act sz w = Some (Inr (COIN_SUCCESS, w'))"
  using assms(1,2)
proof (induction "N - tw_calls w" arbitrary: w rule: less_induct)
  case less
  have o: "Active_Mutex \<in> tw_inited w" "Active_Cond \<in> tw_inited w" "Queue_Mutex \<in> tw_inited w"
    and s: "\<And>k n. tw_res w k n = 0"
    using less.prems by (auto simp: all_succeed_def)
  let ?w1 = "w\<lparr>tw_calls := Suc (tw_calls w), tw_held := insert Active_Mutex (tw_held w)\<rparr>"
  obtain k where k: "wait_active act ?w1 = Some (Inr (0, ?w1\<lparr>tw_calls := k\<rparr>))" "Suc (tw_calls w) \<le> k"
    using wait_active_ends [of ?w1 N act] less.prems o assms(3) by (auto simp: all_succeed_def)
  have again: "\<exists>w'. wait_loop act sz (w\<lparr>tw_calls := j, tw_held := H\<rparr>) = Some (Inr (COIN_SUCCESS, w'))"
    if "k < j" "k < N" for j H
    using less.hyps [of "w\<lparr>tw_calls := j, tw_held := H\<rparr>"] less.prems k(2) that by (auto simp: all_succeed_def)
  note calls = mutex_lock_def mutex_unlock_def pcall_def Let_def
  show ?case
  proof (cases "sz k = 0")
    case False
    then have "k < N"
      using assms(3) by (meson not_le)
    then show ?thesis
      using False k o s again by (subst wait_loop.simps) (simp add: calls word_gt_0)
  next
    case True
    show ?thesis
    proof (cases "sz (Suc (Suc k)) = 0")
      case e: True
      then show ?thesis
        using True k o s by (subst wait_loop.simps) (simp add: calls)
    next
      case False
      then have "Suc (Suc k) < N"
        using assms(3) by (meson not_le)
      then show ?thesis
        using False True k o s again [of "Suc (Suc (Suc k))"] by (subst wait_loop.simps) (simp add: calls)
    qed
  qed
qed

subsection \<open>Property\<close>

text \<open>
  C28: \<open>coin_tpool_wait\<close>. When it returns, it returns one of three statuses, faults nowhere, and
  unless an unlock failed it holds no mutex. \<open>COIN_SUCCESS\<close> means that it saw \<open>active_tasks\<close> and
  the size of the queue at 0 at one moment, and the size at 0 again at a later one, which is all it
  means (\<open>tpool_wait_returns_early\<close>). And when no pthread call fails and the pool becomes idle and
  stays so, it does return \<open>COIN_SUCCESS\<close>. A null pool is dereferenced, though its header promises
  \<open>COIN_INVALID_INPUT\<close>.
\<close>

theorem tpool_wait_correct:
  assumes "pool_objects \<subseteq> tw_inited w" and "tw_held w = {}" and "p_ctx pool = Own a ctx"
  shows "(\<forall>r. coin_tpool_wait act sz w (Own p pool) = Some r \<longrightarrow>
      (\<exists>st w'. r = Inr (st, w') \<and> st \<in> {COIN_SUCCESS, COIN_PTHREAD_MUTEX_ERROR, COIN_PTHREAD_COND_ERROR} \<and>
        (st = COIN_SUCCESS \<longrightarrow> (\<exists>i j. tw_calls w \<le> i \<and> i < j \<and> act i = 0 \<and> sz i = 0 \<and> sz j = 0)) \<and>
        ((\<forall>n. tw_res w Mutex_Unlock n = 0) \<longrightarrow> tw_held w' = {}))) \<and>
    (all_succeed w \<and> (\<exists>N. \<forall>n \<ge> N. act n = 0 \<and> sz n = 0) \<longrightarrow>
      (\<exists>w'. coin_tpool_wait act sz w (Own p pool) = Some (Inr (COIN_SUCCESS, w')))) \<and>
    coin_tpool_wait act sz w ONull = Some (Inl Null_Deref)"
proof (intro conjI allI impI)
  fix r
  assume "coin_tpool_wait act sz w (Own p pool) = Some r"
  then show "\<exists>st w'. r = Inr (st, w') \<and> st \<in> {COIN_SUCCESS, COIN_PTHREAD_MUTEX_ERROR, COIN_PTHREAD_COND_ERROR} \<and>
        (st = COIN_SUCCESS \<longrightarrow> (\<exists>i j. tw_calls w \<le> i \<and> i < j \<and> act i = 0 \<and> sz i = 0 \<and> sz j = 0)) \<and>
        ((\<forall>n. tw_res w Mutex_Unlock n = 0) \<longrightarrow> tw_held w' = {})"
    using wait_loop_result [of act sz w r] assms by (auto simp: coin_tpool_wait_def wait_post_def)
qed (use wait_loop_ends [OF _ assms(1)] assms(3) in \<open>auto simp: coin_tpool_wait_def\<close>)

theorem tpool_wait_correct_witness:
  "\<exists>w'. coin_tpool_wait (\<lambda>n. if n < 9 then 2 else 0) (\<lambda>_. 0) (demo_pool_world (\<lambda>_ _. 0)) (Own 0 demo_pool) =
     Some (Inr (COIN_SUCCESS, w'))"
proof -
  let ?w = "demo_pool_world (\<lambda>_ _. 0)"
  have w: "pool_objects \<subseteq> tw_inited ?w" "tw_held ?w = {}" and ok: "all_succeed ?w"
    by (simp_all add: demo_pool_world_def demo_world_def all_succeed_def)
  have pool: "p_ctx demo_pool = Own 1 (target (p_ctx demo_pool))"
    by (simp add: demo_pool_def)
  have "\<exists>N. \<forall>n \<ge> N. (if n < (9 :: nat) then 2 else 0) = (0 :: size_t) \<and> (0 :: size_t) = 0"
    by (intro exI [of _ 9]) simp
  with ok show ?thesis
    by (intro tpool_wait_correct [OF w pool, THEN conjunct2, THEN conjunct1, THEN mp] conjI)
qed

end
