(* ===== verification/Server_Inv.thy ===== *)
theory Server_Inv
  imports Server_Frame
begin

text \<open>
  The invariant of the server (\<open>src/main.c\<close>) up to the start of its clean-up: the count of a
  connection is the number of its tasks that are queued or running, plus those that were lost, and
  the connection manager is complete while the main loop runs.
\<close>

subsection \<open>Changing one connection\<close>

text \<open>A connection may change in everything but its descriptor and its blocks.\<close>

definition same_frame :: "conn_ctx \<Rightarrow> conn_ctx \<Rightarrow> bool" where
  "same_frame c c' \<longleftrightarrow> cc_fd c' = cc_fd c \<and> cc_type c' = cc_type c \<and> cc_mutex c' = cc_mutex c \<and>
     same_buf (cc_recv_buf c) (cc_recv_buf c') \<and> same_buf (cc_send_buf c) (cc_send_buf c')"

lemma same_buf_block: "same_buf x y \<Longrightarrow> buf_block y = buf_block x"
  by (auto simp: same_buf_def same_owner_def buf_block_def split: cell.splits owned.splits)

lemma same_buf_Indet: "same_buf Indet y \<longleftrightarrow> y = Indet"
  by (simp add: same_buf_def)

lemma same_frame_wf:
  assumes "same_frame c c'" and "conn_wf c"
  shows "conn_wf c'"
proof (cases "cc_type c")
  case INTERNAL_CONN
  then show ?thesis using assms by (simp add: same_frame_def conn_wf_def same_buf_Indet)
next
  case INBOUND_CONN
  then obtain rb rcs sb scs where "cc_recv_buf c = Val (Own rb rcs)" "cc_send_buf c = Val (Own sb scs)"
    using assms(2) by (auto simp: conn_wf_def)
  then show ?thesis
    using assms INBOUND_CONN by (auto simp: same_frame_def conn_wf_def same_buf_def same_owner_def)
qed

lemma cm_rep_put:
  assumes rep: "cm_rep h mgr F xs ns" and c: "ch_conns h a = Some c" and same: "same_frame c c'"
  shows "cm_rep (put_ctx h (Addr a) c') mgr F xs ns"
proof -
  let ?h = "put_ctx h (Addr a) c'"
  have "buf_block (cc_recv_buf c') = buf_block (cc_recv_buf c)" "buf_block (cc_send_buf c') = buf_block (cc_send_buf c)"
    using same by (auto intro: same_buf_block simp: same_frame_def)
  then have bl: "ctx_blocks (ch_conns ?h) b = ctx_blocks (ch_conns h) b" for b
    using c by (simp add: ctx_blocks_def)
  then have "ctx_blocks (ch_conns ?h) = ctx_blocks (ch_conns h)" by (rule ext)
  then have ft: "foot (ch_conns ?h) as = foot (ch_conns h) as" for as unfolding foot_def by (rule arg_cong)
  have fd: "fd_of ?h b = fd_of h b" for b
    using c same by (simp add: fd_of_def same_frame_def)
  then have "fd_at ?h = fd_at h" by (intro ext) (simp add: fd_at_def split: ptr.split)
  then have pl: "polls ?h xs pcs = polls h xs pcs" for pcs by (simp add: polls_def)
  have "owns ?h F base as" if "owns h F base as" for base as
  proof -
    have "conn_wf c'" using that c same_frame_wf [OF same] by (auto simp: owns_def)
    moreover have "dom (ch_conns ?h) = dom (ch_conns h)" using c by auto
    ultimately show ?thesis using that unfolding owns_def ft by (simp del: dom_fun_upd)
  qed
  moreover have "cm_shape ?h mgr ca ab pb qa qb xs ns = cm_shape h mgr ca ab pb qa qb xs ns" for ca ab pb qa qb
    by (simp add: cm_shape_def pl)
  ultimately show ?thesis using rep unfolding cm_rep_def by blast
qed

subsection \<open>Sweeping one connection\<close>

lemma rep_lookup:
  assumes "cm_rep h mgr F xs ns" and "conn < length xs"
  shows "ezarr_get_at (deref (mgr_conns mgr)) (of_nat conn) (Some NULL) = Inr (0, Some (xs ! conn))"
    and "\<exists>pf. load (mgr_pfds mgr) conn = Inr pf \<and> pf_fd pf = fd_at h (xs ! conn)"
proof -
  obtain ca ab pb a spare pcs where r: "mgr_conns mgr = Own ca a" "ea_rep (ch_mem h) a ab xs spare"
    "mgr_pfds mgr = Own pb pcs" "polls h xs pcs"
    using assms(1) by (elim cm_repE)
  have "conn \<le> 65535" using ea_rep_bound [OF r(2)] assms(2) by simp
  then have "unat (of_nat conn :: u16) = conn" by (intro unat_u16_of_nat) simp
  then show "ezarr_get_at (deref (mgr_conns mgr)) (of_nat conn) (Some NULL) = Inr (0, Some (xs ! conn))"
    using get_at_item [OF r(2), of "of_nat conn"] assms(2) r(1) by simp
  obtain pfs rest where p: "pcs = map Val pfs @ rest" "map pf_fd pfs = map (fd_at h) xs"
    using r(4) by (auto simp: polls_def)
  then have "length pfs = length xs" by (metis length_map)
  moreover from this have "pf_fd (pfs ! conn) = fd_at h (xs ! conn)"
    using p(2) assms(2) by (metis nth_map)
  ultimately show "\<exists>pf. load (mgr_pfds mgr) conn = Inr pf \<and> pf_fd pf = fd_at h (xs ! conn)"
    using r(3) p(1) assms(2) by (auto simp: nth_append)
qed

lemma addrs_update_NULL:
  "i < length xs \<Longrightarrow> xs ! i = Addr a \<Longrightarrow> mset (addrs xs) = add_mset a (mset (addrs (xs[i := NULL])))"
proof (induction xs arbitrary: i)
  case (Cons x xs)
  then show ?case by (cases i; cases x) simp_all
qed simp

lemma polls_close:
  assumes "polls h xs pcs" and "i < length xs" and "\<And>b. b \<in> set (addrs (xs[i := NULL])) \<Longrightarrow> ch_conns h' b = ch_conns h b"
  shows "polls h' (xs[i := NULL]) (pcs[i := Val zero_pollfd])"
proof -
  obtain pfs rest where p: "pcs = map Val pfs @ rest" "map pf_fd pfs = map (fd_at h) xs"
    using assms(1) by (auto simp: polls_def)
  then have len: "length pfs = length xs" by (metis length_map)
  have "map pf_fd (pfs[i := zero_pollfd]) = map (fd_at h) (xs[i := NULL])"
    by (simp add: map_update p(2) zero_pollfd_def fd_at_def)
  moreover have "pcs[i := Val zero_pollfd] = map Val (pfs[i := zero_pollfd]) @ rest"
    using p(1) len assms(2) by (simp add: list_update_append map_update)
  ultimately have "polls h (xs[i := NULL]) (pcs[i := Val zero_pollfd])" unfolding polls_def by blast
  then show ?thesis by (rule polls_cong) (rule assms(3))
qed

text \<open>Destroying the connection of an entry and clearing the entry in both arrays.\<close>

lemma close_entry:
  assumes rep: "cm_rep h mgr F xs ns" and tidy: "cm_tidy mgr" and i: "conn < length xs" "xs ! conn = Addr a"
    and c: "ch_conns h a = Some c"
  shows "\<exists>h' arr p_pfds. connmgr_destroy_conn (Addr a) h = Inr h' \<and>
    ezarr_set_at (deref (mgr_conns mgr)) (of_nat conn) NULL = Inr (0, arr) \<and>
    store (mgr_pfds mgr) conn zero_pollfd = Inr p_pfds \<and>
    cm_rep h' (mgr\<lparr>mgr_conns := put_back (mgr_conns mgr) arr, mgr_pfds := p_pfds\<rparr>) F (xs[conn := NULL]) ns \<and>
    cm_tidy (mgr\<lparr>mgr_conns := put_back (mgr_conns mgr) arr, mgr_pfds := p_pfds\<rparr>) \<and>
    ch_conns h' = (ch_conns h)(a := None) \<and> ch_closed h' = ch_closed h @ [cc_fd c]"
proof -
  obtain ca ab pb qa qb ar spare pcs q where r: "mgr_conns mgr = Own ca ar" "ea_rep (ch_mem h) ar ab xs spare"
    "mgr_max_conns mgr = ea_max_items ar" "mgr_pfds mgr = Own pb pcs" "length pcs = unat (mgr_max_conns mgr)"
    "polls h xs pcs" "mgr_new_conns mgr = Own qa q" "eq_rep (ch_mem h) q qb (map Addr ns)"
    "length xs = unat (mgr_num_active mgr)" and own: "owns h F [ca, ab, pb, qa, qb] (addrs xs @ ns)"
    using rep by (rule cm_repE)
  let ?xs = "xs[conn := NULL]"
  have own1: "owns h F [ca, ab, pb, qa, qb] (a # addrs ?xs @ ns)"
    using addrs_update_NULL [OF i] by (intro owns_perm [OF own]) simp_all
  obtain h' where h': "connmgr_destroy_conn (Addr a) h = Inr h'" "owns h' F [ca, ab, pb, qa, qb] (addrs ?xs @ ns)"
    "ch_closed h' = ch_closed h @ [cc_fd c]" "ch_conns h' = (ch_conns h)(a := None)"
    using destroy_conn_ok [OF own1 c] by blast
  have lv: "ab \<in> live (ch_mem h')" "qb \<in> live (ch_mem h')" using h'(2) by (auto simp: owns_def)
  have len: "conn < length pcs" using r i by (simp add: ea_rep_def)
  have "conn \<le> 65535" using ea_rep_bound [OF r(2)] i(1) by simp
  then have ci: "unat (of_nat conn :: u16) = conn" by (intro unat_u16_of_nat) simp
  then obtain ar' where ar': "ezarr_set_at (Some ar) (of_nat conn) NULL = Inr (0, Some ar')"
    "ea_rep (ch_mem h) ar' ab ?xs spare" "ea_max_items ar' = ea_max_items ar"
    using set_at_item [OF r(2), of "of_nat conn" NULL] i(1) by auto
  define mgr' where "mgr' = mgr\<lparr>mgr_conns := Own ca ar', mgr_pfds := Own pb (pcs[conn := Val zero_pollfd])\<rparr>"
  have "a \<notin> set (addrs ?xs)" using owns_distinct [OF own1] by simp
  then have "polls h' ?xs (pcs[conn := Val zero_pollfd])"
    by (intro polls_close [OF r(6) i(1)]) (auto simp: h'(4))
  then have "cm_shape h' mgr' ca ab pb qa qb ?xs ns"
    unfolding cm_shape_def using r ar' ea_rep_cong [OF ar'(2) lv(1)] eq_rep_cong [OF r(8) lv(2)]
    by (auto simp: mgr'_def)
  then have "cm_rep h' mgr' F ?xs ns" using h'(2) by (rule cm_repI)
  moreover have "cm_tidy mgr'"
  proof -
    have "drop (length xs) (pcs[conn := Val zero_pollfd]) = drop (length xs) pcs" using i(1) by simp
    then show ?thesis
      using tidy r ar'(2) unfolding cm_tidy_def by (simp add: mgr'_def ea_rep_def)
  qed
  ultimately show ?thesis
    using h' ar'(1) r(1,4) len by (auto simp: mgr'_def)
qed

subsection \<open>Polling\<close>

lemma poll_events_ok:
  assumes "length pre = idx"
  shows "\<exists>pfs'. poll_events ev idx (length pfs) (Own pb (pre @ map Val pfs @ rest)) =
      Inr (Own pb (pre @ map Val pfs' @ rest)) \<and> map pf_fd pfs' = map pf_fd pfs \<and>
    (\<forall>i < length pfs. pf_revents (pfs' ! i) = ev (idx + i))"
  using assms
proof (induction pfs arbitrary: idx pre)
  case (Cons pf pfs)
  let ?pf = "pf\<lparr>pf_revents := ev idx\<rparr>"
  obtain pfs' where "poll_events ev (Suc idx) (length pfs) (Own pb ((pre @ [Val ?pf]) @ map Val pfs @ rest)) =
      Inr (Own pb ((pre @ [Val ?pf]) @ map Val pfs' @ rest))" "map pf_fd pfs' = map pf_fd pfs"
    "\<forall>i < length pfs. pf_revents (pfs' ! i) = ev (Suc idx + i)"
    using Cons.IH [of "pre @ [Val ?pf]" "Suc idx"] Cons.prems by auto
  then show ?case
    using Cons.prems by (intro exI [of _ "?pf # pfs'"]) (auto simp: nth_append list_update_append nth_Cons')
qed simp

lemma poll_ok:
  assumes rep: "cm_rep h mgr F xs ns" and tidy: "cm_tidy mgr"
  shows "\<exists>p. poll_events ev 0 (unat (mgr_num_active mgr)) (mgr_pfds mgr) = Inr p \<and>
    cm_rep h (mgr\<lparr>mgr_pfds := p\<rparr>) F xs ns \<and> cm_tidy (mgr\<lparr>mgr_pfds := p\<rparr>) \<and>
    (\<forall>i < length xs. \<exists>pf. load p i = Inr pf \<and> pf_revents pf = ev i)"
proof -
  obtain ca ab pb qa qb pcs where sh: "cm_shape h mgr ca ab pb qa qb xs ns"
    and own: "owns h F [ca, ab, pb, qa, qb] (addrs xs @ ns)"
    and pcs: "mgr_pfds mgr = Own pb pcs" "polls h xs pcs" "length xs = unat (mgr_num_active mgr)"
    using rep unfolding cm_rep_def cm_shape_def by blast
  obtain pfs rest where p: "pcs = map Val pfs @ rest" "map pf_fd pfs = map (fd_at h) xs"
    using pcs(2) by (auto simp: polls_def)
  then have len: "length pfs = length xs" by (metis length_map)
  obtain pfs' where e: "poll_events ev 0 (length pfs) (Own pb pcs) = Inr (Own pb (map Val pfs' @ rest))"
    "map pf_fd pfs' = map pf_fd pfs" "\<forall>i < length pfs. pf_revents (pfs' ! i) = ev i"
    using poll_events_ok [of "[]" 0 ev pfs pb rest] p(1) by auto
  have len': "length pfs' = length xs" using e(2) len by (metis length_map)
  let ?p = "Own pb (map Val pfs' @ rest)"
  have "polls h xs (map Val pfs' @ rest)" unfolding polls_def using e(2) p(2) by metis
  then have "cm_shape h (mgr\<lparr>mgr_pfds := ?p\<rparr>) ca ab pb qa qb xs ns"
    using sh pcs(1) p(1) len len' unfolding cm_shape_def by auto
  then have "cm_rep h (mgr\<lparr>mgr_pfds := ?p\<rparr>) F xs ns" using own by (rule cm_repI)
  moreover have "cm_tidy (mgr\<lparr>mgr_pfds := ?p\<rparr>)"
    using tidy pcs p(1) len len' by (simp add: cm_tidy_def)
  moreover have "\<forall>i < length xs. \<exists>pf. load ?p i = Inr pf \<and> pf_revents pf = ev i"
    using e(3) len len' by (simp add: nth_append)
  ultimately show ?thesis using e(1) pcs(1,3) len by auto
qed

subsection \<open>Counting the tasks of a connection\<close>

text \<open>
  \<open>ps\<close> are the connections that tasks hold, one entry for each task: they are live with their
  mutex initialised, and the count of every connection is the number of its entries.
\<close>

definition counts :: "(nat \<rightharpoonup> conn_ctx) \<Rightarrow> ptr list \<Rightarrow> bool" where
  "counts C ps \<longleftrightarrow> NULL \<notin> set ps \<and>
     (\<forall>a. Addr a \<in> set ps \<longrightarrow> (\<exists>c. C a = Some c \<and> cc_mutex c = Val ())) \<and>
     (\<forall>a c. C a = Some c \<longrightarrow> cc_ref_count c = int (count_list ps (Addr a)))"

lemma counts_perm:
  assumes "counts C ps" and "mset qs = mset ps"
  shows "counts C qs"
proof -
  have "set qs = set ps" using assms(2) by (rule mset_eq_setD)
  moreover have "count_list qs p = count_list ps p" for p
    using assms(2) by (metis count_mset)
  ultimately show ?thesis using assms(1) unfolding counts_def by simp
qed

lemma counts_put:
  "counts C ps \<Longrightarrow> C a = Some c \<Longrightarrow> cc_mutex c' = cc_mutex c \<Longrightarrow> cc_ref_count c' = cc_ref_count c \<Longrightarrow>
   counts (C(a \<mapsto> c')) ps"
  unfolding counts_def by auto

lemma counts_more:
  "counts C ps \<Longrightarrow> C a = Some c \<Longrightarrow> cc_mutex c = Val () \<Longrightarrow>
   counts (C(a \<mapsto> c\<lparr>cc_ref_count := cc_ref_count c + 1\<rparr>)) (Addr a # ps)"
  unfolding counts_def by auto

lemma counts_less:
  "counts C (Addr a # ps) \<Longrightarrow> C a = Some c \<Longrightarrow> cc_mutex c' = cc_mutex c \<Longrightarrow>
   cc_ref_count c' = cc_ref_count c - 1 \<Longrightarrow> counts (C(a \<mapsto> c')) ps"
  unfolding counts_def by auto

lemma counts_zero:
  assumes "counts C ps" and "C a = Some c"
  shows "cc_ref_count c = 0 \<longleftrightarrow> Addr a \<notin> set ps"
  using assms unfolding counts_def by (auto simp: count_list_0_iff)

lemma counts_close:
  "counts C ps \<Longrightarrow> Addr a \<notin> set ps \<Longrightarrow> counts (C(a := None)) ps"
  unfolding counts_def by auto

lemma counts_accept:
  assumes "counts (ch_conns h) ps" and new: "accepted h h' as es"
  shows "counts (ch_conns h') ps"
proof -
  have held: "a \<notin> set as" if "Addr a \<in> set ps" for a
    using assms that by (fastforce simp: counts_def accepted_def)
  have old: "ch_conns h' a = ch_conns h a" if "a \<notin> set as" for a
    using new that by (simp add: accepted_def)
  have ref: "cc_ref_count c = int (count_list ps (Addr a))" if "ch_conns h' a = Some c" for a c
  proof (cases "a \<in> set as")
    case False
    then show ?thesis using old that assms(1) by (simp add: counts_def)
  next
    case True
    then have "cc_ref_count c = 0" using new that by (auto simp: accepted_def fresh_conn_def)
    moreover have "Addr a \<notin> set ps" using held True by blast
    ultimately show ?thesis by simp
  qed
  have "\<exists>c. ch_conns h' a = Some c \<and> cc_mutex c = Val ()" if "Addr a \<in> set ps" for a
    using assms(1) that old [OF held [OF that]] unfolding counts_def by simp
  then show ?thesis using ref assms(1) unfolding counts_def by blast
qed

definition held :: "server \<Rightarrow> ptr list" where
  "held s = map snd (sv_tasks s) @ sv_lost s"

definition counted :: "server \<Rightarrow> bool" where
  "counted s \<longleftrightarrow> counts (ch_conns (sv_heap s)) (held s)"

lemma counted_cong:
  "counted s \<Longrightarrow> ch_conns (sv_heap s') = ch_conns (sv_heap s) \<Longrightarrow> sv_tasks s' = sv_tasks s \<Longrightarrow>
   sv_lost s' = sv_lost s \<Longrightarrow> counted s'"
  by (simp add: counted_def held_def)

lemma counted_submit:
  assumes "counted s" and "ch_conns (sv_heap s) a = Some c" and "cc_mutex c = Val ()"
  shows "counted (submit_io env k (Addr a) c s)"
proof -
  have "mset (held (submit_io env k (Addr a) c s)) = mset (Addr a # held s)"
    by (simp add: held_def submit_io_def)
  then show ?thesis
    using counts_perm [OF counts_more] assms by (simp add: counted_def submit_io_def)
qed

lemma counted_task:
  assumes "counted s" and t: "sv_tasks s = us @ (k, Addr a) # vs" and c: "ch_conns (sv_heap s) a = Some c"
    and c': "cc_mutex c' = cc_mutex c" "cc_ref_count c' = cc_ref_count c - 1"
  shows "counted (s\<lparr>sv_heap := put_ctx (sv_heap s) (Addr a) c', sv_tasks := us @ vs\<rparr>)"
proof -
  have "counts (ch_conns (sv_heap s)) (Addr a # map snd (us @ vs) @ sv_lost s)"
    using assms(1) unfolding counted_def by (rule counts_perm) (simp add: held_def t)
  from counts_less [OF this c c'] show ?thesis by (simp add: counted_def held_def)
qed

subsection \<open>The pieces of the main loop\<close>

text \<open>A state whose arrays hold \<open>xs\<close>, between two pieces of the loop.\<close>

definition fit :: "nat set \<Rightarrow> ptr list \<Rightarrow> server \<Rightarrow> bool" where
  "fit F xs s \<longleftrightarrow> counted s \<and> cm_tidy (sv_mgr s) \<and> (\<exists>ns. cm_rep (sv_heap s) (sv_mgr s) F xs ns)"

lemma fitI: "counted s \<Longrightarrow> cm_tidy (sv_mgr s) \<Longrightarrow> cm_rep (sv_heap s) (sv_mgr s) F xs ns \<Longrightarrow> fit F xs s"
  unfolding fit_def by blast

lemma fitE:
  assumes "fit F xs s"
  obtains ns where "counted s" "cm_tidy (sv_mgr s)" "cm_rep (sv_heap s) (sv_mgr s) F xs ns"
  using assms unfolding fit_def by blast

lemma fit_pc [simp]: "fit F xs (s\<lparr>sv_pc := pc\<rparr>) = fit F xs s"
  by (simp add: fit_def counted_def held_def)

lemma fit_stop [simp]: "fit F xs (s\<lparr>sv_stop := b\<rparr>) = fit F xs s"
  by (simp add: fit_def counted_def held_def)

lemma fit_num: "fit F xs s \<Longrightarrow> unat (mgr_num_active (sv_mgr s)) = length xs"
  unfolding fit_def by (elim conjE exE cm_repE) simp

lemma fit_conn:
  assumes "fit F xs s" and "Addr a \<in> set xs"
  shows "\<exists>c. ch_conns (sv_heap s) a = Some c \<and> conn_wf c"
proof -
  obtain ns base where "owns (sv_heap s) F base (addrs xs @ ns)"
    using assms(1) unfolding fit_def by (elim conjE exE cm_repE) blast
  then show ?thesis using owns_member addrs_member assms(2) by fastforce
qed

lemma fit_lookup:
  assumes "fit F xs s" and "conn < length xs"
  shows "ezarr_get_at (deref (mgr_conns (sv_mgr s))) (of_nat conn) (Some NULL) = Inr (0, Some (xs ! conn))"
    and "\<exists>pf. load (mgr_pfds (sv_mgr s)) conn = Inr pf \<and> pf_fd pf = fd_at (sv_heap s) (xs ! conn)"
  using assms rep_lookup unfolding fit_def by blast+

lemma fit_put:
  assumes fit: "fit F xs s" and c: "ch_conns (sv_heap s) a = Some c" and same: "same_frame c c'"
    and cnt: "counted (s'\<lparr>sv_heap := put_ctx (sv_heap s) (Addr a) c'\<rparr>)" and mgr: "sv_mgr s' = sv_mgr s"
  shows "fit F xs (s'\<lparr>sv_heap := put_ctx (sv_heap s) (Addr a) c'\<rparr>)"
proof -
  obtain ns where "cm_tidy (sv_mgr s)" "cm_rep (sv_heap s) (sv_mgr s) F xs ns" using fit by (rule fitE)
  then show ?thesis
    using cm_rep_put [OF _ c same, of "sv_mgr s" F xs ns] mgr by (intro fitI [OF cnt]) simp_all
qed

lemma fit_submit:
  assumes fit: "fit F xs s" and c: "ch_conns (sv_heap s) a = Some c" "cc_mutex c = Val ()"
  shows "fit F xs (submit_io env k (Addr a) c s)"
proof -
  obtain ns where r: "counted s" "cm_tidy (sv_mgr s)" "cm_rep (sv_heap s) (sv_mgr s) F xs ns" using fit by (rule fitE)
  have "same_frame c (c\<lparr>cc_ref_count := cc_ref_count c + 1\<rparr>)" by (simp add: same_frame_def)
  from cm_rep_put [OF r(3) c(1) this] r(2) show ?thesis
    by (intro fitI [OF counted_submit [OF r(1) c]]) (simp_all add: submit_io_def)
qed

text \<open>
  A sweep of one entry closes an inbound connection that is \<open>PENDING_CLOSE\<close> and that no task
  holds; in every other case it changes nothing.
\<close>

lemma sweep_conn_ok:
  assumes fit: "fit F xs s" and conn: "conn < length xs" "xs ! conn = Addr a"
    and c: "ch_conns (sv_heap s) a = Some c"
  shows "if cc_type c = INBOUND_CONN \<and> se_lock env = 0 \<and> se_unlock env = 0 \<and> cc_state c = PENDING_CLOSE \<and>
      Addr a \<notin> set (held s)
    then \<exists>mgr' h'. sweep_conn env conn s = Inr (True, s\<lparr>sv_mgr := mgr', sv_heap := h'\<rparr>) \<and>
      fit F (xs[conn := NULL]) (s\<lparr>sv_mgr := mgr', sv_heap := h'\<rparr>) \<and>
      ch_conns h' = (ch_conns (sv_heap s))(a := None) \<and> ch_closed h' = ch_closed (sv_heap s) @ [cc_fd c]
    else sweep_conn env conn s = Inr (True, s)"
proof -
  have "Addr a \<in> set xs" using conn nth_mem by metis
  then have wf: "conn_wf c" using fit_conn [OF fit, of a] c by auto
  then have mx: "cc_type c = INBOUND_CONN \<Longrightarrow> cc_mutex c = Val ()" by (simp add: conn_wf_def)
  have zero: "cc_ref_count c = 0 \<longleftrightarrow> Addr a \<notin> set (held s)"
    using fit c counts_zero unfolding fit_def counted_def by blast
  note at = fit_lookup(1) [OF fit conn(1), unfolded conn(2)]
  show ?thesis
  proof (cases "cc_type c = INBOUND_CONN \<and> se_lock env = 0 \<and> se_unlock env = 0 \<and> cc_state c = PENDING_CLOSE \<and>
      Addr a \<notin> set (held s)")
    case False
    have "sweep_conn env conn s = Inr (True, s)"
      using False at c mx zero
      by (cases "cc_type c") (auto simp: sweep_conn_def ctx_at_def lock_mutex_def Let_def)
    with False show ?thesis by (simp only: if_False)
  next
    case True
    obtain ns where rep: "cm_rep (sv_heap s) (sv_mgr s) F xs ns" and tidy: "cm_tidy (sv_mgr s)"
      using fit unfolding fit_def by blast
    obtain h' arr p_pfds where cl: "connmgr_destroy_conn (Addr a) (sv_heap s) = Inr h'"
      "ezarr_set_at (deref (mgr_conns (sv_mgr s))) (of_nat conn) NULL = Inr (0, arr)"
      "store (mgr_pfds (sv_mgr s)) conn zero_pollfd = Inr p_pfds"
      "cm_rep h' ((sv_mgr s)\<lparr>mgr_conns := put_back (mgr_conns (sv_mgr s)) arr, mgr_pfds := p_pfds\<rparr>) F (xs[conn := NULL]) ns"
      "cm_tidy ((sv_mgr s)\<lparr>mgr_conns := put_back (mgr_conns (sv_mgr s)) arr, mgr_pfds := p_pfds\<rparr>)"
      "ch_conns h' = (ch_conns (sv_heap s))(a := None)" "ch_closed h' = ch_closed (sv_heap s) @ [cc_fd c]"
      using close_entry [OF rep tidy conn c] by blast
    let ?mgr = "(sv_mgr s)\<lparr>mgr_conns := put_back (mgr_conns (sv_mgr s)) arr, mgr_pfds := p_pfds\<rparr>"
    let ?s = "s\<lparr>sv_mgr := ?mgr, sv_heap := h'\<rparr>"
    have "sweep_conn env conn s = Inr (True, ?s)"
      using True at c mx zero cl(1-3) by (simp add: sweep_conn_def ctx_at_def lock_mutex_def Let_def)
    moreover have "counted ?s"
      using fit True counts_close cl(6) unfolding fit_def counted_def by (simp add: held_def)
    then have "fit F (xs[conn := NULL]) ?s" using cl(4,5) by (auto simp: fit_def)
    ultimately show ?thesis using True cl(6,7) by auto
  qed
qed

text \<open>An internal connection, whose mutex was never initialised.\<close>

definition no_mutex :: "server \<Rightarrow> ptr \<Rightarrow> bool" where
  "no_mutex s p \<longleftrightarrow> (\<exists>a c. p = Addr a \<and> ch_conns (sv_heap s) a = Some c \<and> cc_type c = INTERNAL_CONN \<and> cc_mutex c = Indet)"

lemma lock_cases:
  assumes "conn_wf c"
  shows "cc_mutex c = Val () \<or> cc_mutex c = Indet \<and> cc_type c = INTERNAL_CONN"
  using assms by (cases "cc_mutex c"; cases "cc_type c") (auto simp: conn_wf_def)

text \<open>No connection disappears.\<close>

definition grows :: "server \<Rightarrow> server \<Rightarrow> bool" where
  "grows s s' \<longleftrightarrow> dom (ch_conns (sv_heap s)) \<subseteq> dom (ch_conns (sv_heap s'))"

lemma grows_refl [simp]: "grows s s"
  by (simp add: grows_def)

lemma grows_pc [simp]: "grows s (s'\<lparr>sv_pc := pc\<rparr>) = grows s s'"
  by (simp add: grows_def)

lemma grows_put: "grows s (s'\<lparr>sv_heap := put_ctx (sv_heap s) p c\<rparr>)"
  by (auto simp: grows_def put_ctx_def split: ptr.split)

lemma grows_submit: "grows s (submit_io env k p c s)"
  by (auto simp: grows_def submit_io_def put_ctx_def split: ptr.split)

lemma grows_accept: "accepted (sv_heap s) h' as es \<Longrightarrow> grows s (s\<lparr>sv_mgr := mgr', sv_heap := h'\<rparr>)"
  by (auto simp: grows_def accepted_def)

lemma on_pollin_ok:
  assumes fit: "fit F xs s" and conn: "conn < length xs" "xs ! conn = Addr a" and env: "env_ok env"
  shows "(\<exists>f s'. on_pollin sfd pipe_fd env conn s = Inr (f, Addr a, s') \<and> fit F xs s' \<and> grows s s' \<and>
      sv_tasks s' = sv_tasks s @ (if sv_tasks s' = sv_tasks s then [] else [(Read_Task, Addr a)])) \<or>
    on_pollin sfd pipe_fd env conn s = Inl Uninit_Mutex \<and> no_mutex s (Addr a)"
proof -
  note at = fit_lookup(1) [OF fit conn(1), unfolded conn(2)]
  obtain pf where pf: "load (mgr_pfds (sv_mgr s)) conn = Inr pf" using fit_lookup(2) [OF fit conn(1)] by blast
  have "Addr a \<in> set xs" using conn nth_mem by metis
  then obtain c where c: "ch_conns (sv_heap s) a = Some c" "conn_wf c" using fit_conn [OF fit] by blast
  show ?thesis
  proof (cases "pf_revents pf AND POLLIN = 0")
    case True
    then show ?thesis using at pf fit by (simp add: on_pollin_def)
  next
    case ev: False
    show ?thesis
    proof (cases "sfd = pf_fd pf")
      case True
      obtain ns where rep: "cm_rep (sv_heap s) (sv_mgr s) F xs ns" using fit unfolding fit_def by blast
      obtain res mgr' h' as where acc: "accept_loop (se_errno env) (se_clients env) (sv_heap s) (sv_mgr s) = Inr (res, mgr', h')"
        "cm_rep h' mgr' F xs (ns @ as)" "accepted (sv_heap s) h' as (se_clients env)"
        "\<exists>p. mgr' = (sv_mgr s)\<lparr>mgr_new_conns := p\<rparr>"
        using accept_loop_ok [OF rep, of "se_clients env" "se_errno env"] env
        unfolding accept_outcome_def env_ok_def by blast
      have "cm_tidy mgr'" using fit acc(4) unfolding fit_def by (auto intro: tidy_cong)
      moreover have "counted (s\<lparr>sv_mgr := mgr', sv_heap := h'\<rparr>)"
        using fit counts_accept [OF _ acc(3)] unfolding fit_def counted_def by (simp add: held_def)
      ultimately have "fit F xs (s\<lparr>sv_mgr := mgr', sv_heap := h'\<rparr>)" using acc(2) by (auto simp: fit_def)
      moreover have "\<exists>f. on_pollin sfd pipe_fd env conn s = Inr (f, Addr a, s\<lparr>sv_mgr := mgr', sv_heap := h'\<rparr>)"
        using at pf ev True acc(1) by (simp add: on_pollin_def nl_accept_def)
      ultimately show ?thesis using grows_accept [OF acc(3), of mgr'] by force
    next
      case False
      show ?thesis
      proof (cases "cc_fd c = pipe_fd")
        case True
        then show ?thesis using at pf ev False c fit by (simp add: on_pollin_def ctx_at_def)
      next
        case other: False
        note run = at pf ev False c(1) other
        from lock_cases [OF c(2)] show ?thesis
        proof
          assume mx: "cc_mutex c = Val ()"
          then show ?thesis
            using run fit fit_submit [OF fit c(1) mx, of env Read_Task] grows_submit [of s env Read_Task "Addr a" c]
            by (cases "se_lock env = 0") (auto simp: on_pollin_def ctx_at_def lock_mutex_def submit_io_def)
        next
          assume "cc_mutex c = Indet \<and> cc_type c = INTERNAL_CONN"
          then show ?thesis using run by (simp add: on_pollin_def ctx_at_def lock_mutex_def no_mutex_def)
        qed
      qed
    qed
  qed
qed

lemma on_hangup_ok:
  assumes fit: "fit F xs s" and conn: "conn < length xs" "xs ! conn = Addr a"
  shows "(\<exists>f s'. on_hangup env conn (Addr a) s = Inr (f, s') \<and> fit F xs s' \<and> grows s s' \<and> sv_tasks s' = sv_tasks s) \<or>
    on_hangup env conn (Addr a) s = Inl Uninit_Mutex \<and> no_mutex s (Addr a)"
proof -
  obtain pf where pf: "load (mgr_pfds (sv_mgr s)) conn = Inr pf" using fit_lookup(2) [OF fit conn(1)] by blast
  have "Addr a \<in> set xs" using conn nth_mem by metis
  then obtain c where c: "ch_conns (sv_heap s) a = Some c" "conn_wf c" using fit_conn [OF fit] by blast
  let ?s = "s\<lparr>sv_heap := put_ctx (sv_heap s) (Addr a) (c\<lparr>cc_state := PENDING_CLOSE\<rparr>)\<rparr>"
  have "counted ?s"
    using fit counts_put [of "ch_conns (sv_heap s)" "held s" a c] c(1)
    unfolding fit_def counted_def by (simp add: held_def)
  then have fit': "fit F xs ?s" by (intro fit_put [OF fit c(1)]) (simp_all add: same_frame_def)
  from lock_cases [OF c(2)] show ?thesis
  proof
    assume "cc_mutex c = Val ()"
    then show ?thesis
      using pf c(1) fit fit' grows_put [of s "Addr a" "c\<lparr>cc_state := PENDING_CLOSE\<rparr>" s]
      by (cases "se_lock env = 0") (auto simp: on_hangup_def ctx_at_def lock_mutex_def)
  next
    assume "cc_mutex c = Indet \<and> cc_type c = INTERNAL_CONN"
    then show ?thesis
      using pf c(1) fit by (auto simp: on_hangup_def ctx_at_def lock_mutex_def no_mutex_def)
  qed
qed

lemma on_pollout_ok:
  assumes fit: "fit F xs s" and conn: "conn < length xs" "xs ! conn = Addr a"
  shows "(\<exists>s'. on_pollout env conn (Addr a) s = Inr s' \<and> fit F xs s' \<and> grows s s' \<and>
      sv_tasks s' = sv_tasks s @ (if sv_tasks s' = sv_tasks s then [] else [(Send_Task, Addr a)])) \<or>
    on_pollout env conn (Addr a) s = Inl Uninit_Mutex \<and> no_mutex s (Addr a)"
proof -
  obtain pf where pf: "load (mgr_pfds (sv_mgr s)) conn = Inr pf" using fit_lookup(2) [OF fit conn(1)] by blast
  have "Addr a \<in> set xs" using conn nth_mem by metis
  then obtain c where c: "ch_conns (sv_heap s) a = Some c" "conn_wf c" using fit_conn [OF fit] by blast
  from lock_cases [OF c(2)] show ?thesis
  proof
    assume mx: "cc_mutex c = Val ()"
    then show ?thesis
      using pf c(1) fit fit_submit [OF fit c(1) mx, of env Send_Task] grows_submit [of s env Send_Task "Addr a" c]
      by (cases "se_lock env = 0") (auto simp: on_pollout_def ctx_at_def lock_mutex_def submit_io_def)
  next
    assume "cc_mutex c = Indet \<and> cc_type c = INTERNAL_CONN"
    then show ?thesis
      using pf c(1) fit by (auto simp: on_pollout_def ctx_at_def lock_mutex_def no_mutex_def)
  qed
qed

subsection \<open>The invariant\<close>

text \<open>
  Up to the clean-up the counts are right; up to the end of the main loop the manager is complete
  too, and what is still ahead of the main thread in the arrays is not \<open>NULL\<close>.
\<close>

definition ahead :: "main_pc \<Rightarrow> ptr list \<Rightarrow> bool" where
  "ahead pc xs \<longleftrightarrow>
     (case pc of
        Sweep conn \<Rightarrow> NULL \<notin> set (drop conn xs)
      | Update \<Rightarrow> True
      | Hangup conn p \<Rightarrow> NULL \<notin> set xs \<and> conn < length xs \<and> xs ! conn = p
      | Pollout conn p \<Rightarrow> NULL \<notin> set xs \<and> conn < length xs \<and> xs ! conn = p
      | _ \<Rightarrow> NULL \<notin> set xs)"

definition looping :: "main_pc \<Rightarrow> bool" where
  "looping pc \<longleftrightarrow> pc \<notin> {Cleanup_Connections, Destroy_Tpool, Destroy_Connmgr, Join_Sig_Thread}"

definition serving :: "main_pc \<Rightarrow> bool" where
  "serving pc \<longleftrightarrow> looping pc \<or> pc = Cleanup_Connections"

definition srv_inv :: "nat set \<Rightarrow> server \<Rightarrow> bool" where
  "srv_inv F s \<longleftrightarrow>
     (serving (sv_pc s) \<longrightarrow> counted s) \<and>
     (looping (sv_pc s) \<longrightarrow> (\<exists>xs. fit F xs s \<and> ahead (sv_pc s) xs))"

lemma srv_inv_fit: "fit F xs s \<Longrightarrow> ahead (sv_pc s) xs \<Longrightarrow> srv_inv F s"
  unfolding srv_inv_def fit_def by blast

lemma srv_inv_end: "\<not> serving (sv_pc s) \<Longrightarrow> srv_inv F s"
  by (simp add: srv_inv_def serving_def)

lemma srv_inv_cleanup: "counted s \<Longrightarrow> sv_pc s = Cleanup_Connections \<Longrightarrow> srv_inv F s"
  by (simp add: srv_inv_def looping_def)

lemma fit_counted: "fit F xs s \<Longrightarrow> counted s"
  by (simp add: fit_def)

lemma counted_pc [simp]: "counted (s\<lparr>sv_pc := pc\<rparr>) = counted s"
  by (simp add: counted_def held_def)

lemma not_NULL: "NULL \<notin> set xs \<Longrightarrow> i < length xs \<Longrightarrow> \<exists>a. xs ! i = Addr a"
  by (metis nth_mem ptr.exhaust)

text \<open>
  A piece of the main loop at a state of the invariant either leads to such a state or faults in
  one of two ways: an update reads a cell that growing an array left unwritten, or a piece locks
  the mutex of an internal connection.
\<close>

definition main_ok :: "nat set \<Rightarrow> server \<Rightarrow> cfault + server \<Rightarrow> bool" where
  "main_ok F s r \<longleftrightarrow>
     (case r of
        Inr s' \<Rightarrow> srv_inv F s'
      | Inl f \<Rightarrow> f = Indet_Read \<and> sv_pc s = Update \<and> \<not> cm_clean (sv_mgr s) \<or>
          f = Uninit_Mutex \<and> (\<exists>p. no_mutex s p))"

lemma main_ok_simps [simp]:
  "main_ok F s (Inr s') = srv_inv F s'"
  by (simp add: main_ok_def)

lemma sweep_main_ok:
  assumes fit: "fit F xs s" and ah: "NULL \<notin> set (drop conn xs)" and pc: "sv_pc s = Sweep conn"
  shows "main_ok F s (main_step sfd pipe_fd env s)"
proof (cases "conn < length xs")
  case False
  have "srv_inv F (s\<lparr>sv_pc := Update\<rparr>)"
    by (rule srv_inv_fit [of F xs]) (simp_all add: fit ahead_def)
  then show ?thesis using False fit_num [OF fit] pc by (simp add: main_step_def)
next
  case True
  then have "xs ! conn \<noteq> NULL" using ah by (metis Cons_nth_drop_Suc list.set_intros(1))
  then obtain a where a: "xs ! conn = Addr a" by (cases "xs ! conn") auto
  then have "Addr a \<in> set xs" using True nth_mem by metis
  then obtain c where c: "ch_conns (sv_heap s) a = Some c" using fit_conn [OF fit] by blast
  have dr: "NULL \<notin> set (drop (Suc conn) xs)"
    using ah True by (metis Cons_nth_drop_Suc list.set_intros(2))
  have "\<exists>s' xs'. sweep_conn env conn s = Inr (True, s') \<and> fit F xs' s' \<and> NULL \<notin> set (drop (Suc conn) xs')"
  proof (cases "sweep_conn env conn s = Inr (True, s)")
    case True
    then show ?thesis using fit dr by blast
  next
    case False
    then obtain s' where "sweep_conn env conn s = Inr (True, s')" "fit F (xs[conn := NULL]) s'"
      using sweep_conn_ok [OF fit \<open>conn < length xs\<close> a c, of env] by (auto split: if_splits)
    moreover have "drop (Suc conn) (xs[conn := NULL]) = drop (Suc conn) xs" by simp
    ultimately show ?thesis using dr by metis
  qed
  then obtain s' xs' where s': "sweep_conn env conn s = Inr (True, s')" "fit F xs' s'" "NULL \<notin> set (drop (Suc conn) xs')"
    by blast
  have "srv_inv F (s'\<lparr>sv_pc := Sweep (Suc conn)\<rparr>)"
    by (rule srv_inv_fit [of F xs']) (simp_all add: s' ahead_def)
  then show ?thesis using True s'(1) fit_num [OF fit] pc by (simp add: main_step_def)
qed

lemma update_main_ok:
  assumes fit: "fit F xs s" and pc: "sv_pc s = Update"
  shows "main_ok F s (main_step sfd pipe_fd env s)"
proof -
  obtain ns where r: "counted s" "cm_tidy (sv_mgr s)" "cm_rep (sv_heap s) (sv_mgr s) F xs ns" using fit by (rule fitE)
  show ?thesis
  proof (cases "connmgr_update_connections (sv_heap s) (Some (sv_mgr s))")
    case (Inl f)
    have "\<not> cm_clean (sv_mgr s)" using update_ok [OF r(3)] Inl by auto
    moreover from this obtain f' where "connmgr_remove_closed_connections (Some (sv_mgr s)) = Inl f'"
      using remove_needs_clean [OF r(3,2)] by (cases "connmgr_remove_closed_connections (Some (sv_mgr s))") auto
    then have "f = Indet_Read" using remove_faults [OF r(3,2)] Inl by (simp add: connmgr_update_connections_def)
    ultimately show ?thesis using Inl pc by (simp add: main_step_def main_ok_def)
  next
    case (Inr y)
    obtain res p h' where y: "y = (res, p, h')" by (cases y) auto
    obtain mgr' where u: "p = Some mgr'" "ch_conns h' = ch_conns (sv_heap s)"
      "res = 0 \<longrightarrow> cm_rep h' mgr' F (filter (\<lambda>x. x \<noteq> NULL) xs @ map Addr ns) [] \<and> cm_tidy mgr'"
      using update_tidy [OF r(3,2)] Inr y by blast
    let ?s = "s\<lparr>sv_mgr := mgr', sv_heap := h', sv_pc := if res \<noteq> 0 then Cleanup_Connections else Poll\<rparr>"
    have cnt: "counted ?s" by (rule counted_cong [OF r(1)]) (simp_all add: u(2))
    have "srv_inv F ?s"
    proof (cases "res = 0")
      case True
      then have "fit F (filter (\<lambda>x. x \<noteq> NULL) xs @ map Addr ns) ?s" using cnt u(3) by (intro fitI) auto
      then show ?thesis using True by (intro srv_inv_fit) (auto simp: ahead_def)
    next
      case False
      then show ?thesis using cnt by (intro srv_inv_cleanup) auto
    qed
    then show ?thesis using Inr y u(1) pc by (simp add: main_step_def)
  qed
qed

lemma poll_main_ok:
  assumes fit: "fit F xs s" and ah: "NULL \<notin> set xs" and pc: "sv_pc s = Poll"
  shows "main_ok F s (main_step sfd pipe_fd env s)"
proof (cases "se_poll env = -1")
  case True
  have "srv_inv F (s\<lparr>sv_pc := Wait_Pool\<rparr>)"
    by (rule srv_inv_fit [of F xs]) (simp_all add: fit ah ahead_def)
  then show ?thesis using True pc by (simp add: main_step_def)
next
  case False
  obtain ns where r: "counted s" "cm_tidy (sv_mgr s)" "cm_rep (sv_heap s) (sv_mgr s) F xs ns" using fit by (rule fitE)
  obtain p where p: "poll_events (se_events env) 0 (unat (mgr_num_active (sv_mgr s))) (mgr_pfds (sv_mgr s)) = Inr p"
    "cm_rep (sv_heap s) ((sv_mgr s)\<lparr>mgr_pfds := p\<rparr>) F xs ns" "cm_tidy ((sv_mgr s)\<lparr>mgr_pfds := p\<rparr>)"
    using poll_ok [OF r(3,2)] by blast
  let ?s = "s\<lparr>sv_mgr := (sv_mgr s)\<lparr>mgr_pfds := p\<rparr>, sv_pc := Pollin 0\<rparr>"
  have "counted ?s" by (rule counted_cong [OF r(1)]) simp_all
  then have "fit F xs ?s" using p(2,3) by (intro fitI) auto
  then have "srv_inv F ?s" by (rule srv_inv_fit) (simp add: ahead_def ah)
  then show ?thesis using False p(1) pc by (simp add: main_step_def)
qed

lemma goes_inv:
  assumes "fit F xs s" and "NULL \<notin> set xs" and "ahead pc xs"
  shows "srv_inv F (s\<lparr>sv_pc := goes pc f\<rparr>)"
proof (cases f)
  case Goto_Cleanup
  then show ?thesis using assms by (intro srv_inv_cleanup) (simp_all add: goes_def fit_counted)
next
  case Next
  then show ?thesis using assms by (intro srv_inv_fit [of F xs]) (simp_all add: goes_def)
next
  case Break
  then show ?thesis using assms by (intro srv_inv_fit [of F xs]) (simp_all add: goes_def ahead_def)
qed

lemma pollin_main_ok:
  assumes fit: "fit F xs s" and ah: "NULL \<notin> set xs" and pc: "sv_pc s = Pollin conn" and env: "env_ok env"
  shows "main_ok F s (main_step sfd pipe_fd env s)"
proof (cases "conn < length xs")
  case False
  have "srv_inv F (s\<lparr>sv_pc := Loop_Test\<rparr>)"
    by (rule srv_inv_fit [of F xs]) (simp_all add: fit ah ahead_def)
  then show ?thesis using False fit_num [OF fit] pc by (simp add: main_step_def)
next
  case True
  obtain a where a: "xs ! conn = Addr a" using not_NULL [OF ah True] by blast
  have "ahead (Hangup conn (Addr a)) xs" using ah True a by (simp add: ahead_def)
  then show ?thesis
    using on_pollin_ok [OF fit True a env, of sfd pipe_fd] True fit_num [OF fit] pc goes_inv [OF _ ah]
    by (auto simp: main_step_def main_ok_def)
qed

lemma hangup_main_ok:
  assumes fit: "fit F xs s" and ah: "ahead (Hangup conn p) xs" and pc: "sv_pc s = Hangup conn p"
  shows "main_ok F s (main_step sfd pipe_fd env s)"
proof -
  have x: "NULL \<notin> set xs" "conn < length xs" "xs ! conn = p" using ah by (simp_all add: ahead_def)
  obtain a where a: "p = Addr a" using not_NULL [OF x(1,2)] x(3) by auto
  have "ahead (Pollout conn p) xs" using x by (simp add: ahead_def)
  then show ?thesis
    using on_hangup_ok [OF fit x(2), of a env] x a pc goes_inv [OF _ x(1)]
    by (auto simp: main_step_def main_ok_def)
qed

lemma pollout_main_ok:
  assumes fit: "fit F xs s" and ah: "ahead (Pollout conn p) xs" and pc: "sv_pc s = Pollout conn p"
  shows "main_ok F s (main_step sfd pipe_fd env s)"
proof -
  have x: "NULL \<notin> set xs" "conn < length xs" "xs ! conn = p" using ah by (simp_all add: ahead_def)
  obtain a where a: "p = Addr a" using not_NULL [OF x(1,2)] x(3) by auto
  have "srv_inv F (s'\<lparr>sv_pc := Pollin (Suc conn)\<rparr>)" if "fit F xs s'" for s'
    using that by (intro srv_inv_fit [of F xs]) (simp_all add: ahead_def x)
  then show ?thesis
    using on_pollout_ok [OF fit x(2), of a env] x a pc
    by (auto simp: main_step_def main_ok_def)
qed

lemma main_step_ok:
  assumes inv: "srv_inv F s" and look: "looping (sv_pc s)" and env: "env_ok env"
  shows "main_ok F s (main_step sfd pipe_fd env s)"
proof -
  obtain xs where fit: "fit F xs s" and ah: "ahead (sv_pc s) xs" using inv look unfolding srv_inv_def by blast
  have move: "srv_inv F (s\<lparr>sv_pc := pc\<rparr>)" if "ahead pc xs" for pc
    by (rule srv_inv_fit [of F xs]) (simp_all add: fit that)
  show ?thesis
  proof (cases "sv_pc s")
    case Loop_Test
    then have "ahead Wait_Pool xs" "ahead (Sweep 0) xs" using ah by (simp_all add: ahead_def)
    then show ?thesis using Loop_Test move by (simp add: main_step_def)
  next
    case (Sweep conn)
    then show ?thesis using sweep_main_ok [OF fit _ Sweep] ah by (simp add: ahead_def)
  next
    case Update
    then show ?thesis by (rule update_main_ok [OF fit])
  next
    case Poll
    then show ?thesis using poll_main_ok [OF fit _ Poll] ah by (simp add: ahead_def)
  next
    case (Pollin conn)
    then show ?thesis using pollin_main_ok [OF fit _ Pollin env] ah by (simp add: ahead_def)
  next
    case (Hangup conn p)
    then show ?thesis using hangup_main_ok [OF fit _ Hangup] ah by simp
  next
    case (Pollout conn p)
    then show ?thesis using pollout_main_ok [OF fit _ Pollout] ah by simp
  next
    case Wait_Pool
    then show ?thesis using fit by (simp add: main_step_def srv_inv_cleanup fit_counted)
  qed (use look in \<open>simp_all add: looping_def\<close>)
qed

end
