(* ===== verification/Server_Run.thy ===== *)
theory Server_Run
  imports Server_Inv
begin

text \<open>
  Runs of the server (\<open>src/main.c\<close>): its reachable states satisfy the invariant of \<open>Server_Inv\<close>,
  so no task and no piece of the main loop uses a connection that was freed. The clean-up at the
  end breaks this when tasks are still outstanding (see \<open>worker_uses_freed_connection\<close>, over runs
  in which the main thread really waits for the pool).
\<close>

subsection \<open>Reachable states\<close>

lemma keeps_frame:
  "keeps_conn c c' \<Longrightarrow> same_frame c (c'\<lparr>cc_ref_count := n\<rparr>)"
  by (simp add: keeps_conn_def same_frame_def)

lemma start_inv:
  assumes "srv_start F s"
  shows "srv_inv F s"
proof -
  obtain ns where ns: "cm_rep (sv_heap s) (sv_mgr s) F [] ns" using assms unfolding srv_start_def by blast
  have "counted s" using assms by (auto simp: srv_start_def counted_def held_def counts_def)
  moreover have "cm_tidy (sv_mgr s)" using assms clean_tidy by (simp add: srv_start_def)
  ultimately have "fit F [] s" using ns by (rule fitI)
  then show ?thesis by (rule srv_inv_fit) (use assms in \<open>simp add: ahead_def srv_start_def\<close>)
qed

lemma worker_inv:
  assumes inv: "srv_inv F s" and t: "sv_tasks s = us @ t # vs" and run: "run_task io stop t (sv_heap s) = Inr h'"
  shows "srv_inv F (s\<lparr>sv_heap := h', sv_tasks := us @ vs\<rparr>)"
proof (cases "serving (sv_pc s)")
  case False
  then show ?thesis by (simp add: srv_inv_end)
next
  case True
  then have cnt: "counted s" using inv by (simp add: srv_inv_def)
  obtain k p where kp: "t = (k, p)" by (cases t)
  obtain a c c' where r: "p = Addr a" "ch_conns (sv_heap s) a = Some c" "keeps_conn c c'"
    "h' = put_ctx (sv_heap s) p (c'\<lparr>cc_ref_count := cc_ref_count c - 1\<rparr>)"
    using run_task_result [of io stop k p "sv_heap s" h'] run kp by blast
  let ?c = "c'\<lparr>cc_ref_count := cc_ref_count c - 1\<rparr>" and ?s = "s\<lparr>sv_heap := h', sv_tasks := us @ vs\<rparr>"
  have t': "sv_tasks s = us @ (k, Addr a) # vs" using t kp r(1) by simp
  have "cc_mutex ?c = cc_mutex c" "cc_ref_count ?c = cc_ref_count c - 1"
    using r(3) by (simp_all add: keeps_conn_def)
  from counted_task [OF cnt t' r(2) this] have cnt': "counted ?s" using r(1,4) by simp
  have "fit F xs ?s" if fit: "fit F xs s" for xs
  proof -
    obtain ns where "counted s" "cm_tidy (sv_mgr s)" "cm_rep (sv_heap s) (sv_mgr s) F xs ns" using fit by (rule fitE)
    then show ?thesis
      using cm_rep_put [OF _ r(2) keeps_frame [OF r(3)]] r(1,4) by (intro fitI [OF cnt']) auto
  qed
  then show ?thesis using inv cnt' by (auto simp: srv_inv_def)
qed

lemma step_inv:
  assumes inv: "srv_inv F s" and step: "srv_step sfd pipe_fd s s'"
  shows "srv_inv F s'"
  using step
proof cases
  case (main env)
  show ?thesis
  proof (cases "looping (sv_pc s)")
    case True
    then show ?thesis using main_step_ok [OF inv True main(2)] main(1) by (metis main_ok_simps)
  next
    case False
    then have "\<not> serving (sv_pc s')"
      using main(1) by (auto simp: looping_def serving_def main_step_def and_then_eq_Inr split: option.splits)
    then show ?thesis by (rule srv_inv_end)
  qed
next
  case (worker us t vs io h')
  then show ?thesis using worker_inv [OF inv] by simp
next
  case signal
  then show ?thesis using inv by (simp add: srv_inv_def counted_def held_def)
qed

lemma srv_reach_start: "srv_start F s \<Longrightarrow> srv_reach sfd pipe_fd F s"
  by (rule reachable.start)

lemma srv_reach_main:
  "srv_reach sfd pipe_fd F s \<Longrightarrow> main_step sfd pipe_fd env s = Inr s' \<Longrightarrow> env_ok env \<Longrightarrow> srv_reach sfd pipe_fd F s'"
  by (erule reachable.step) (rule srv_step.main)

interpretation srv: step_invariant "srv_start F" "srv_step sfd pipe_fd" "srv_inv F" for F sfd pipe_fd
  by unfold_locales (blast intro: start_inv step_inv)+

subsection \<open>When a connection is closed\<close>

lemma sweep_closes:
  assumes fit: "fit F xs s" and ah: "NULL \<notin> set (drop conn xs)" and pc: "sv_pc s = Sweep conn"
    and run: "main_step sfd pipe_fd env s = Inr s'"
    and c: "ch_conns (sv_heap s) a = Some c" and gone: "ch_conns (sv_heap s') a = None"
  shows "cc_type c = INBOUND_CONN \<and> cc_state c = PENDING_CLOSE \<and> Addr a \<notin> set (held s) \<and>
    ch_closed (sv_heap s') = ch_closed (sv_heap s) @ [cc_fd c]"
proof -
  have conn: "conn < length xs"
    using run pc c gone fit_num [OF fit] by (auto simp: main_step_def split: if_splits)
  then have "xs ! conn \<noteq> NULL" using ah by (metis Cons_nth_drop_Suc list.set_intros(1))
  then obtain b where b: "xs ! conn = Addr b" by (cases "xs ! conn") auto
  then have "Addr b \<in> set xs" using conn nth_mem by metis
  then obtain cb where cb: "ch_conns (sv_heap s) b = Some cb" using fit_conn [OF fit] by blast
  obtain s1 where s1: "sweep_conn env conn s = Inr (True, s1)" "s' = s1\<lparr>sv_pc := Sweep (Suc conn)\<rparr>"
    using run pc conn fit_num [OF fit] sweep_conn_ok [OF fit conn b cb, of env]
    by (auto simp: main_step_def split: if_splits)
  have "s1 \<noteq> s" using c gone s1(2) by auto
  then have "cc_type cb = INBOUND_CONN \<and> cc_state cb = PENDING_CLOSE \<and> Addr b \<notin> set (held s) \<and>
      ch_conns (sv_heap s1) = (ch_conns (sv_heap s))(b := None) \<and>
      ch_closed (sv_heap s1) = ch_closed (sv_heap s) @ [cc_fd cb]"
    using sweep_conn_ok [OF fit conn b cb, of env] s1(1) by (auto split: if_splits)
  then show ?thesis using c gone s1(2) cb by (auto split: if_splits)
qed

lemma main_keeps_conns:
  assumes fit: "fit F xs s" and ah: "ahead (sv_pc s) xs" and look: "looping (sv_pc s)" and env: "env_ok env"
    and run: "main_step sfd pipe_fd env s = Inr s'" and no_sweep: "\<forall>conn. sv_pc s \<noteq> Sweep conn"
  shows "grows s s'"
proof (cases "sv_pc s")
  case Update
  obtain ns where "counted s" "cm_tidy (sv_mgr s)" "cm_rep (sv_heap s) (sv_mgr s) F xs ns" using fit by (rule fitE)
  then show ?thesis
    using run Update update_tidy by (fastforce simp: main_step_def and_then_eq_Inr grows_def)
next
  case (Pollin conn)
  show ?thesis
  proof (cases "conn < length xs")
    case True
    obtain a where "xs ! conn = Addr a" using not_NULL [OF _ True] ah Pollin by (auto simp: ahead_def)
    from on_pollin_ok [OF fit True this env, of sfd pipe_fd] show ?thesis
      using run Pollin True fit_num [OF fit] by (auto simp: main_step_def)
  next
    case False
    then show ?thesis using run Pollin fit_num [OF fit] by (auto simp: main_step_def grows_def)
  qed
next
  case (Hangup conn p)
  then have x: "NULL \<notin> set xs" "conn < length xs" "xs ! conn = p" using ah by (simp_all add: ahead_def)
  obtain a where "p = Addr a" using not_NULL [OF x(1,2)] x(3) by auto
  then show ?thesis using on_hangup_ok [OF fit x(2), of a env] x(3) run Hangup by (auto simp: main_step_def)
next
  case (Pollout conn p)
  then have x: "NULL \<notin> set xs" "conn < length xs" "xs ! conn = p" using ah by (simp_all add: ahead_def)
  obtain a where "p = Addr a" using not_NULL [OF x(1,2)] x(3) by auto
  then show ?thesis using on_pollout_ok [OF fit x(2), of a env] x(3) run Pollout by (auto simp: main_step_def)
qed (use run look no_sweep in \<open>auto simp: main_step_def grows_def looping_def and_then_eq_Inr split: if_splits\<close>)

subsection \<open>A run to apply the properties to\<close>

text \<open>\<open>n\<close> pieces of the main thread with the same answers of the environment.\<close>

fun main_run :: "int \<Rightarrow> int \<Rightarrow> step_env \<Rightarrow> nat \<Rightarrow> server \<Rightarrow> cfault + server" where
  "main_run sfd pipe_fd env 0 s = Inr s"
| "main_run sfd pipe_fd env (Suc n) s =
     and_then (main_step sfd pipe_fd env s) (\<lambda>s. main_run sfd pipe_fd env n s)"

lemma reach_run:
  "main_run sfd pipe_fd env n s = Inr s' \<Longrightarrow> env_ok env \<Longrightarrow> srv_reach sfd pipe_fd F s \<Longrightarrow>
   srv_reach sfd pipe_fd F s'"
proof (induction n arbitrary: s)
  case (Suc n)
  then obtain s1 where "main_step sfd pipe_fd env s = Inr s1" "main_run sfd pipe_fd env n s1 = Inr s'"
    by (auto simp: and_then_eq_Inr)
  then show ?case using Suc.IH Suc.prems(2,3) srv_reach_main by blast
qed simp

text \<open>One connection on descriptor 20 waits in the queue: an inbound one, or an internal one.\<close>

definition demo_srv_with :: "conn_ctx \<Rightarrow> server" where
  "demo_srv_with c = \<lparr>sv_pc = Loop_Test,
     sv_mgr = \<lparr>
       mgr_conns = Own 0 \<lparr>ea_pp_buf = Own 1 [Val NULL, Val NULL], ea_num_items = 0, ea_max_items = 2\<rparr>,
       mgr_pfds = Own 2 [Val zero_pollfd, Val zero_pollfd],
       mgr_new_conns = Own 3 \<lparr>eq_pp_buf = Own 4 [Val (Addr 5), Indet], eq_num_items = 1, eq_max_items = 2,
         eq_idx_head = 0, eq_idx_tail = 0\<rparr>,
       mgr_max_conns = 2, mgr_num_active = 0\<rparr>,
     sv_heap = \<lparr>ch_mem = \<lparr>grant = (\<lambda>_. True), asked = 8, live = {0, 1, 2, 3, 4, 5, 6, 7}\<rparr>,
       ch_conns = [5 \<mapsto> c], ch_closed = []\<rparr>,
     sv_tasks = [], sv_lost = [], sv_stop = False\<rparr>"

definition demo_srv :: server where
  "demo_srv = demo_srv_with (demo_inbound 6 20)"

definition demo_internal :: conn_ctx where
  "demo_internal = (demo_inbound 6 20)\<lparr>cc_type := INTERNAL_CONN, cc_mutex := Indet, cc_recv_buf := Indet,
     cc_send_buf := Indet, cc_state := SPECIAL_CONN\<rparr>"

definition demo_env :: step_env where
  "demo_env = \<lparr>se_lock = 0, se_unlock = 0, se_submit = COIN_SUCCESS, se_queued = True, se_poll = 1,
     se_events = (\<lambda>_. POLLIN), se_errno = EAGAIN, se_clients = [],
     se_joined = True\<rparr>"

lemma demo_env_ok: "env_ok demo_env"
  by (simp add: env_ok_def demo_env_def)

lemma demo_start: "srv_start {} demo_srv" and demo_start_internal: "srv_start {6, 7} (demo_srv_with demo_internal)"
proof -
  have sh: "cm_shape (sv_heap (demo_srv_with c)) (sv_mgr (demo_srv_with c)) 0 1 2 3 4 [] [5]" for c
    by (simp add: cm_shape_def demo_srv_with_def ea_rep_def eq_rep_def polls_def)
  have "owns (sv_heap demo_srv) {} [0, 1, 2, 3, 4] (addrs [] @ [5])"
    by (auto simp: owns_def demo_srv_def demo_srv_with_def mem_ok_def ctx_blocks_def buf_block_def demo_inbound_def
        conn_wf_def split: if_splits)
  then have "cm_rep (sv_heap demo_srv) (sv_mgr demo_srv) {} [] [5]"
    unfolding demo_srv_def by (rule cm_repI [OF sh])
  then show "srv_start {} demo_srv"
    by (auto simp: srv_start_def demo_srv_def demo_srv_with_def cm_clean_def zero_pollfd_def demo_inbound_def
        split: if_splits)
  have "owns (sv_heap (demo_srv_with demo_internal)) {6, 7} [0, 1, 2, 3, 4] (addrs [] @ [5])"
    by (auto simp: owns_def demo_srv_with_def mem_ok_def ctx_blocks_def buf_block_def demo_inbound_def demo_internal_def
        conn_wf_def split: if_splits)
  then have "cm_rep (sv_heap (demo_srv_with demo_internal)) (sv_mgr (demo_srv_with demo_internal)) {6, 7} [] [5]"
    by (rule cm_repI [OF sh])
  then show "srv_start {6, 7} (demo_srv_with demo_internal)"
    by (auto simp: srv_start_def demo_srv_with_def cm_clean_def zero_pollfd_def demo_inbound_def demo_internal_def
        split: if_splits)
qed

definition demo_mgr_at :: "u16 \<Rightarrow> conn_mgr_t" where
  "demo_mgr_at ev = (sv_mgr demo_srv)\<lparr>
     mgr_conns := Own 0 \<lparr>ea_pp_buf = Own 1 [Val (Addr 5), Val NULL], ea_num_items = 1, ea_max_items = 2\<rparr>,
     mgr_pfds := Own 2 [Val \<lparr>pf_fd = 20, pf_events = all_events, pf_revents = ev\<rparr>, Val zero_pollfd],
     mgr_new_conns := Own 3 \<lparr>eq_pp_buf = Own 4 [Val (Addr 5), Indet], eq_num_items = 0, eq_max_items = 2,
         eq_idx_head = -1, eq_idx_tail = -1\<rparr>,
     mgr_num_active := 1\<rparr>"

text \<open>After one iteration of the loop: a task to read from the connection has been submitted.\<close>

definition demo_srv_busy :: server where
  "demo_srv_busy = demo_srv\<lparr>sv_mgr := demo_mgr_at POLLIN,
     sv_heap := put_ctx (sv_heap demo_srv) (Addr 5) ((demo_inbound 6 20)\<lparr>cc_ref_count := 1\<rparr>),
     sv_tasks := [(Read_Task, Addr 5)]\<rparr>"

lemma two_left: "pfds_loop r 2 w p = pfds_loop r (Suc (Suc 0)) w p"
  by (simp add: numeral_2_eq_2)

lemma demo_update:
  assumes "cc_fd c = 20"
  shows "connmgr_update_connections (sv_heap (demo_srv_with c)) (Some (sv_mgr (demo_srv_with c))) =
    Inr (0, Some (demo_mgr_at 0), sv_heap (demo_srv_with c))"
  using assms
  by (simp add: op_defs demo_mgr_at_def demo_srv_def demo_srv_with_def Let_def compact_loop.simps add_loop.simps zero_pollfd_def
      ctx_at_def two_left)

lemma demo_num: "mgr_num_active (demo_mgr_at ev) = 1"
  by (simp add: demo_mgr_at_def)

text \<open>The first pieces: the connection is moved into the arrays and polled.\<close>

lemma demo_pieces:
  assumes "cc_fd c = 20" and "se_poll env \<noteq> -1"
  shows "main_step 3 4 env (demo_srv_with c) = Inr ((demo_srv_with c)\<lparr>sv_pc := Sweep 0\<rparr>)"
    and "main_step 3 4 env ((demo_srv_with c)\<lparr>sv_pc := Sweep 0\<rparr>) = Inr ((demo_srv_with c)\<lparr>sv_pc := Update\<rparr>)"
    and "main_step 3 4 env ((demo_srv_with c)\<lparr>sv_pc := Update\<rparr>) =
      Inr ((demo_srv_with c)\<lparr>sv_pc := Poll, sv_mgr := demo_mgr_at 0\<rparr>)"
    and "main_step 3 4 env ((demo_srv_with c)\<lparr>sv_pc := Poll, sv_mgr := demo_mgr_at 0\<rparr>) =
      Inr ((demo_srv_with c)\<lparr>sv_pc := Pollin 0, sv_mgr := demo_mgr_at (se_events env 0)\<rparr>)"
proof -
  show "main_step 3 4 env (demo_srv_with c) = Inr ((demo_srv_with c)\<lparr>sv_pc := Sweep 0\<rparr>)"
    and "main_step 3 4 env ((demo_srv_with c)\<lparr>sv_pc := Sweep 0\<rparr>) = Inr ((demo_srv_with c)\<lparr>sv_pc := Update\<rparr>)"
    by (simp_all add: main_step_def demo_srv_with_def)
  show "main_step 3 4 env ((demo_srv_with c)\<lparr>sv_pc := Update\<rparr>) =
      Inr ((demo_srv_with c)\<lparr>sv_pc := Poll, sv_mgr := demo_mgr_at 0\<rparr>)"
    using demo_update [OF assms(1)] by (simp add: main_step_def)
  show "main_step 3 4 env ((demo_srv_with c)\<lparr>sv_pc := Poll, sv_mgr := demo_mgr_at 0\<rparr>) =
      Inr ((demo_srv_with c)\<lparr>sv_pc := Pollin 0, sv_mgr := demo_mgr_at (se_events env 0)\<rparr>)"
    using assms(2) by (simp add: main_step_def demo_num) (simp add: demo_mgr_at_def)
qed

lemma demo_polled:
  assumes "cc_fd c = 20" and "se_poll env \<noteq> -1"
  shows "main_run 3 4 env 4 (demo_srv_with c) =
    Inr ((demo_srv_with c)\<lparr>sv_pc := Pollin 0, sv_mgr := demo_mgr_at (se_events env 0)\<rparr>)"
  using demo_pieces [OF assms] by (simp add: eval_nat_numeral)

lemma main_run_add: "main_run sfd pipe_fd env (m + n) s = and_then (main_run sfd pipe_fd env m s) (main_run sfd pipe_fd env n)"
  by (induction m arbitrary: s) (auto simp: and_then_def split: sum.split)

text \<open>The readable connection is served: one piece of the main thread after the other.\<close>

lemma demo_served:
  "main_step 3 4 demo_env (demo_srv\<lparr>sv_pc := Pollin 0, sv_mgr := demo_mgr_at POLLIN\<rparr>) =
    Inr (demo_srv_busy\<lparr>sv_pc := Hangup 0 (Addr 5)\<rparr>)"
  "main_step 3 4 demo_env (demo_srv_busy\<lparr>sv_pc := Hangup 0 (Addr 5)\<rparr>) = Inr (demo_srv_busy\<lparr>sv_pc := Pollout 0 (Addr 5)\<rparr>)"
  "main_step 3 4 demo_env (demo_srv_busy\<lparr>sv_pc := Pollout 0 (Addr 5)\<rparr>) = Inr (demo_srv_busy\<lparr>sv_pc := Pollin 1\<rparr>)"
  "main_step 3 4 demo_env (demo_srv_busy\<lparr>sv_pc := Pollin 1\<rparr>) = Inr demo_srv_busy"
proof -
  show "main_step 3 4 demo_env (demo_srv\<lparr>sv_pc := Pollin 0, sv_mgr := demo_mgr_at POLLIN\<rparr>) =
      Inr (demo_srv_busy\<lparr>sv_pc := Hangup 0 (Addr 5)\<rparr>)"
    by (simp add: main_step_def demo_num on_pollin_def ezarr_get_at_def goes_def demo_srv_busy_def submit_io_def
        lock_mutex_def demo_mgr_at_def demo_srv_def demo_srv_with_def demo_env_def POLLIN_def demo_inbound_def ctx_at_def)
  show "main_step 3 4 demo_env (demo_srv_busy\<lparr>sv_pc := Hangup 0 (Addr 5)\<rparr>) = Inr (demo_srv_busy\<lparr>sv_pc := Pollout 0 (Addr 5)\<rparr>)"
    by (simp add: main_step_def on_hangup_def goes_def demo_srv_busy_def demo_mgr_at_def POLLIN_def POLLHUP_def
        POLLERR_def POLLNVAL_def)
  show "main_step 3 4 demo_env (demo_srv_busy\<lparr>sv_pc := Pollout 0 (Addr 5)\<rparr>) = Inr (demo_srv_busy\<lparr>sv_pc := Pollin 1\<rparr>)"
    by (simp add: main_step_def on_pollout_def demo_srv_busy_def demo_mgr_at_def POLLIN_def POLLOUT_def)
  show "main_step 3 4 demo_env (demo_srv_busy\<lparr>sv_pc := Pollin 1\<rparr>) = Inr demo_srv_busy"
    by (simp add: main_step_def demo_srv_busy_def demo_num) (simp add: demo_srv_def demo_srv_with_def)
qed

lemma demo_run: "main_run 3 4 demo_env (4 + 4) demo_srv = Inr demo_srv_busy"
proof -
  have "main_run 3 4 demo_env 4 (demo_srv\<lparr>sv_pc := Pollin 0, sv_mgr := demo_mgr_at POLLIN\<rparr>) = Inr demo_srv_busy"
    using demo_served by (simp add: eval_nat_numeral)
  then show ?thesis
    using demo_polled [of "demo_inbound 6 20" demo_env]
    unfolding main_run_add by (simp add: demo_srv_def demo_env_def demo_inbound_def)
qed

text \<open>The other run: the peer hangs up instead.\<close>

definition demo_env_hup :: step_env where
  "demo_env_hup = demo_env\<lparr>se_events := (\<lambda>_. POLLHUP)\<rparr>"

definition demo_srv_hup :: server where
  "demo_srv_hup = demo_srv\<lparr>sv_pc := Sweep 0, sv_mgr := demo_mgr_at POLLHUP,
     sv_heap := put_ctx (sv_heap demo_srv) (Addr 5) ((demo_inbound 6 20)\<lparr>cc_state := PENDING_CLOSE\<rparr>)\<rparr>"

lemma demo_run_hup: "main_run 3 4 demo_env_hup (4 + 5) demo_srv = Inr demo_srv_hup"
proof -
  let ?step = "main_step 3 4 demo_env_hup" and ?s = "\<lambda>pc. demo_srv\<lparr>sv_pc := pc, sv_mgr := demo_mgr_at POLLHUP\<rparr>"
  have "?step (?s (Pollin 0)) = Inr (?s (Hangup 0 (Addr 5)))"
    by (simp add: main_step_def demo_num on_pollin_def ezarr_get_at_def goes_def demo_mgr_at_def POLLIN_def POLLHUP_def)
  moreover have "?step (?s (Hangup 0 (Addr 5))) = Inr (demo_srv_hup\<lparr>sv_pc := Pollout 0 (Addr 5)\<rparr>)"
    by (simp add: main_step_def on_hangup_def goes_def demo_srv_hup_def demo_mgr_at_def POLLHUP_def POLLERR_def
        POLLNVAL_def ctx_at_def lock_mutex_def demo_inbound_def demo_srv_def demo_srv_with_def demo_env_hup_def demo_env_def)
  moreover have "?step (demo_srv_hup\<lparr>sv_pc := Pollout 0 (Addr 5)\<rparr>) = Inr (demo_srv_hup\<lparr>sv_pc := Pollin 1\<rparr>)"
    by (simp add: main_step_def on_pollout_def demo_srv_hup_def demo_mgr_at_def POLLHUP_def POLLOUT_def)
  moreover have "?step (demo_srv_hup\<lparr>sv_pc := Pollin 1\<rparr>) = Inr (demo_srv_hup\<lparr>sv_pc := Loop_Test\<rparr>)"
    by (simp add: main_step_def demo_srv_hup_def demo_num)
  moreover have "?step (demo_srv_hup\<lparr>sv_pc := Loop_Test\<rparr>) = Inr demo_srv_hup"
    by (simp add: main_step_def demo_srv_hup_def) (simp add: demo_srv_def demo_srv_with_def)
  ultimately have "main_run 3 4 demo_env_hup 5 (?s (Pollin 0)) = Inr demo_srv_hup" by (simp add: eval_nat_numeral)
  then show ?thesis
    using demo_polled [of "demo_inbound 6 20" demo_env_hup]
    unfolding main_run_add by (simp add: demo_srv_def demo_env_def demo_env_hup_def demo_inbound_def)
qed

text \<open>An event on the internal connection: the main thread is about to lock its mutex.\<close>

definition demo_srv_internal :: server where
  "demo_srv_internal = (demo_srv_with demo_internal)\<lparr>sv_pc := Pollin 0, sv_mgr := demo_mgr_at POLLIN\<rparr>"

lemma demo_internal_reach: "srv_reach 3 4 {6, 7} demo_srv_internal"
proof (rule reach_run [OF _ demo_env_ok srv_reach_start [OF demo_start_internal]])
  show "main_run 3 4 demo_env 4 (demo_srv_with demo_internal) = Inr demo_srv_internal"
    using demo_polled [of demo_internal demo_env]
    by (simp add: demo_srv_internal_def demo_internal_def demo_inbound_def demo_env_def)
qed

lemma demo_busy_reach: "srv_reach 3 4 {} demo_srv_busy"
  by (rule reach_run [OF demo_run demo_env_ok srv_reach_start [OF demo_start]])

lemma demo_hup_reach: "srv_reach 3 4 {} demo_srv_hup"
  by (rule reach_run [OF demo_run_hup _ srv_reach_start [OF demo_start]])
    (use demo_env_ok in \<open>simp add: env_ok_def demo_env_hup_def\<close>)

subsection \<open>Properties\<close>

text \<open>
  C7: no use after free while the server serves. In every reachable state before the clean-up has
  destroyed the connections, whatever the order of the main thread's pieces, the tasks and the
  signal: the connection of every task that is queued or running is live with its mutex
  initialised, and the count of every live connection is the number of its tasks (and of the tasks
  that were counted and then not queued).
\<close>

theorem server_tasks_hold_live_connections:
  assumes "srv_reach sfd pipe_fd F s" and "serving (sv_pc s)"
  shows "(\<forall>(k, p) \<in> set (sv_tasks s). \<exists>a c. p = Addr a \<and> ch_conns (sv_heap s) a = Some c \<and> cc_mutex c = Val ()) \<and>
    (\<forall>a c. ch_conns (sv_heap s) a = Some c \<longrightarrow>
       cc_ref_count c = int (count_list (map snd (sv_tasks s) @ sv_lost s) (Addr a)))"
proof -
  have cnt: "counts (ch_conns (sv_heap s)) (map snd (sv_tasks s) @ sv_lost s)"
    using srv.reachable_inv [OF assms(1)] assms(2) by (simp add: srv_inv_def counted_def held_def)
  have "\<exists>a c. p = Addr a \<and> ch_conns (sv_heap s) a = Some c \<and> cc_mutex c = Val ()"
    if "(k, p) \<in> set (sv_tasks s)" for k p
  proof -
    have "p \<in> set (map snd (sv_tasks s) @ sv_lost s)" using that by force
    then show ?thesis using cnt ptr.exhaust [of p] unfolding counts_def by metis
  qed
  then show ?thesis using cnt unfolding counts_def by blast
qed

theorem server_tasks_hold_live_connections_witness:
  "\<exists>a c. Addr 5 = Addr a \<and> ch_conns (sv_heap demo_srv_busy) a = Some c \<and> cc_ref_count c = 1"
  using server_tasks_hold_live_connections [OF demo_busy_reach]
  by (auto simp: demo_srv_busy_def serving_def looping_def demo_srv_def demo_srv_with_def demo_inbound_def)

text \<open>
  C10: the main loop in every reachable state: a piece of it either succeeds or faults in one of
  two ways. An update after the arrays have grown reads cells that \<open>realloc\<close> left unwritten, or an
  event other than the expected ones on an internal connection locks a mutex that was never
  initialised. It never uses \<open>NULL\<close>, freed memory or an index out of bounds.
\<close>

theorem main_loop_faults:
  assumes "srv_reach sfd pipe_fd F s" and "looping (sv_pc s)" and "env_ok env"
    and "main_step sfd pipe_fd env s = Inl f"
  shows "f = Indet_Read \<and> sv_pc s = Update \<and> \<not> cm_clean (sv_mgr s) \<or>
    f = Uninit_Mutex \<and> (\<exists>a c. ch_conns (sv_heap s) a = Some c \<and> cc_type c = INTERNAL_CONN \<and> cc_mutex c = Indet)"
  using main_step_ok [OF srv.reachable_inv [OF assms(1)] assms(2,3), of sfd pipe_fd] assms(4)
  by (auto simp: main_ok_def no_mutex_def)

theorem main_loop_faults_witness:
  "main_step 3 4 demo_env demo_srv_internal = Inl Uninit_Mutex \<and> cc_type demo_internal = INTERNAL_CONN"
proof -
  have run: "main_step 3 4 demo_env demo_srv_internal = Inl Uninit_Mutex"
    by (simp add: demo_srv_internal_def main_step_def demo_num on_pollin_def ezarr_get_at_def demo_mgr_at_def
        demo_srv_with_def POLLIN_def ctx_at_def lock_mutex_def demo_internal_def demo_inbound_def)
  have "looping (sv_pc demo_srv_internal)" by (simp add: demo_srv_internal_def looping_def)
  from main_loop_faults [OF demo_internal_reach this demo_env_ok run] run show ?thesis
    by (auto simp: demo_srv_internal_def demo_srv_with_def split: if_splits)
qed

text \<open>
  C8: while the main loop runs (before the clean-up at the end of \<open>main\<close>, which destroys every
  connection), connections are closed only when they are idle: a step of any thread that makes a
  connection disappear is the main thread's sweep, the connection was inbound and
  \<open>PENDING_CLOSE\<close>, no task held it (nor was one lost: a connection whose submission failed is
  never closed before the end), and its descriptor is the one that was closed.
\<close>

theorem connections_close_only_when_idle:
  assumes "srv_reach sfd pipe_fd F s" and "looping (sv_pc s)" and "srv_step sfd pipe_fd s s'"
    and "ch_conns (sv_heap s) a = Some c" and "ch_conns (sv_heap s') a = None"
  shows "(\<exists>conn. sv_pc s = Sweep conn) \<and> cc_type c = INBOUND_CONN \<and> cc_state c = PENDING_CLOSE \<and>
    Addr a \<notin> set (map snd (sv_tasks s)) \<and> Addr a \<notin> set (sv_lost s) \<and>
    ch_closed (sv_heap s') = ch_closed (sv_heap s) @ [cc_fd c]"
proof -
  obtain xs where fit: "fit F xs s" and ah: "ahead (sv_pc s) xs"
    using srv.reachable_inv [OF assms(1)] assms(2) unfolding srv_inv_def by blast
  from assms(3) show ?thesis
  proof cases
    case (main env)
    then obtain conn where conn: "sv_pc s = Sweep conn"
      using main_keeps_conns [OF fit ah assms(2) main(2,1)] assms(4,5) unfolding grows_def by blast
    then have "NULL \<notin> set (drop conn xs)" using ah by (simp add: ahead_def)
    from sweep_closes [OF fit this conn main(1) assms(4,5)] show ?thesis
      using conn by (simp add: held_def)
  next
    case (worker us t vs io h')
    obtain k p where "t = (k, p)" by (cases t)
    then have "ch_conns h' a \<noteq> None"
      using run_task_result [of io "sv_stop s" k p "sv_heap s" h'] worker(3) assms(4) by (auto split: if_splits)
    then show ?thesis using worker(1) assms(5) by simp
  next
    case signal
    then show ?thesis using assms(4,5) by simp
  qed
qed

theorem connections_close_only_when_idle_witness:
  "\<exists>s'. srv_step 3 4 demo_srv_hup s' \<and> ch_closed (sv_heap s') = ch_closed (sv_heap demo_srv_hup) @ [20]"
proof -
  let ?c = "(demo_inbound 6 20)\<lparr>cc_state := PENDING_CLOSE\<rparr>"
  have c: "ch_conns (sv_heap demo_srv_hup) 5 = Some ?c" by (simp add: demo_srv_hup_def)
  have pc: "sv_pc demo_srv_hup = Sweep 0" by (simp add: demo_srv_hup_def)
  have "\<exists>s'. main_step 3 4 demo_env demo_srv_hup = Inr s' \<and> ch_conns (sv_heap s') 5 = None"
    by (simp add: main_step_def sweep_conn_def op_defs demo_srv_hup_def demo_mgr_at_def demo_srv_def demo_srv_with_def demo_inbound_def
        ctx_at_def lock_mutex_def demo_env_def destroy_mutex_def free_ctx_def mem_simps Let_def)
  then obtain s' where s': "srv_step 3 4 demo_srv_hup s'" "ch_conns (sv_heap s') 5 = None"
    using srv_step.main [OF _ demo_env_ok] by blast
  have "looping (sv_pc demo_srv_hup)" by (simp add: pc looping_def)
  from connections_close_only_when_idle [OF demo_hup_reach this s'(1) c s'(2)] s'(1) show ?thesis
    by (auto simp: demo_inbound_def)
qed

end
