(* ===== verification/Server_Pool.thy ===== *)
theory Server_Pool
  imports Server_Run Tpool_Contract
begin

text \<open>
  \<open>src/main.c\<close> on top of \<open>concurinc.c\<close>: the pieces of the main thread and the steps of the
  workers interleaved. The boss of the pool is the main thread. A piece that submits a task is
  spread over the steps of \<open>coin_tpool_submit\<close>: it holds its connection's mutex from before the call
  until the call has returned (\<open>sy_call\<close>), and its effect is that of the piece in \<open>main_step\<close> with what
  the call reported. A worker that runs a task waits for the mutex of the connection, then the
  task is one step. \<open>sy_task\<close> is what the task objects of the pool hold: function and argument.

  \<open>sv_tasks\<close> stays in the state to compare with the pool; the conditions of the steps look at it only
  to tell which pieces submit a task.
\<close>

record system =
  sy_srv :: server
  sy_pool :: tpool
  sy_task :: "nat \<Rightarrow> io_task \<times> ptr"
  sy_call :: "(nat \<times> ptr) option"

text \<open>The piece at the main thread's place submits the task \<open>x\<close>; or it submits none.\<close>

definition submits :: "int \<Rightarrow> int \<Rightarrow> step_env \<Rightarrow> server \<Rightarrow> io_task \<times> ptr \<Rightarrow> bool" where
  "submits sfd pipe_fd env s x =
     (case main_step sfd pipe_fd (env\<lparr>se_queued := True\<rparr>) s of
        Inl _ \<Rightarrow> False
      | Inr s' \<Rightarrow> sv_tasks s' = sv_tasks s @ [x])"

definition no_task :: "server \<Rightarrow> server \<Rightarrow> bool" where
  "no_task s s' \<longleftrightarrow> sv_tasks s' = sv_tasks s \<and> sv_lost s' = sv_lost s"

inductive sys_step :: "bool \<Rightarrow> int \<Rightarrow> int \<Rightarrow> system \<Rightarrow> system \<Rightarrow> bool" for flt sfd pipe_fd where
  piece: "sy_call y = None \<Longrightarrow> boss (sy_pool y) \<in> {B_Idle, B_Joined} \<Longrightarrow>
    sv_pc (sy_srv y) \<notin> {Wait_Pool, Destroy_Tpool} \<Longrightarrow>
    main_step sfd pipe_fd env (sy_srv y) = Inr s' \<Longrightarrow> env_ok env \<Longrightarrow> no_task (sy_srv y) s' \<Longrightarrow>
    sys_step flt sfd pipe_fd y (y\<lparr>sy_srv := s'\<rparr>)"
| no_object: "sy_call y = None \<Longrightarrow> boss (sy_pool y) = B_Idle \<Longrightarrow> submits sfd pipe_fd env (sy_srv y) x \<Longrightarrow>
    \<not> se_queued env \<Longrightarrow> main_step sfd pipe_fd env (sy_srv y) = Inr s' \<Longrightarrow> env_ok env \<Longrightarrow>
    sys_step flt sfd pipe_fd y (y\<lparr>sy_srv := s'\<rparr>)"
| submit: "sy_call y = None \<Longrightarrow> boss (sy_pool y) = B_Idle \<Longrightarrow> submits sfd pipe_fd env (sy_srv y) (k, p) \<Longrightarrow>
    t \<notin> set (submitted (sy_pool y)) \<Longrightarrow>
    sys_step flt sfd pipe_fd y
      (y\<lparr>sy_pool := (sy_pool y)\<lparr>boss := B_Submit t\<rparr>, sy_task := (sy_task y)(t := (k, p)), sy_call := Some (t, p)\<rparr>)"
| submitted: "sy_call y = Some (t, p) \<Longrightarrow> boss (sy_pool y) = B_Idle \<Longrightarrow>
    submits sfd pipe_fd env (sy_srv y) (sy_task y t) \<Longrightarrow> se_queued env = (t \<in> set (submitted (sy_pool y))) \<Longrightarrow>
    main_step sfd pipe_fd env (sy_srv y) = Inr s' \<Longrightarrow> env_ok env \<Longrightarrow>
    sys_step flt sfd pipe_fd y (y\<lparr>sy_srv := s', sy_call := None\<rparr>)"
| pool: "inner_step flt (sy_pool y) u \<Longrightarrow> sys_step flt sfd pipe_fd y (y\<lparr>sy_pool := u\<rparr>)"
| run: "at (sy_pool y) i (W_Run t) \<Longrightarrow> (\<And>t' p. sy_call y = Some (t', p) \<Longrightarrow> p \<noteq> snd (sy_task y t)) \<Longrightarrow>
    run_task io (sv_stop (sy_srv y)) (sy_task y t) (sv_heap (sy_srv y)) = Inr h \<Longrightarrow>
    sys_step flt sfd pipe_fd y
      (y\<lparr>sy_srv := (sy_srv y)\<lparr>sv_heap := h, sv_tasks := remove1 (sy_task y t) (sv_tasks (sy_srv y))\<rparr>,
         sy_pool := goto i W_Ran ((sy_pool y)\<lparr>ran := ran (sy_pool y) @ [t]\<rparr>)\<rparr>)"
| stop: "sys_step flt sfd pipe_fd y (y\<lparr>sy_srv := (sy_srv y)\<lparr>sv_stop := True\<rparr>\<rparr>)"
| wait: "sy_call y = None \<Longrightarrow> sv_pc (sy_srv y) = Wait_Pool \<Longrightarrow> boss (sy_pool y) = B_Idle \<Longrightarrow>
    sys_step flt sfd pipe_fd y (y\<lparr>sy_pool := (sy_pool y)\<lparr>boss := B_Wait\<rparr>\<rparr>)"
| waited: "sy_call y = None \<Longrightarrow> sv_pc (sy_srv y) = Wait_Pool \<Longrightarrow> boss (sy_pool y) = B_Returned r \<Longrightarrow>
    main_step sfd pipe_fd env (sy_srv y) = Inr s' \<Longrightarrow> env_ok env \<Longrightarrow>
    sys_step flt sfd pipe_fd y (y\<lparr>sy_srv := s', sy_pool := (sy_pool y)\<lparr>boss := B_Idle\<rparr>\<rparr>)"
| destroy: "sy_call y = None \<Longrightarrow> sv_pc (sy_srv y) = Destroy_Tpool \<Longrightarrow> boss (sy_pool y) = B_Idle \<Longrightarrow>
    queue_owner (sy_pool y) = None \<Longrightarrow>
    sys_step flt sfd pipe_fd y (y\<lparr>sy_pool := (sy_pool y)\<lparr>boss := B_Stop, queue_owner := Some Boss\<rparr>\<rparr>)"
| destroyed: "sy_call y = None \<Longrightarrow> sv_pc (sy_srv y) = Destroy_Tpool \<Longrightarrow> boss (sy_pool y) = B_Joined \<Longrightarrow>
    main_step sfd pipe_fd env (sy_srv y) = Inr s' \<Longrightarrow> env_ok env \<Longrightarrow> se_joined env \<Longrightarrow>
    sys_step flt sfd pipe_fd y (y\<lparr>sy_srv := s'\<rparr>)"
| not_destroyed: "flt \<Longrightarrow> sy_call y = None \<Longrightarrow> sv_pc (sy_srv y) = Destroy_Tpool \<Longrightarrow> boss (sy_pool y) = B_Idle \<Longrightarrow>
    main_step sfd pipe_fd env (sy_srv y) = Inr s' \<Longrightarrow> env_ok env \<Longrightarrow> \<not> se_joined env \<Longrightarrow>
    sys_step flt sfd pipe_fd y (y\<lparr>sy_srv := s'\<rparr>)"

text \<open>The server at the first test of its loop, with a new pool of \<open>n\<close> workers.\<close>

definition sys_start :: "nat \<Rightarrow> nat set \<Rightarrow> system \<Rightarrow> bool" where
  "sys_start n F y \<longleftrightarrow> srv_start F (sy_srv y) \<and> sy_pool y = tp_init n \<and> sy_call y = None"

lemma ctx_at_Inr: "ctx_at h p = Inr c \<longleftrightarrow> (\<exists>a. p = Addr a \<and> ch_conns h a = Some c)"
  by (cases p) (auto simp: ctx_at_def split: option.splits)

lemma lock_mutex_Inr: "lock_mutex mx = Inr u \<longleftrightarrow> mx = Val ()"
  by (auto simp: lock_mutex_def split: cell.splits)

text \<open>Only two pieces submit a task, for a connection that is live and locked.\<close>

lemma on_pollin_tasks:
  assumes "on_pollin sfd pipe_fd (env\<lparr>se_queued := b\<rparr>) conn s = Inr (f, p, s')"
  shows "sv_tasks s' = sv_tasks s \<or>
    (\<exists>c. ctx_at (sv_heap s) p = Inr c \<and> lock_mutex (cc_mutex c) = Inr () \<and>
       s' = submit_io (env\<lparr>se_queued := b\<rparr>) Read_Task p c s \<and>
       on_pollin sfd pipe_fd env conn s = Inr (f, p, submit_io env Read_Task p c s))"
proof -
  obtain err q where out: "ezarr_get_at (deref (mgr_conns (sv_mgr s))) (of_nat conn) (Some NULL) = Inr (err, q)"
    using assms by (auto simp: on_pollin_def Let_def and_then_eq_Inr)
  show ?thesis
  proof (cases "err = 0 \<and> q = Some p")
    case False
    then show ?thesis
      using assms out by (auto simp: on_pollin_def Let_def and_then_eq_Inr split: option.splits if_splits prod.splits)
  next
    case True
    obtain pf where pf: "load (mgr_pfds (sv_mgr s)) conn = Inr pf"
      using True assms out by (auto simp: on_pollin_def Let_def and_then_eq_Inr split: option.splits if_splits prod.splits)
    show ?thesis
    proof (cases "pf_revents pf AND POLLIN = 0 \<or> sfd = pf_fd pf")
      case plain: True
      then show ?thesis
        using True assms out pf
        by (auto simp: on_pollin_def Let_def and_then_eq_Inr split: option.splits if_splits prod.splits)
    next
      case False
      then obtain c where c: "ctx_at (sv_heap s) p = Inr c"
        using True assms out pf by (cases "ctx_at (sv_heap s) p") (auto simp: on_pollin_def Let_def)
      show ?thesis
      proof (cases "cc_fd c = pipe_fd \<or> se_lock env \<noteq> 0")
        case plain: True
        then show ?thesis
          using True False assms out pf c
          by (auto simp: on_pollin_def Let_def and_then_eq_Inr split: option.splits if_splits prod.splits)
      next
        case submit: False
        then show ?thesis
          using True False assms out pf c
          by (cases "lock_mutex (cc_mutex c)") (auto simp: on_pollin_def Let_def)
      qed
    qed
  qed
qed

lemma on_pollout_tasks:
  assumes "on_pollout (env\<lparr>se_queued := b\<rparr>) conn p s = Inr s'"
  shows "sv_tasks s' = sv_tasks s \<or>
    (\<exists>c. ctx_at (sv_heap s) p = Inr c \<and> lock_mutex (cc_mutex c) = Inr () \<and>
       s' = submit_io (env\<lparr>se_queued := b\<rparr>) Send_Task p c s \<and>
       on_pollout env conn p s = Inr (submit_io env Send_Task p c s))"
proof -
  obtain pf where pf: "load (mgr_pfds (sv_mgr s)) conn = Inr pf"
    using assms by (auto simp: on_pollout_def and_then_eq_Inr)
  show ?thesis
  proof (cases "pf_revents pf AND POLLOUT = 0")
    case True
    then show ?thesis
      using assms pf by (simp add: on_pollout_def)
  next
    case False
    then obtain c where c: "ctx_at (sv_heap s) p = Inr c"
      using assms pf by (cases "ctx_at (sv_heap s) p") (auto simp: on_pollout_def)
    then show ?thesis
      using False assms pf
      by (cases "lock_mutex (cc_mutex c)"; cases "se_lock env = 0") (auto simp: on_pollout_def)
  qed
qed

lemma sweep_conn_tasks: "sweep_conn env conn s = Inr (go, s') \<Longrightarrow> sv_tasks s' = sv_tasks s"
  by (auto simp: sweep_conn_def and_then_eq_Inr Let_def split: option.splits if_splits prod.splits)

lemma on_hangup_tasks: "on_hangup env conn p s = Inr (f, s') \<Longrightarrow> sv_tasks s' = sv_tasks s"
  by (auto simp: on_hangup_def and_then_eq_Inr split: if_splits)

lemma submitsE:
  assumes "submits sfd pipe_fd env s x"
  obtains k p c pc where "x = (k, p)" "ctx_at (sv_heap s) p = Inr c" "lock_mutex (cc_mutex c) = Inr ()"
    "main_step sfd pipe_fd env s = Inr ((submit_io env k p c s)\<lparr>sv_pc := pc\<rparr>)"
proof -
  obtain s1 where s1: "main_step sfd pipe_fd (env\<lparr>se_queued := True\<rparr>) s = Inr s1" "sv_tasks s1 = sv_tasks s @ [x]"
    using assms by (auto simp: submits_def split: sum.splits)
  show ?thesis
  proof (cases "sv_pc s")
    case (Pollin conn)
    then obtain f p s2 where r: "on_pollin sfd pipe_fd (env\<lparr>se_queued := True\<rparr>) conn s = Inr (f, p, s2)"
        "s1 = s2\<lparr>sv_pc := goes (Hangup conn p) f\<rparr>" "conn < unat (mgr_num_active (sv_mgr s))"
      using s1 by (auto simp: main_step_def and_then_eq_Inr split: if_splits)
    then obtain c where "ctx_at (sv_heap s) p = Inr c" "lock_mutex (cc_mutex c) = Inr ()" "x = (Read_Task, p)"
        "on_pollin sfd pipe_fd env conn s = Inr (f, p, submit_io env Read_Task p c s)"
      using on_pollin_tasks [OF r(1)] s1(2) by (auto simp: submit_io_def)
    then show ?thesis
      using that Pollin r(3) by (simp add: main_step_def)
  next
    case (Pollout conn p)
    then obtain s2 where r: "on_pollout (env\<lparr>se_queued := True\<rparr>) conn p s = Inr s2" "s1 = s2\<lparr>sv_pc := Pollin (Suc conn)\<rparr>"
      using s1 by (auto simp: main_step_def and_then_eq_Inr split: if_splits)
    then obtain c where "ctx_at (sv_heap s) p = Inr c" "lock_mutex (cc_mutex c) = Inr ()" "x = (Send_Task, p)"
        "on_pollout env conn p s = Inr (submit_io env Send_Task p c s)"
      using on_pollout_tasks [OF r(1)] s1(2) by (auto simp: submit_io_def)
    then show ?thesis
      using that Pollout by (simp add: main_step_def)
  qed (use s1 sweep_conn_tasks on_hangup_tasks in \<open>fastforce simp: main_step_def and_then_eq_Inr split: if_splits option.splits\<close>)+
qed

abbreviation sys_reach :: "bool \<Rightarrow> nat \<Rightarrow> int \<Rightarrow> int \<Rightarrow> nat set \<Rightarrow> system \<Rightarrow> bool" where
  "sys_reach flt n sfd pipe_fd F \<equiv> reachable (sys_start n F) (sys_step flt sfd pipe_fd)"

subsection \<open>The pool\<close>

interpretation to_pool: projection "sys_start n F" "sys_step flt sfd pipe_fd" "\<lambda>s. s = tp_init n" "tp_step flt" sy_pool
  for n F flt sfd pipe_fd
proof
  show "tp_step flt (sy_pool y) (sy_pool y') \<or> sy_pool y' = sy_pool y" if "sys_step flt sfd pipe_fd y y'" for y y'
    using that by cases (auto simp: inner_step_def intro: tp_step.b_submit tp_step.w_run tp_step.b_wait tp_step.b_return tp_step.b_stop_lock)
qed (simp add: sys_start_def)

subsection \<open>The tasks of the server are those of the pool\<close>

definition live_conn :: "server \<Rightarrow> ptr \<Rightarrow> bool" where
  "live_conn s p \<longleftrightarrow> (\<exists>a c. p = Addr a \<and> ch_conns (sv_heap s) a = Some c \<and> cc_mutex c = Val ())"

text \<open>The task whose submission has put it into the queue and has not returned yet.\<close>

definition in_call :: "system \<Rightarrow> (io_task \<times> ptr) multiset" where
  "in_call y = (case sy_call y of
       None \<Rightarrow> {#}
     | Some (t, p) \<Rightarrow> if t \<in> set (submitted (sy_pool y)) then {#sy_task y t#} else {#})"

lemma in_call_None [simp]: "sy_call y = None \<Longrightarrow> in_call y = {#}"
  by (simp add: in_call_def)

definition same_tasks :: "system \<Rightarrow> bool" where
  "same_tasks y \<longleftrightarrow> boss (sy_pool y) \<noteq> B_Joined \<longrightarrow>
     image_mset (sy_task y) (pending (sy_pool y)) = mset (sv_tasks (sy_srv y)) + in_call y"

definition call_ok :: "system \<Rightarrow> bool" where
  "call_ok y \<longleftrightarrow>
     (\<forall>t. boss (sy_pool y) = B_Submit t \<or> boss (sy_pool y) = B_Push t \<longrightarrow> (\<exists>p. sy_call y = Some (t, p))) \<and>
     (\<forall>t p. sy_call y = Some (t, p) \<longrightarrow> snd (sy_task y t) = p \<and> live_conn (sy_srv y) p)"

lemma live_conn_stop [simp]: "live_conn (s\<lparr>sv_stop := b\<rparr>) p = live_conn s p"
  by (simp add: live_conn_def)

lemma submits_live: "submits sfd pipe_fd env s (k, p) \<Longrightarrow> live_conn s p"
  by (erule submitsE) (auto simp: live_conn_def ctx_at_Inr lock_mutex_Inr)

lemma submits_tasks:
  assumes "submits sfd pipe_fd env s x" and "main_step sfd pipe_fd env s = Inr s'"
  shows "sv_tasks s' = (if se_queued env then sv_tasks s @ [x] else sv_tasks s)"
  using assms(2) by (rule_tac submitsE [OF assms(1)]) (auto simp: submit_io_def)

text \<open>A task keeps every connection, with its mutex.\<close>

lemma task_keeps_live:
  assumes "run_task io stop x (sv_heap s) = Inr h" and "live_conn s p"
  shows "live_conn (s\<lparr>sv_heap := h, sv_tasks := ts\<rparr>) p"
proof -
  obtain k q where x: "x = (k, q)" by (cases x)
  then obtain a c c' where r: "q = Addr a" "ch_conns (sv_heap s) a = Some c" "keeps_conn c c'"
    "h = put_ctx (sv_heap s) q (c'\<lparr>cc_ref_count := cc_ref_count c - 1\<rparr>)"
    using run_task_result [of io stop k q "sv_heap s" h] assms(1) by blast
  then show ?thesis
    using assms(2) by (auto simp: live_conn_def put_ctx_def keeps_conn_def)
qed

text \<open>The places of the boss inside \<open>coin_tpool_submit\<close>.\<close>

lemma boss_steps:
  assumes "tp_step flt s u"
  shows "boss u = B_Submit t \<Longrightarrow> boss s \<in> {B_Idle, B_Submit t}" and "boss u = B_Push t \<Longrightarrow> boss s \<in> {B_Submit t, B_Push t}"
    and "boss s = B_Joined \<Longrightarrow> boss u = B_Joined" and "submitted u = submitted s @ [t] \<Longrightarrow> boss s = B_Push t"
  using assms by (cases; auto simp: wake_boss_def wake_all_def Let_def signalled_def split: if_splits)+

lemma call_ok_step:
  assumes "call_ok y" and "sys_step flt sfd pipe_fd y y'"
  shows "call_ok y'"
  using assms(2)
proof cases
  case (submit env k p t)
  then show ?thesis
    using submits_live by (simp add: call_ok_def live_conn_def)
next
  case (pool u)
  then show ?thesis
    using assms(1) boss_steps [of flt "sy_pool y" u] by (auto simp: call_ok_def inner_step_def)
next
  case (run i t io h)
  then show ?thesis
    using assms(1) task_keeps_live [OF run(4)] by (auto simp: call_ok_def)
qed (use assms(1) in \<open>auto simp: call_ok_def\<close>)

lemma same_tasks_run:
  assumes r: "sys_reach flt n sfd pipe_fd F y" and ok: "same_tasks y" "call_ok y" and t: "at (sy_pool y) i (W_Run t)"
    and free: "\<And>t' p. sy_call y = Some (t', p) \<Longrightarrow> p \<noteq> snd (sy_task y t)"
  shows "sy_task y t \<in> set (sv_tasks (sy_srv y))" (is ?mem)
    and "image_mset (sy_task y) (pending (goto i W_Ran ((sy_pool y)\<lparr>ran := ran (sy_pool y) @ [t]\<rparr>))) =
      mset (remove1 (sy_task y t) (sv_tasks (sy_srv y))) + in_call y" (is ?eq)
proof -
  have reach: "reach flt n (sy_pool y)"
    by (rule to_pool.projects [OF r])
  have "tp_step flt (sy_pool y) (goto i W_Ran ((sy_pool y)\<lparr>ran := ran (sy_pool y) @ [t]\<rparr>))"
    by (rule tp_step.w_run [OF t])
  from contract.runs [OF reach this] have p:
    "pending (sy_pool y) = add_mset t (pending (goto i W_Ran ((sy_pool y)\<lparr>ran := ran (sy_pool y) @ [t]\<rparr>)))"
    by simp
  have e: "image_mset (sy_task y) (pending (sy_pool y)) = mset (sv_tasks (sy_srv y)) + in_call y"
    using ok(1) joined_no_run [OF reach] t by (auto simp: same_tasks_def)
  have out: "sy_task y t \<notin># in_call y"
    using free ok(2) by (auto simp: in_call_def call_ok_def split: option.splits)
  have "sy_task y t \<in># mset (sv_tasks (sy_srv y)) + in_call y"
    unfolding e [symmetric] p by simp
  with out show m: ?mem
    by simp
  show ?eq
    using e insert_DiffM [of "sy_task y t" "mset (sv_tasks (sy_srv y))"] m unfolding p
    by (metis add_mset_add_mset_same_iff image_mset_add_mset mset_remove1 set_mset_mset union_mset_add_mset_left)
qed

lemma same_tasks_pool:
  assumes r: "sys_reach flt n sfd pipe_fd F y" and ok: "same_tasks y" "call_ok y"
    and inner: "inner_step flt (sy_pool y) u"
  shows "same_tasks (y\<lparr>sy_pool := u\<rparr>)"
proof -
  have step: "tp_step flt (sy_pool y) u" "ran u = ran (sy_pool y)"
    using inner by (simp_all add: inner_step_def)
  have reach: "reach flt n (sy_pool y)"
    by (rule to_pool.projects [OF r])
  consider "submitted u = submitted (sy_pool y)" | t where "submitted u = submitted (sy_pool y) @ [t]"
    using contract.grows [OF step(1)] by blast
  then show ?thesis
  proof cases
    case 1
    then have "pending u = pending (sy_pool y)" "in_call (y\<lparr>sy_pool := u\<rparr>) = in_call y"
      using contract.idle [OF reach step(1) 1 step(2)] by (simp_all add: in_call_def split: option.splits)
    then show ?thesis
      using ok(1) boss_steps(3) [OF step(1)] by (auto simp: same_tasks_def)
  next
    case 2
    then have b: "boss (sy_pool y) = B_Push t"
      by (rule boss_steps(4) [OF step(1)])
    then obtain p where p: "sy_call y = Some (t, p)"
      using ok(2) by (auto simp: call_ok_def)
    have "pending u = add_mset t (pending (sy_pool y))" "t \<notin> set (submitted (sy_pool y))"
      using contract.accepts [OF reach step(1) 2] by blast+
    then show ?thesis
      using ok(1) b p 2 by (simp add: same_tasks_def in_call_def)
  qed
qed

lemma same_tasks_step:
  assumes r: "sys_reach flt n sfd pipe_fd F y" and ok: "same_tasks y" "call_ok y" and step: "sys_step flt sfd pipe_fd y y'"
  shows "same_tasks y'"
  using step
proof cases
  case (submit env k p t)
  have "image_mset ((sy_task y)(t := (k, p))) (pending (sy_pool y)) = image_mset (sy_task y) (pending (sy_pool y))"
    using contract.pending_submitted [OF to_pool.projects [OF r]] submit(5) by (intro image_mset_cong) auto
  moreover have "pending (sy_pool y\<lparr>boss := B_Submit t\<rparr>) = pending (sy_pool y)"
    by (simp add: pending_def)
  ultimately show ?thesis
    using submit ok(1) by (simp add: same_tasks_def in_call_def)
next
  case (submitted t p env s')
  then show ?thesis
    using ok(1) submits_tasks [OF submitted(4,6)] by (auto simp: same_tasks_def in_call_def)
next
  case (pool u)
  then show ?thesis
    using same_tasks_pool [OF r ok] by simp
next
  case (run i t io h)
  then have "in_call y' = in_call y"
    by (simp add: in_call_def split: option.splits)
  then show ?thesis
    using run(1) same_tasks_run(2) [OF r ok run(2,3)] by (simp add: same_tasks_def)
next
  case (no_object env x s')
  then show ?thesis
    using ok(1) submits_tasks [OF no_object(4,6)] by (simp add: same_tasks_def)
next
  case stop
  then have "in_call y' = in_call y"
    by (simp add: in_call_def split: option.splits)
  then show ?thesis
    using ok(1) stop by (simp add: same_tasks_def)
qed (use ok(1) in \<open>auto simp: same_tasks_def no_task_def main_step_def pending_def in_call_def\<close>)

text \<open>The pool is stopped only after the main thread has finished its clean-up of the connections.\<close>

abbreviation stopping_places :: "bpc set" where
  "stopping_places \<equiv> {B_Stop, B_Stopping, B_Join, B_Joined}"

definition stops_late :: "system \<Rightarrow> bool" where
  "stops_late y \<longleftrightarrow> boss (sy_pool y) \<in> stopping_places \<longrightarrow> \<not> serving (sv_pc (sy_srv y))"

lemma boss_stops:
  assumes "tp_step flt s u" and "boss u \<in> stopping_places"
  shows "boss s \<in> insert B_Idle stopping_places"
  using assms by cases (auto simp: wake_boss_def wake_all_def Let_def signalled_def split: if_splits)

lemma main_step_late:
  "main_step sfd pipe_fd env s = Inr s' \<Longrightarrow> \<not> serving (sv_pc s) \<Longrightarrow> \<not> serving (sv_pc s')"
  by (auto simp: looping_def serving_def main_step_def and_then_eq_Inr split: option.splits)

lemma stops_late_step:
  assumes "stops_late y" and "sys_step flt sfd pipe_fd y y'"
  shows "stops_late y'"
  using assms(2)
proof cases
  case (pool u)
  then show ?thesis
    using assms(1) boss_stops [of flt "sy_pool y" u] by (auto simp: stops_late_def inner_step_def)
next
  case (piece env s')
  then show ?thesis
    using assms(1) main_step_late [OF piece(5)] by (auto simp: stops_late_def)
next
  case (destroyed env s')
  then show ?thesis
    using assms(1) main_step_late [OF destroyed(5)] by (simp add: stops_late_def)
qed (use assms(1) in \<open>auto simp: stops_late_def serving_def looping_def\<close>)

interpretation sys: step_invariant "sys_start n F" "sys_step flt sfd pipe_fd" "\<lambda>y. same_tasks y \<and> call_ok y \<and> stops_late y"
  for n F flt sfd pipe_fd
proof
  have "total held (tp_init n) = {#}" "work_queue (tp_init n) = []"
    using init_ok(3) [of n] by (simp_all add: tasks_ok_def tp_init_def)
  then show "same_tasks y \<and> call_ok y \<and> stops_late y" if "sys_start n F y" for y
    using that by (simp add: sys_start_def srv_start_def same_tasks_def call_ok_def stops_late_def pending_def) (simp add: tp_init_def)
qed (blast intro: same_tasks_step call_ok_step stops_late_step)

subsection \<open>The server\<close>

text \<open>
  Every step of the interleaved system is a step of the server over the contract of the pool, or
  invisible to it: a task that a worker runs is one of those that the server has outstanding.
\<close>

lemma run_is_worker:
  assumes "x \<in> set (sv_tasks s)" and "run_task io (sv_stop s) x (sv_heap s) = Inr h"
  shows "srv_step sfd pipe_fd s (s\<lparr>sv_heap := h, sv_tasks := remove1 x (sv_tasks s)\<rparr>)"
proof -
  obtain us vs where "sv_tasks s = us @ x # vs" "x \<notin> set us"
    using split_list_first [OF assms(1)] by blast
  then show ?thesis
    using srv_step.worker [of s us x vs io h] assms(2) by (simp add: remove1_append)
qed

interpretation to_server: projection "sys_start n F" "sys_step flt sfd pipe_fd" "srv_start F" "srv_step sfd pipe_fd" sy_srv
  for n F flt sfd pipe_fd
proof
  show "srv_step sfd pipe_fd (sy_srv y) (sy_srv y') \<or> sy_srv y' = sy_srv y"
    if r: "sys_reach flt n sfd pipe_fd F y" and step: "sys_step flt sfd pipe_fd y y'" for y y'
    using step
  proof cases
    case (run i t io h)
    then show ?thesis
      using run_is_worker [OF same_tasks_run(1) [OF r _ _ run(2,3)]] sys.reachable_inv [OF r] by simp
  qed (auto intro: srv_step.main srv_step.signal)
qed (simp add: sys_start_def)

end
