(* ===== verification/Server_Pool_Run.thy ===== *)
theory Server_Pool_Run
  imports Server_Pool Tpool_Demo
begin

text \<open>
  The threads of the server together: what the reachable states of \<open>Server_Pool\<close> inherit from the
  server over the contract of the pool, and a run of the detailed system in which the shutdown
  frees a connection that a worker is about to use.
\<close>

subsection \<open>Steps that lead on\<close>

lemma sys_piece:
  assumes "sys_reach flt n sfd pipe_fd F y" and "main_step sfd pipe_fd env (sy_srv y) = Inr s'" and "env_ok env"
    and "sy_call y = None" and "boss (sy_pool y) = B_Idle" and "sv_pc (sy_srv y) \<notin> {Wait_Pool, Destroy_Tpool}"
    and "no_task (sy_srv y) s'"
  shows "sys_reach flt n sfd pipe_fd F (y\<lparr>sy_srv := s'\<rparr>)"
  by (rule reachable.step [OF assms(1)], rule sys_step.piece [OF assms(4) _ assms(6,2,3,7)]) (simp add: assms(5))

lemma sys_inner:
  assumes "inner_steps flt u v" and "sys_reach flt n sfd pipe_fd F y" and "sy_pool y = u"
  shows "sys_reach flt n sfd pipe_fd F (y\<lparr>sy_pool := v\<rparr>)"
  using assms
proof (induction rule: rtranclp_induct)
  case base
  then show ?case
    by (cases y) simp
next
  case (step v w)
  then have "sys_step flt sfd pipe_fd (y\<lparr>sy_pool := v\<rparr>) (y\<lparr>sy_pool := v\<rparr>\<lparr>sy_pool := w\<rparr>)"
    by (intro sys_step.pool) simp
  with step show ?case
    using reachable.step by fastforce
qed

subsection \<open>A run with one worker and one connection\<close>

definition demo_sys :: "server \<Rightarrow> tpool \<Rightarrow> (nat \<times> ptr) option \<Rightarrow> system" where
  "demo_sys s u c = \<lparr>sy_srv = s, sy_pool = u, sy_task = (\<lambda>_. (Read_Task, Addr 5)), sy_call = c\<rparr>"

lemma demo_sys_simps [simp]:
  "sy_srv (demo_sys s u c) = s" "sy_pool (demo_sys s u c) = u" "sy_call (demo_sys s u c) = c"
  "sy_task (demo_sys s u c) t = (Read_Task, Addr 5)"
  "(demo_sys s u c)\<lparr>sy_srv := s'\<rparr> = demo_sys s' u c" "(demo_sys s u c)\<lparr>sy_pool := u'\<rparr> = demo_sys s u' c"
  by (simp_all add: demo_sys_def)

abbreviation demo_reach :: "system \<Rightarrow> bool" where
  "demo_reach \<equiv> sys_reach False 1 3 4 {}"

lemma demo_piece:
  assumes "demo_reach (demo_sys s u None)" and "main_step 3 4 demo_env s = Inr s'" and "boss u = B_Idle"
    and "sv_pc s \<notin> {Wait_Pool, Destroy_Tpool}" and "sv_tasks s' = sv_tasks s" and "sv_lost s' = sv_lost s"
  shows "demo_reach (demo_sys s' u None)"
  using sys_piece [OF assms(1) _ demo_env_ok] assms(2-6) by (simp add: no_task_def)

lemma demo_inner: "inner_steps False u v \<Longrightarrow> demo_reach (demo_sys s u c) \<Longrightarrow> demo_reach (demo_sys s v c)"
  using sys_inner [where y = "demo_sys s u c"] by simp

lemma demo_polling: "demo_reach (demo_sys (demo_srv\<lparr>sv_pc := Pollin 0, sv_mgr := demo_mgr_at POLLIN\<rparr>) (tp_init 1) None)"
proof -
  have fd: "cc_fd (demo_inbound 6 20) = 20" "se_poll demo_env \<noteq> -1" "se_events demo_env 0 = POLLIN"
    by (simp_all add: demo_inbound_def demo_env_def)
  note pieces = demo_pieces [OF fd(1,2), folded demo_srv_def]
  have idle: "boss (tp_init 1) = B_Idle" and pc: "sv_pc demo_srv = Loop_Test"
    by (simp_all add: tp_init_def demo_srv_def demo_srv_with_def)
  have "demo_reach (demo_sys demo_srv (tp_init 1) None)"
    by (rule reachable.start) (simp add: sys_start_def demo_start)
  from demo_piece [OF this pieces(1) idle]
  have "demo_reach (demo_sys (demo_srv\<lparr>sv_pc := Sweep 0\<rparr>) (tp_init 1) None)"
    by (simp add: pc)
  from demo_piece [OF this pieces(2) idle]
  have "demo_reach (demo_sys (demo_srv\<lparr>sv_pc := Update\<rparr>) (tp_init 1) None)"
    by simp
  from demo_piece [OF this pieces(3) idle]
  have "demo_reach (demo_sys (demo_srv\<lparr>sv_pc := Poll, sv_mgr := demo_mgr_at 0\<rparr>) (tp_init 1) None)"
    by simp
  from demo_piece [OF this pieces(4) idle] show ?thesis
    by (simp add: fd(3))
qed

lemma demo_submits:
  "submits 3 4 demo_env (demo_srv\<lparr>sv_pc := Pollin 0, sv_mgr := demo_mgr_at POLLIN\<rparr>) (Read_Task, Addr 5)"
proof -
  have "demo_env\<lparr>se_queued := True\<rparr> = demo_env"
    by (simp add: demo_env_def)
  then show ?thesis
    using demo_served(1) by (simp add: submits_def) (simp add: demo_srv_busy_def demo_srv_def demo_srv_with_def)
qed

text \<open>The task is submitted, and the main thread goes on.\<close>

lemma demo_submitted: "demo_reach (demo_sys (demo_srv_busy\<lparr>sv_pc := Hangup 0 (Addr 5)\<rparr>) demo_queued None)"
proof -
  let ?s = "demo_srv\<lparr>sv_pc := Pollin 0, sv_mgr := demo_mgr_at POLLIN\<rparr>"
  have "sys_step False 3 4 (demo_sys ?s (tp_init 1) None) (demo_sys ?s (tp_init 1 \<lparr>boss := B_Submit 7\<rparr>) (Some (7, Addr 5)))"
    using sys_step.submit [of "demo_sys ?s (tp_init 1) None" 3 4 demo_env Read_Task "Addr 5" 7 False] demo_submits
    by (simp add: tp_init_def) (simp add: demo_sys_def fun_upd_def)
  then have "demo_reach (demo_sys ?s demo_queued (Some (7, Addr 5)))"
    by (intro demo_inner [OF demo_submit] reachable.step [OF demo_polling])
  moreover have "sys_step False 3 4 (demo_sys ?s demo_queued (Some (7, Addr 5)))
      (demo_sys (demo_srv_busy\<lparr>sv_pc := Hangup 0 (Addr 5)\<rparr>) demo_queued None)"
    using sys_step.submitted [of "demo_sys ?s demo_queued (Some (7, Addr 5))" 7 "Addr 5" 3 4 demo_env _ False,
        OF _ _ _ _ _ demo_env_ok] demo_submits demo_served(1)
    by (simp add: demo_queued_def tp_init_def) (simp add: demo_sys_def demo_env_def)
  ultimately show ?thesis
    by (rule reachable.step)
qed

text \<open>The worker takes the task, the loop starts again.\<close>

lemma demo_sys_busy: "demo_reach (demo_sys demo_srv_busy demo_taken None)"
proof -
  have idle: "boss demo_queued = B_Idle"
    by (simp add: demo_queued_def tp_init_def)
  from demo_piece [OF demo_submitted demo_served(2) idle]
  have "demo_reach (demo_sys (demo_srv_busy\<lparr>sv_pc := Pollout 0 (Addr 5)\<rparr>) demo_queued None)"
    by simp
  from demo_piece [OF this demo_served(3) idle]
  have "demo_reach (demo_sys (demo_srv_busy\<lparr>sv_pc := Pollin 1\<rparr>) demo_queued None)"
    by simp
  from demo_piece [OF this demo_served(4) idle]
  have "demo_reach (demo_sys demo_srv_busy demo_queued None)"
    by simp
  then show ?thesis
    by (rule demo_inner [OF demo_take])
qed

text \<open>
  A signal ends the loop. \<open>coin_tpool_wait\<close> returns \<open>COIN_SUCCESS\<close>, the connections are destroyed,
  and the worker gets to its task.
\<close>

lemma demo_shutdown:
  "\<exists>s. demo_reach (demo_sys s (demo_taken\<lparr>workers := [W_Run 7], active_tasks := 1\<rparr>) None) \<and>
     sv_pc s = Destroy_Tpool \<and> ch_conns (sv_heap s) = Map.empty"
proof -
  let ?s = "\<lambda>pc. demo_srv_busy\<lparr>sv_stop := True, sv_pc := pc\<rparr>"
  have idle: "boss demo_taken = B_Idle" and taken: "demo_taken\<lparr>boss := B_Idle\<rparr> = demo_taken"
    by (simp_all add: demo_taken_def tp_init_def)
  have pc: "sv_pc demo_srv_busy = Loop_Test"
    by (simp add: demo_srv_busy_def demo_srv_def demo_srv_with_def)
  have "demo_reach (demo_sys (demo_srv_busy\<lparr>sv_stop := True\<rparr>) demo_taken None)"
    using reachable.step [OF demo_sys_busy sys_step.stop] by simp
  then have "demo_reach (demo_sys (?s Wait_Pool) demo_taken None)"
    by (rule demo_piece [OF _ _ idle]) (simp_all add: main_step_def pc)
  then have "demo_reach (demo_sys (?s Wait_Pool) (demo_taken\<lparr>boss := B_Wait\<rparr>) None)"
    by (rule reachable.step) (use sys_step.wait [of "demo_sys (?s Wait_Pool) demo_taken None"] idle in simp)
  from demo_inner [OF demo_wait this]
  have "demo_reach (demo_sys (?s Cleanup_Connections) demo_taken None)"
    by (rule reachable.step) (use sys_step.waited
      [of "demo_sys (?s Wait_Pool) (demo_taken\<lparr>boss := B_Returned WR_Success\<rparr>) None" WR_Success 3 4 demo_env
        "?s Cleanup_Connections" False] demo_env_ok taken in \<open>simp add: main_step_def\<close>)
  note r = this
  obtain xs where fit: "fit {} xs demo_srv_busy"
    using srv.reachable_inv [OF demo_busy_reach] pc unfolding srv_inv_def looping_def by auto
  obtain ns where "Server_Inv.counted demo_srv_busy" "cm_tidy (sv_mgr demo_srv_busy)"
      "cm_rep (sv_heap demo_srv_busy) (sv_mgr demo_srv_busy) {} xs ns"
    using fit by (rule fitE)
  then obtain mgr' h' where d: "connmgr_destroy_all_conns (sv_heap demo_srv_busy) (Some (sv_mgr demo_srv_busy)) =
      Inr (0, Some mgr', h')" "ch_conns h' = Map.empty"
    using destroy_all_ok by blast
  let ?e = "demo_srv_busy\<lparr>sv_stop := True, sv_mgr := mgr', sv_heap := h', sv_pc := Destroy_Tpool\<rparr>"
  have "demo_reach (demo_sys ?e demo_taken None)"
    by (rule demo_piece [OF r _ idle]) (simp_all add: main_step_def d(1))
  from demo_inner [OF demo_count this] show ?thesis
    using d(2) by (intro exI [of _ ?e]) simp
qed

subsection \<open>Properties\<close>

text \<open>
  C6: the server with its pool refines the server over the contract of the pool. In every reachable
  state of the detailed system, in which the steps of the workers inside \<open>coin_thread_worker\<close> and
  those of the main thread inside \<open>coin_tpool_submit\<close>, \<open>coin_tpool_wait\<close> and \<open>coin_tpool_destroy\<close> are
  interleaved (also with pthread errors), the main thread and the heap are in a state that the abstract server
  reaches, the pool is in one of its reachable states, and, until the pool is joined, the tasks
  outstanding for the server, with the one whose submission is just returning, are exactly
  those queued in the pool or held by a worker.
\<close>

theorem threads_refine_server:
  assumes "sys_reach flt n sfd pipe_fd F y"
  shows "srv_reach sfd pipe_fd F (sy_srv y) \<and> reach flt n (sy_pool y) \<and>
    (boss (sy_pool y) \<noteq> B_Joined \<longrightarrow>
       image_mset (sy_task y) (pending (sy_pool y)) = mset (sv_tasks (sy_srv y)) + in_call y)"
  using to_server.projects [OF assms] to_pool.projects [OF assms] sys.reachable_inv [OF assms]
  by (simp add: same_tasks_def)

theorem threads_refine_server_witness:
  "srv_reach 3 4 {} demo_srv_busy \<and> reach False 1 demo_taken \<and> pending demo_taken = {#7#} \<and>
   mset (sv_tasks demo_srv_busy) = {#(Read_Task, Addr 5)#}"
  using threads_refine_server [OF demo_sys_busy]
  by (simp add: demo_taken_def tp_init_def pending_def total_def in_call_def)

lemma system_counts:
  assumes "sys_reach flt n sfd pipe_fd F y" and "serving (sv_pc (sy_srv y))"
  shows "counts (ch_conns (sv_heap (sy_srv y))) (map snd (sv_tasks (sy_srv y)) @ sv_lost (sy_srv y))"
  using srv.reachable_inv [OF to_server.projects [OF assms(1)]] assms(2)
  by (simp add: srv_inv_def counted_def Server_Inv.held_def)

lemma counts_live: "counts m ps \<Longrightarrow> p \<in> set ps \<Longrightarrow> \<exists>a c. p = Addr a \<and> m a = Some c \<and> cc_mutex c = Val ()"
  unfolding counts_def by (metis ptr.exhaust)

text \<open>
  C1: no worker meets a freed connection while the server serves. In every reachable state of the
  detailed system before the clean-up has destroyed the connections, the connection of every task
  that waits in the queue or is in the hands of a worker, at whatever line of \<open>coin_thread_worker\<close>
  the worker is, is live with its mutex initialised, and its \<open>ref_count\<close> is at least the number of
  these tasks, except for a task whose \<open>coin_tpool_submit\<close> has not returned yet (the main thread then
  holds the mutex and is about to have counted it).
\<close>

theorem workers_hold_live_connections:
  assumes "sys_reach flt n sfd pipe_fd F y" and "serving (sv_pc (sy_srv y))"
  shows "(\<forall>t \<in># pending (sy_pool y). live_conn (sy_srv y) (snd (sy_task y t))) \<and>
    (\<forall>a c. sy_call y = None \<and> ch_conns (sv_heap (sy_srv y)) a = Some c \<longrightarrow>
       int (size {#t \<in># pending (sy_pool y). snd (sy_task y t) = Addr a#}) \<le> cc_ref_count c)"
proof -
  let ?s = "sy_srv y"
  have inv: "same_tasks y" "call_ok y" "stops_late y"
    using sys.reachable_inv [OF assms(1)] by blast+
  then have eq: "image_mset (sy_task y) (pending (sy_pool y)) = mset (sv_tasks ?s) + in_call y"
    using assms(2) by (auto simp: same_tasks_def stops_late_def)
  note cnt = system_counts [OF assms]
  have "live_conn ?s (snd (sy_task y t))" if t: "t \<in># pending (sy_pool y)" for t
  proof -
    have "sy_task y t \<in># mset (sv_tasks ?s) + in_call y"
      using t unfolding eq [symmetric] by simp
    then consider "snd (sy_task y t) \<in> set (map snd (sv_tasks ?s) @ sv_lost ?s)" | "sy_task y t \<in># in_call y"
      by auto
    then show ?thesis
    proof cases
      case 1
      then show ?thesis
        using counts_live [OF cnt] by (simp add: live_conn_def)
    next
      case 2
      then show ?thesis
        using inv(2) by (auto simp: in_call_def call_ok_def split: option.splits if_splits)
    qed
  qed
  moreover have "int (size {#t \<in># pending (sy_pool y). snd (sy_task y t) = Addr a#}) \<le> cc_ref_count c"
    if "sy_call y = None" "ch_conns (sv_heap ?s) a = Some c" for a c
  proof -
    have "size {#t \<in># pending (sy_pool y). snd (sy_task y t) = Addr a#} =
        size {#x \<in># image_mset (sy_task y) (pending (sy_pool y)). snd x = Addr a#}"
      by (simp add: filter_mset_image_mset)
    also have "\<dots> = count_list (map snd (sv_tasks ?s)) (Addr a)"
      using that(1) unfolding eq
      by (simp add: count_list_eq_length_filter filter_map comp_def eq_commute flip: mset_filter)
    finally show ?thesis
      using cnt that(2) unfolding counts_def by (simp add: count_list_append)
  qed
  ultimately show ?thesis
    by blast
qed

theorem workers_hold_live_connections_witness:
  "at demo_taken 0 (W_Popped 7) \<and> live_conn demo_srv_busy (Addr 5)"
  using workers_hold_live_connections [OF demo_sys_busy]
  by (simp add: demo_taken_def tp_init_def pending_def total_def at_def serving_def looping_def demo_srv_busy_def
      demo_srv_def demo_srv_with_def)

text \<open>
  C11: the state is well formed throughout. In every reachable state of the detailed system in which
  the main thread is still in its loop, the table and the queue of the connection manager hold
  every live connection exactly once, every connection has the parts of its type (an inbound one
  its initialised mutex and both buffers, an internal one neither buffer), entry \<open>i\<close> of the poll array
  has the descriptor of entry \<open>i\<close> of the table, and the live memory is the manager's, the
  connections' and nothing else (\<open>cm_rep\<close>): nothing has leaked and no block has two owners.
\<close>

theorem server_state_well_formed:
  assumes "sys_reach flt n sfd pipe_fd F y" and "looping (sv_pc (sy_srv y))"
  shows "\<exists>xs ns. cm_rep (sv_heap (sy_srv y)) (sv_mgr (sy_srv y)) F xs ns \<and>
    distinct (addrs xs @ ns) \<and> dom (ch_conns (sv_heap (sy_srv y))) = set (addrs xs @ ns) \<and>
    (\<forall>a c. ch_conns (sv_heap (sy_srv y)) a = Some c \<longrightarrow> conn_wf c) \<and>
    length xs = unat (mgr_num_active (sv_mgr (sy_srv y))) \<and>
    (\<forall>i < length xs. \<exists>pf. load (mgr_pfds (sv_mgr (sy_srv y))) i = Inr pf \<and> pf_fd pf = fd_at (sv_heap (sy_srv y)) (xs ! i))"
proof -
  obtain xs where fit: "fit F xs (sy_srv y)"
    using srv.reachable_inv [OF to_server.projects [OF assms(1)]] assms(2) unfolding srv_inv_def by blast
  obtain ns where rep: "cm_rep (sv_heap (sy_srv y)) (sv_mgr (sy_srv y)) F xs ns"
    using fit unfolding fit_def by blast
  then obtain base where own: "owns (sv_heap (sy_srv y)) F base (addrs xs @ ns)"
    unfolding cm_rep_def by blast
  then show ?thesis
    using rep owns_distinct [OF own] fit_num [OF fit] fit_lookup(2) [OF fit] unfolding owns_def
    by (intro exI [of _ xs] exI [of _ ns]) simp
qed

theorem server_state_well_formed_witness:
  "\<exists>xs ns. cm_rep (sv_heap demo_srv_busy) (sv_mgr demo_srv_busy) {} xs ns \<and> length xs = 1"
  using server_state_well_formed [OF demo_sys_busy]
  by (auto simp: looping_def demo_srv_busy_def demo_srv_def demo_srv_with_def demo_num)

text \<open>
  C17: the shutdown race, with all threads. One worker, one connection and no failing call are
  enough: the server serves a readable connection, a signal asks it to stop, \<open>coin_tpool_wait\<close>
  returns, \<open>main\<close> destroys the connections and is about to call \<open>coin_tpool_destroy\<close>, and a worker is
  about to run its task, which then reads the freed connection.
\<close>

theorem worker_uses_freed_connection:
  "\<exists>y. sys_reach False 1 3 4 {} y \<and> sv_pc (sy_srv y) = Destroy_Tpool \<and> at (sy_pool y) 0 (W_Run 7) \<and>
     (\<forall>io. run_task io (sv_stop (sy_srv y)) (sy_task y 7) (sv_heap (sy_srv y)) = Inl Use_After_Free)"
proof -
  obtain s where s: "demo_reach (demo_sys s (demo_taken\<lparr>workers := [W_Run 7], active_tasks := 1\<rparr>) None)"
      "sv_pc s = Destroy_Tpool" "ch_conns (sv_heap s) = Map.empty"
    using demo_shutdown by blast
  moreover have "run_task io stop (Read_Task, Addr 5) (sv_heap s) = Inl Use_After_Free" for io stop
    using s(3) by (simp add: run_task_def task_io_read_def ctx_at_def)
  ultimately show ?thesis
    by (intro exI [of _ "demo_sys s (demo_taken\<lparr>workers := [W_Run 7], active_tasks := 1\<rparr>) None"])
      (simp add: at_def)
qed

end
