(* ===== verification/Server_Sweep.thy ===== *)
theory Server_Sweep
  imports Server_Run
begin

text \<open>
  The first loop of an iteration of \<open>main\<close> (\<open>src/main.c\<close>) as a whole, when no other thread runs in
  between and locking succeeds: which connections it closes, and in which order.
\<close>

definition idle :: "server \<Rightarrow> ptr \<Rightarrow> bool" where
  "idle s p \<longleftrightarrow> (\<exists>a c. p = Addr a \<and> ch_conns (sv_heap s) a = Some c \<and> cc_type c = INBOUND_CONN \<and>
     cc_state c = PENDING_CLOSE \<and> cc_ref_count c = 0)"

text \<open>What a sweep over the entries \<open>xs\<close> leaves behind.\<close>

definition swept :: "server \<Rightarrow> ptr list \<Rightarrow> server \<Rightarrow> bool" where
  "swept s xs s' \<longleftrightarrow>
     (\<forall>a. ch_conns (sv_heap s') a =
       (if Addr a \<in> set xs \<and> idle s (Addr a) then None else ch_conns (sv_heap s) a)) \<and>
     ch_closed (sv_heap s') = ch_closed (sv_heap s) @ map (fd_at (sv_heap s)) (filter (idle s) xs)"

lemma swept_Nil [simp]: "swept s [] s' \<longleftrightarrow>
    ch_conns (sv_heap s') = ch_conns (sv_heap s) \<and> ch_closed (sv_heap s') = ch_closed (sv_heap s)"
  by (auto simp: swept_def)

lemma idle_pc [simp]: "idle (s\<lparr>sv_pc := pc\<rparr>) = idle s"
  by (simp add: fun_eq_iff idle_def)

lemma swept_pc [simp]: "swept (s\<lparr>sv_pc := pc\<rparr>) xs s' = swept s xs s'"
  by (simp add: swept_def)

lemma swept_keep: "\<not> idle s x \<Longrightarrow> swept s xs s' \<Longrightarrow> swept s (x # xs) s'"
  by (auto simp: swept_def)

lemma idle_other:
  "ch_conns (sv_heap s1) = (ch_conns (sv_heap s))(a := None) \<Longrightarrow> p \<noteq> Addr a \<Longrightarrow> idle s1 p = idle s p"
  by (auto simp: idle_def)

lemma swept_close:
  assumes s1: "ch_conns (sv_heap s1) = (ch_conns (sv_heap s))(a := None)"
      "ch_closed (sv_heap s1) = ch_closed (sv_heap s) @ [cc_fd c]"
    and a: "idle s (Addr a)" "ch_conns (sv_heap s) a = Some c" "Addr a \<notin> set xs" and rest: "swept s1 xs s'"
  shows "swept s (Addr a # xs) s'"
proof -
  have same: "idle s1 p = idle s p" if "p \<in> set xs" for p
    using idle_other [OF s1(1)] that a(3) by metis
  have "map (fd_at (sv_heap s1)) (filter (idle s1) xs) = map (fd_at (sv_heap s)) (filter (idle s) xs)"
    using same a(3) s1(1)
    by (intro map_cong filter_cong) (auto simp: fd_at_def fd_of_def split: ptr.splits)
  moreover have "fd_at (sv_heap s) (Addr a) = cc_fd c"
    using a(2) by (simp add: fd_at_def fd_of_def)
  ultimately show ?thesis
    using rest a s1 by (auto simp: swept_def same)
qed

lemma sweep_idle:
  assumes fit: "fit F xs s" and conn: "conn < length xs" "xs ! conn = Addr a" and c: "ch_conns (sv_heap s) a = Some c"
    and locks: "se_lock env = 0" "se_unlock env = 0"
  shows "if idle s (Addr a)
    then \<exists>mgr' h'. sweep_conn env conn s = Inr (True, s\<lparr>sv_mgr := mgr', sv_heap := h'\<rparr>) \<and>
      fit F (xs[conn := NULL]) (s\<lparr>sv_mgr := mgr', sv_heap := h'\<rparr>) \<and>
      ch_conns h' = (ch_conns (sv_heap s))(a := None) \<and> ch_closed h' = ch_closed (sv_heap s) @ [cc_fd c]
    else sweep_conn env conn s = Inr (True, s)"
proof -
  have "cc_ref_count c = 0 \<longleftrightarrow> Addr a \<notin> set (held s)"
    using fit c counts_zero unfolding fit_def counted_def by blast
  then have "idle s (Addr a) \<longleftrightarrow>
      cc_type c = INBOUND_CONN \<and> se_lock env = 0 \<and> se_unlock env = 0 \<and> cc_state c = PENDING_CLOSE \<and> Addr a \<notin> set (held s)"
    using c locks by (simp add: idle_def)
  then show ?thesis
    using sweep_conn_ok [OF fit conn c, of env] by simp
qed

lemma sweep_loop:
  assumes "fit F (ys @ xs) s" and "NULL \<notin> set xs" and "sv_pc s = Sweep (length ys)"
    and locks: "se_lock env = 0" "se_unlock env = 0"
  shows "\<exists>s'. main_run sfd pipe_fd env (Suc (length xs)) s = Inr s' \<and> sv_pc s' = Update \<and> swept s xs s' \<and>
    fit F (ys @ map (\<lambda>p. if idle s p then NULL else p) xs) s'"
  using assms(1-3)
proof (induction xs arbitrary: ys s)
  case Nil
  then show ?case
    using fit_num [of F ys s] by (intro exI [of _ "s\<lparr>sv_pc := Update\<rparr>"]) (simp add: main_step_def)
next
  case (Cons x xs)
  obtain a where x: "x = Addr a"
    using Cons.prems(2) by (cases x) auto
  have "Addr a \<in> set (ys @ x # xs)"
    using x by simp
  then obtain c where c: "ch_conns (sv_heap s) a = Some c"
    using fit_conn [OF Cons.prems(1)] by blast
  have nth: "length ys < length (ys @ x # xs)" "(ys @ x # xs) ! length ys = Addr a"
    using x by simp_all
  have num: "length ys < unat (mgr_num_active (sv_mgr s))"
    using fit_num [OF Cons.prems(1)] by simp
  note sweep = sweep_idle [OF Cons.prems(1) nth c locks]
  show ?case
  proof (cases "idle s (Addr a)")
    case False
    let ?s = "s\<lparr>sv_pc := Sweep (Suc (length ys))\<rparr>"
    have run: "main_step sfd pipe_fd env s = Inr ?s"
      using sweep False num Cons.prems(3) by (simp add: main_step_def)
    obtain s' where "main_run sfd pipe_fd env (Suc (length xs)) ?s = Inr s'" "sv_pc s' = Update" "swept ?s xs s'"
        "fit F ((ys @ [x]) @ map (\<lambda>p. if idle ?s p then NULL else p) xs) s'"
      using Cons.IH [of "ys @ [x]" ?s] Cons.prems by auto
    then show ?thesis
      using False run x swept_keep by (intro exI [of _ s']) simp
  next
    case True
    then obtain mgr' h' where r: "sweep_conn env (length ys) s = Inr (True, s\<lparr>sv_mgr := mgr', sv_heap := h'\<rparr>)"
      "fit F ((ys @ x # xs)[length ys := NULL]) (s\<lparr>sv_mgr := mgr', sv_heap := h'\<rparr>)"
      "ch_conns h' = (ch_conns (sv_heap s))(a := None)" "ch_closed h' = ch_closed (sv_heap s) @ [cc_fd c]"
      using sweep by auto
    let ?s = "s\<lparr>sv_mgr := mgr', sv_heap := h', sv_pc := Sweep (Suc (length ys))\<rparr>"
    have fit: "fit F ((ys @ [NULL]) @ xs) ?s"
      using r(2) by simp
    have out: "Addr a \<notin> set xs"
      using fit_conn [OF fit, of a] r(3) by auto
    have run: "main_step sfd pipe_fd env s = Inr ?s"
      using r(1) num Cons.prems(3) by (simp add: main_step_def)
    obtain s' where s': "main_run sfd pipe_fd env (Suc (length xs)) ?s = Inr s'" "sv_pc s' = Update" "swept ?s xs s'"
        "fit F ((ys @ [NULL]) @ map (\<lambda>p. if idle ?s p then NULL else p) xs) s'"
      using Cons.IH [OF fit] Cons.prems(2) by auto
    have "swept s (Addr a # xs) s'"
      by (rule swept_close [OF _ _ True c out s'(3)]) (simp_all add: r(3,4))
    moreover have "idle ?s p = idle s p" if "p \<in> set xs" for p
      by (rule idle_other [where a = a]) (use r(3) that out in auto)
    then have "map (\<lambda>p. if idle ?s p then NULL else p) xs = map (\<lambda>p. if idle s p then NULL else p) xs"
      by (intro map_cong) simp_all
    with s'(4) have "fit F ((ys @ [NULL]) @ map (\<lambda>p. if idle s p then NULL else p) xs) s'"
      by (simp only:)
    ultimately show ?thesis
      using s'(1,2) run x True by (intro exI [of _ s']) simp
  qed
qed

text \<open>
  C12: a sweep closes every idle connection, and no other. From every reachable state at the
  start of the loop, when its locks succeed and no other thread runs in between, the loop ends after
  one pass over the \<open>num_active_conns\<close> entries; the connections of the table that are inbound,
  \<open>PENDING_CLOSE\<close> and without tasks are gone, their descriptors have been closed in the order
  of the table, their entries are \<open>NULL\<close> for the compaction that follows, and all other
  connections are untouched.
\<close>

theorem sweep_closes_all_idle:
  assumes "srv_reach sfd pipe_fd F s" and "sv_pc s = Sweep 0" and "se_lock env = 0" and "se_unlock env = 0"
  shows "\<exists>xs ns s'. cm_rep (sv_heap s) (sv_mgr s) F xs ns \<and>
    main_run sfd pipe_fd env (Suc (unat (mgr_num_active (sv_mgr s)))) s = Inr s' \<and> sv_pc s' = Update \<and>
    (\<forall>a. ch_conns (sv_heap s') a =
      (if Addr a \<in> set xs \<and> idle s (Addr a) then None else ch_conns (sv_heap s) a)) \<and>
    ch_closed (sv_heap s') = ch_closed (sv_heap s) @ map (fd_at (sv_heap s)) (filter (idle s) xs) \<and>
    (\<exists>ns'. cm_rep (sv_heap s') (sv_mgr s') F (map (\<lambda>p. if idle s p then NULL else p) xs) ns')"
proof -
  obtain xs where xs: "fit F xs s" "NULL \<notin> set xs"
    using srv.reachable_inv [OF assms(1)] assms(2) by (auto simp: srv_inv_def looping_def ahead_def)
  obtain ns where ns: "cm_rep (sv_heap s) (sv_mgr s) F xs ns"
    using xs(1) unfolding fit_def by blast
  obtain s' where "main_run sfd pipe_fd env (Suc (length xs)) s = Inr s'" "sv_pc s' = Update" "swept s xs s'"
      "fit F (map (\<lambda>p. if idle s p then NULL else p) xs) s'"
    using sweep_loop [of F "[]" xs s env sfd pipe_fd] xs assms(2-4) by auto
  then show ?thesis
    using ns fit_num [OF xs(1)] unfolding swept_def fit_def by (intro exI [of _ xs] exI [of _ ns] exI [of _ s']) simp
qed

theorem sweep_closes_all_idle_witness:
  "\<exists>s'. main_run 3 4 demo_env 2 demo_srv_hup = Inr s' \<and> sv_pc s' = Update"
proof -
  have "sv_pc demo_srv_hup = Sweep 0" "unat (mgr_num_active (sv_mgr demo_srv_hup)) = 1" "se_lock demo_env = 0" "se_unlock demo_env = 0"
    by (simp_all add: demo_srv_hup_def demo_num demo_env_def)
  with sweep_closes_all_idle [OF demo_hup_reach, of demo_env] show ?thesis
    by (auto simp: numeral_2_eq_2)
qed

end
