(* ===== verification/Server_Setup.thy ===== *)
theory Server_Setup
  imports Server_Run Tpool_Life
begin

text \<open>
  The start of \<open>src/main.c\<close>: \<open>setup_signal_handler_thread\<close>, \<open>signal_thread_fn\<close>, and what \<open>main\<close> sets
  up before its loop, by the functions of the other theories. Where it ends is a label of the
  code, or the loop; what is owned there is what the end of \<open>main\<close> (\<open>Server_Exit\<close>) starts from.
\<close>

subsection \<open>Signals\<close>

datatype signal_no = SIGPIPE | SIGINT | SIGTERM | SIGUSR1 | SIG_Other nat

record sig_env =
  sg_emptyset :: int
  sg_add_pipe :: int
  sg_add_int :: int
  sg_add_term :: int
  sg_mask :: int
  sg_create :: int

text \<open>The result, the set that \<open>p_args\<close> points to, the blocked signals, and whether a thread runs.\<close>

definition setup_signal_handler_thread ::
    "sig_env \<Rightarrow> signal_no set \<Rightarrow> int \<times> signal_no set \<times> signal_no set \<times> bool" where
  [op_defs]: "setup_signal_handler_thread sg blocked =
     (if sg_emptyset sg \<noteq> 0 then (sg_emptyset sg, {}, blocked, False)
      else if sg_add_pipe sg \<noteq> 0 then (sg_add_pipe sg, {}, blocked, False)
      else if sg_add_int sg \<noteq> 0 then (sg_add_int sg, {SIGPIPE}, blocked, False)
      else if sg_add_term sg \<noteq> 0 then (sg_add_term sg, {SIGPIPE, SIGINT}, blocked, False)
      else if sg_mask sg \<noteq> 0 then (sg_mask sg, {SIGPIPE, SIGINT, SIGTERM}, blocked, False)
      else
        (let blocked = blocked \<union> {SIGPIPE, SIGINT, SIGTERM} in
         if sg_create sg \<noteq> 0 then (sg_create sg, {SIGPIPE, SIGINT, SIGTERM}, blocked, False)
         else (0, {SIGPIPE, SIGINT, SIGTERM}, blocked, True)))"

text \<open>
  \<open>signal_thread_fn\<close> on the results of \<open>sigwait\<close> in order. The outcome says whether the thread
  has returned (an exhausted script is a thread that waits), the flag, and the bytes written to
  the pipe.
\<close>

record sig_outcome =
  so_returned :: bool
  so_shutdown :: bool
  so_written :: "byte list"

fun signal_thread_fn :: "(int \<times> signal_no) list \<Rightarrow> sig_outcome" where
  "signal_thread_fn [] = \<lparr>so_returned = False, so_shutdown = False, so_written = []\<rparr>"
| "signal_thread_fn ((err, sig) # rest) =
     (if err \<noteq> 0 then \<lparr>so_returned = True, so_shutdown = False, so_written = []\<rparr>
      else if sig = SIGINT \<or> sig = SIGTERM then \<lparr>so_returned = True, so_shutdown = True, so_written = [1]\<rparr>
      else if sig = SIGUSR1 then \<lparr>so_returned = True, so_shutdown = False, so_written = []\<rparr>
      else signal_thread_fn rest)"

lemma signal_thread_ignores:
  assumes "\<forall>(err, sig) \<in> set rs. err = 0 \<and> sig \<in> {SIGPIPE, SIGINT, SIGTERM}"
  shows "signal_thread_fn rs =
    (if \<exists>(err, sig) \<in> set rs. sig \<noteq> SIGPIPE
     then \<lparr>so_returned = True, so_shutdown = True, so_written = [1]\<rparr>
     else \<lparr>so_returned = False, so_shutdown = False, so_written = []\<rparr>)"
  using assms by (induction rs rule: signal_thread_fn.induct) auto

text \<open>
  The signal thread that \<open>setup_signal_handler_thread\<close> starts. \<open>sigwait\<close> returns signals of
  the set it is given; that set has no \<open>SIGUSR1\<close>, so the thread ignores \<open>SIGPIPE\<close>, ends at the first
  \<open>SIGINT\<close> or \<open>SIGTERM\<close>, with the flag set and one byte in the pipe, and ends in no other way: the
  \<open>SIGUSR1\<close> that \<open>main\<close> sends before it joins the thread is neither blocked nor waited for.
\<close>

lemma signal_thread_ends_on_shutdown_only:
  assumes "setup_signal_handler_thread sg blocked = (0, sigs, blocked', True)" and "SIGUSR1 \<notin> blocked"
    and "\<forall>(err, sig) \<in> set rs. err = 0 \<and> sig \<in> sigs"
  shows "SIGUSR1 \<notin> sigs \<and> SIGUSR1 \<notin> blocked' \<and>
    signal_thread_fn rs =
      (if \<exists>(err, sig) \<in> set rs. sig \<noteq> SIGPIPE
       then \<lparr>so_returned = True, so_shutdown = True, so_written = [1]\<rparr>
       else \<lparr>so_returned = False, so_shutdown = False, so_written = []\<rparr>)"
proof -
  have s: "sigs = {SIGPIPE, SIGINT, SIGTERM}" "blocked' = blocked \<union> {SIGPIPE, SIGINT, SIGTERM}"
    using assms(1) by (auto simp: setup_signal_handler_thread_def Let_def split: if_splits)
  from signal_thread_ignores [OF assms(3) [unfolded s(1)]] show ?thesis using assms(2) s by simp
qed

lemma signal_thread_demo:
  "signal_thread_fn [(0, SIGPIPE), (0, SIGTERM), (0, SIGINT)] = \<lparr>so_returned = True, so_shutdown = True, so_written = [1]\<rparr>"
proof -
  define sg where "sg = \<lparr>sg_emptyset = 0, sg_add_pipe = 0, sg_add_int = 0, sg_add_term = 0, sg_mask = 0, sg_create = 0\<rparr>"
  have "setup_signal_handler_thread sg {} = (0, {SIGPIPE, SIGINT, SIGTERM}, {SIGPIPE, SIGINT, SIGTERM}, True)"
    by (simp add: setup_signal_handler_thread_def sg_def)
  from signal_thread_ends_on_shutdown_only [OF this, of "[(0, SIGPIPE), (0, SIGTERM), (0, SIGINT)]"]
  show ?thesis by (simp split: if_splits)
qed

subsection \<open>What main does before its loop\<close>

text \<open>
  What the calls of the kernel return, and what the blocks hold that \<open>malloc\<close> returns.
\<close>

record start_env =
  st_pipe :: int
  st_pipe_fds :: "int \<times> int"
  st_sig :: sig_env
  st_raw_a :: ezarray
  st_raw_q :: ezqueue
  st_listen :: listen_env
  st_raw_listener :: conn_ctx
  st_raw_pipe :: conn_ctx

text \<open>
  The local variables of \<open>main\<close>, with the state of the connections and of the pool's calls. There
  is one allocator, in \<open>ms_heap\<close>; it is passed to the pool's calls and taken back from them.
\<close>

record main_state =
  ms_pipe :: "int \<times> int"
  ms_sigs :: "signal_no set"
  ms_blocked :: "signal_no set"
  ms_mgr :: conn_mgr_t
  ms_heap :: cm_heap
  ms_world :: tp_world
  ms_tp :: "coin_threadpool_t owned"
  ms_sfd :: int

definition NUM_THREADS :: size_t where "NUM_THREADS = 8"

definition INITIAL_MAX_CONNS :: u16 where "INITIAL_MAX_CONNS = 16"

datatype main_label =
    At_End
  | At_Close_Pipefds
  | At_Join_Sig_Thread
  | At_Destroy_Connmgr
  | At_Destroy_Tpool
  | At_Cleanup_Connections
  | At_Loop

definition with_mem :: "tp_world \<Rightarrow> mem \<Rightarrow> tp_world" where
  "with_mem w m = w\<lparr>tw_heap := (tw_heap w)\<lparr>cq_mem := m\<rparr>\<rparr>"

text \<open>The steps of \<open>main\<close>, the last one first: each goes on with the next or to a label.\<close>

definition setup_pipe_conn :: "start_env \<Rightarrow> main_state \<Rightarrow> cfault + (main_label \<times> main_state)" where
  [op_defs]: "setup_pipe_conn env s =
     and_then (connmgr_create_new_conn (ms_heap s) (st_raw_pipe env) 0 (fst (ms_pipe s)) (Some (ms_mgr s)) INTERNAL_CONN)
       (\<lambda>(err, p_mgr, h).
         case p_mgr of None \<Rightarrow> Inl Null_Deref
         | Some mgr \<Rightarrow>
             Inr (if err \<noteq> 0 then At_Cleanup_Connections else At_Loop, s\<lparr>ms_mgr := mgr, ms_heap := h\<rparr>))"

definition setup_listener_conn :: "start_env \<Rightarrow> main_state \<Rightarrow> cfault + (main_label \<times> main_state)" where
  [op_defs]: "setup_listener_conn env s =
     and_then (connmgr_create_new_conn (ms_heap s) (st_raw_listener env) 0 (ms_sfd s) (Some (ms_mgr s)) INTERNAL_CONN)
       (\<lambda>(err, p_mgr, h).
         case p_mgr of None \<Rightarrow> Inl Null_Deref
         | Some mgr \<Rightarrow>
             (let s = s\<lparr>ms_mgr := mgr, ms_heap := h\<rparr> in
              if err \<noteq> 0 then Inr (At_Cleanup_Connections, s) else setup_pipe_conn env s))"

definition setup_listener :: "start_env \<Rightarrow> main_state \<Rightarrow> cfault + (main_label \<times> main_state)" where
  [op_defs]: "setup_listener env s =
     (let (sfd, opened, closed) = nl_start_listener (Some ''1337'') (st_listen env);
          s = s\<lparr>ms_sfd := sfd, ms_heap := (ms_heap s)\<lparr>ch_closed := ch_closed (ms_heap s) @ closed\<rparr>\<rparr> in
      if sfd = -1 then Inr (At_Destroy_Tpool, s) else setup_listener_conn env s)"

definition setup_tpool :: "start_env \<Rightarrow> main_state \<Rightarrow> (cfault + (main_label \<times> main_state)) option" where
  [op_defs]: "setup_tpool env s =
     o_then (coin_tpool_init (with_mem (ms_world s) (ch_mem (ms_heap s))) True NUM_THREADS) (\<lambda>(status, p_tp, w).
       let s = s\<lparr>ms_tp := p_tp, ms_world := w, ms_heap := (ms_heap s)\<lparr>ch_mem := cq_mem (tw_heap w)\<rparr>\<rparr> in
       if status \<noteq> COIN_SUCCESS then Some (Inr (At_Destroy_Connmgr, s)) else Some (setup_listener env s))"

definition setup_connmgr :: "start_env \<Rightarrow> main_state \<Rightarrow> (cfault + (main_label \<times> main_state)) option" where
  [op_defs]: "setup_connmgr env s =
     o_then (Some (connmgr_init (ch_mem (ms_heap s)) (st_raw_a env) (st_raw_q env) (Some (ms_mgr s)) INITIAL_MAX_CONNS))
       (\<lambda>(err, p_mgr, m).
         case p_mgr of None \<Rightarrow> Some (Inl Null_Deref)
         | Some mgr \<Rightarrow>
             (let s = s\<lparr>ms_mgr := mgr, ms_heap := (ms_heap s)\<lparr>ch_mem := m\<rparr>\<rparr> in
              if err \<noteq> 0 then Some (Inr (At_Join_Sig_Thread, s)) else setup_tpool env s))"

definition main_setup :: "start_env \<Rightarrow> main_state \<Rightarrow> (cfault + (main_label \<times> main_state)) option" where
  [op_defs]: "main_setup env s =
     (if st_pipe env = -1 then Some (Inr (At_End, s))
      else
        (let (err, sigs, blocked, started) = setup_signal_handler_thread (st_sig env) (ms_blocked s);
             s = s\<lparr>ms_pipe := st_pipe_fds env, ms_sigs := sigs, ms_blocked := blocked\<rparr> in
         if err \<noteq> 0 then Some (Inr (At_Close_Pipefds, s)) else setup_connmgr env s))"

subsection \<open>Connections of the program itself\<close>

lemma cm_rep_mem: "cm_rep h mgr F xs ns \<Longrightarrow> mem_ok (ch_mem h) \<and> F \<subseteq> live (ch_mem h)"
  by (auto simp: cm_rep_def owns_def)

lemma cm_rep_frame:
  assumes rep: "cm_rep h mgr F xs ns" and m: "mem_ok m" "live m = (live (ch_mem h) - F) \<union> F'" "F' \<inter> (live (ch_mem h) - F) = {}"
  shows "cm_rep (h\<lparr>ch_mem := m\<rparr>) mgr F' xs ns"
proof -
  obtain ca ab pb qa qb where sh: "cm_shape h mgr ca ab pb qa qb xs ns"
    and own: "owns h F [ca, ab, pb, qa, qb] (addrs xs @ ns)"
    using rep unfolding cm_rep_def by blast
  have l: "live (ch_mem h) - F = set ([ca, ab, pb, qa, qb] @ foot (ch_conns h) (addrs xs @ ns))"
    using own by (auto simp: owns_def)
  have "owns (h\<lparr>ch_mem := m\<rparr>) F' [ca, ab, pb, qa, qb] (addrs xs @ ns)"
    using own m unfolding l owns_def by auto
  moreover have "ab \<in> live m" "qb \<in> live m" using m(2) unfolding l by auto
  then have "cm_shape (h\<lparr>ch_mem := m\<rparr>) mgr ca ab pb qa qb xs ns"
    by (intro cm_shape_cong [OF sh]) auto
  ultimately show ?thesis by (intro cm_repI)
qed

text \<open>How many connections the queue of new ones can take before it has to grow.\<close>

abbreviation queue_cap :: "conn_mgr_t \<Rightarrow> nat" where
  "queue_cap mgr \<equiv> unat (eq_max_items (target (mgr_new_conns mgr)))"

lemma create_enqueue_keeps_cap:
  assumes "cm_rep h mgr F xs ns" and "length ns < queue_cap mgr" and "live (ch_mem h) \<subseteq> live m" and "mem_ok m"
    and "create_enqueue (h\<lparr>ch_mem := m, ch_conns := C\<rparr>) mgr a c = Inr (0, Some mgr', h')"
  shows "queue_cap mgr' = queue_cap mgr \<and> grant (ch_mem h') = grant m"
proof -
  obtain qa q qb where q: "mgr_new_conns mgr = Own qa q" "eq_rep (ch_mem h) q qb (map Addr ns)"
    using assms(1) by (elim cm_repE)
  have "eq_rep m q qb (map Addr ns)" using q(2) assms(3) eq_rep_live eq_rep_cong by blast
  from enqueue_outcome [OF this assms(4), of "Addr a"] assms(2) q(1) obtain q' m' where
    "ezq_enqueue m (Some q) (Addr a) = Inr (0, Some q', m')" "eq_max_items q' = eq_max_items q" "grant m' = grant m"
    by (auto simp: swaps_def split: if_splits)
  then show ?thesis
    using assms(5) q(1) by (auto simp: create_enqueue_def Let_def and_then_eq_Inr)
qed

lemma create_internal_ok:
  assumes rep: "cm_rep h mgr F xs ns" and fd: "0 < fd" and room: "length ns < queue_cap mgr"
  defines "k \<equiv> asked (ch_mem h)"
  shows "if grant (ch_mem h) k then
      \<exists>mgr' h' c. connmgr_create_new_conn h raw mutex_res fd (Some mgr) INTERNAL_CONN = Inr (0, Some mgr', h') \<and>
        cm_rep h' mgr' F xs (ns @ [k]) \<and> ch_conns h' = (ch_conns h)(k \<mapsto> c) \<and> ch_conns h k = None \<and>
        cc_fd c = fd \<and> cc_ref_count c = 0 \<and> ch_closed h' = ch_closed h \<and>
        (\<exists>p. mgr' = mgr\<lparr>mgr_new_conns := p\<rparr>) \<and> queue_cap mgr' = queue_cap mgr \<and>
        grant (ch_mem h') = grant (ch_mem h)
    else \<exists>h'. connmgr_create_new_conn h raw mutex_res fd (Some mgr) INTERNAL_CONN = Inr (-1, Some mgr, h') \<and>
        cm_rep h' mgr F xs ns \<and> ch_conns h' = ch_conns h \<and> ch_closed h' = ch_closed h"
proof (cases "grant (ch_mem h) k")
  case False
  have "same_live (ch_mem h) ((ch_mem h)\<lparr>asked := Suc k\<rparr>)"
    using cm_rep_mem [OF rep] unfolding k_def by (simp add: same_live_asked)
  from cm_rep_same [OF rep this] False fd show ?thesis
    by (simp add: connmgr_create_new_conn_def alloc_def k_def)
next
  case True
  obtain ca ab pb qa qb where sh: "cm_shape h mgr ca ab pb qa qb xs ns"
    and own: "owns h F [ca, ab, pb, qa, qb] (addrs xs @ ns)"
    using rep unfolding cm_rep_def by blast
  have mok: "mem_ok (ch_mem h)" and dom: "dom (ch_conns h) \<subseteq> live (ch_mem h)"
    using own head_in_foot [of _ "addrs xs @ ns" "ch_conns h"] unfolding owns_def by auto
  have kl: "k \<notin> live (ch_mem h)" using mem_ok_fresh [OF mok] by (simp add: k_def)
  then have ka: "ch_conns h k = None" using dom by auto
  define m1 where "m1 = (ch_mem h)\<lparr>asked := Suc k, live := insert k (live (ch_mem h))\<rparr>"
  define c0 where "c0 = raw\<lparr>cc_mutex := Indet, cc_recv_buf := Indet, cc_send_buf := Indet\<rparr>"
  define c where "c = c0\<lparr>cc_state := SPECIAL_CONN, cc_fd := fd, cc_ref_count := 0, cc_type := INTERNAL_CONN\<rparr>"
  have run: "connmgr_create_new_conn h raw mutex_res fd (Some mgr) INTERNAL_CONN =
      create_enqueue (h\<lparr>ch_mem := m1, ch_conns := (ch_conns h)(k \<mapsto> c0)\<rparr>) mgr k c"
    using True fd unfolding k_def m1_def c0_def c_def
    by (simp add: connmgr_create_new_conn_def alloc_def Let_def)
  define h1 where "h1 = h\<lparr>ch_mem := m1, ch_conns := (ch_conns h)(k \<mapsto> c)\<rparr>"
  have bl: "ctx_blocks (ch_conns h1) k = [k]"
    by (simp add: ctx_blocks_def h1_def buf_block_def c_def c0_def)
  have "conn_wf c" using fd by (simp add: conn_wf_def c_def c0_def)
  then have "owns h1 F [ca, ab, pb, qa, qb] ((addrs xs @ ns) @ [k])"
    by (intro owns_add [OF own, of _ _ c]) (use bl in \<open>auto simp: h1_def m1_def k_def\<close>)
  then have own1: "owns h1 F [ca, ab, pb, qa, qb] (addrs xs @ ns @ [k])" by simp
  have sub: "live (ch_mem h) \<subseteq> live m1" by (auto simp: m1_def)
  from create_enqueue_ok [OF sh own1 h1_def this, where ?c0.0 = c0] room obtain mgr' h' where
    made: "create_enqueue (h\<lparr>ch_mem := m1, ch_conns := (ch_conns h)(k \<mapsto> c0)\<rparr>) mgr k c = Inr (0, Some mgr', h')"
    "ch_conns h' = ch_conns h1" "ch_closed h' = ch_closed h" "cm_rep h' mgr' F xs (ns @ [k])"
    "\<exists>p. mgr' = mgr\<lparr>mgr_new_conns := p\<rparr>"
    by auto
  have "mem_ok m1" using own1 by (simp add: owns_def h1_def)
  from create_enqueue_keeps_cap [OF rep room sub this made(1)] show ?thesis
    using True run made ka by (auto simp: h1_def c_def c0_def m1_def)
qed

subsection \<open>What is owned where\<close>

text \<open>
  The pool, on the memory of the program; and what \<open>main\<close> owns at a label besides the blocks
  \<open>base\<close> that were there before: nothing, a manager without connections, a pool as well, or both
  with the connections \<open>ks\<close>.
\<close>

definition has_pool :: "main_state \<Rightarrow> nat set \<Rightarrow> bool" where
  "has_pool s P \<longleftrightarrow> (\<exists>p pool qs. ms_tp s = Own p pool \<and>
     pool_rep (with_mem (ms_world s) (ch_mem (ms_heap s))) p pool qs P)"

definition main_owns :: "nat set \<Rightarrow> nat list \<Rightarrow> main_label \<Rightarrow> main_state \<Rightarrow> bool" where
  "main_owns base ks l s \<longleftrightarrow>
     (let h = ms_heap s; mgr = ms_mgr s in
      if l \<in> {At_End, At_Close_Pipefds, At_Join_Sig_Thread} then
        ks = [] \<and> live (ch_mem h) = base \<and> ch_conns h = Map.empty
      else if l = At_Destroy_Connmgr then ks = [] \<and> cm_bare h mgr base
      else \<exists>P. has_pool s P \<and> base \<inter> P = {} \<and>
        (if l = At_Destroy_Tpool then ks = [] \<and> cm_bare h mgr (base \<union> P)
         else \<exists>xs ns. cm_rep h mgr (base \<union> P) xs ns \<and> ks = addrs xs @ ns))"

lemma pool_rep_mem:
  assumes rep: "pool_rep w p pool qs P" and "mem_ok m" and "P \<subseteq> live m"
  shows "pool_rep (with_mem w m) p pool qs P"
proof -
  obtain b ts a ctx qb q where r: "p_threads pool = Own b ts" "length ts = unat (num_workers pool)"
     "tid ` set ts = tw_threads w" "p_ctx pool = Own a ctx" "p_work_queue ctx = Own qb q" "cq_rep (tw_heap w) q qs"
     "distinct (p # b # a # qb # map fst qs @ task_blocks qs)"
     "P = set (p # b # a # qb # map fst qs @ task_blocks qs)" "P \<subseteq> blocks w" "pool_objects \<subseteq> tw_inited w"
    by (rule pool_parts [OF rep])
  have "fst ` set qs \<subseteq> live m" using r(8) assms(3) by auto
  then have "cq_rep (tw_heap (with_mem w m)) q qs"
    using r(6) assms(2) by (simp add: cq_rep_def with_mem_def)
  then show ?thesis
    using r assms(3) by (intro pool_repI [of pool b ts _ a ctx qb q]) (simp_all add: with_mem_def)
qed

lemma main_ownsI:
  assumes "l \<in> {At_Cleanup_Connections, At_Loop}" and "has_pool s P" and "base \<inter> P = {}"
    and "cm_rep (ms_heap s) (ms_mgr s) (base \<union> P) xs ns"
  shows "main_owns base (addrs xs @ ns) l s"
  using assms unfolding main_owns_def Let_def by (auto 0 3)

lemma has_pool_mem:
  assumes "has_pool s P" and "mem_ok (ch_mem (ms_heap s'))" and "P \<subseteq> live (ch_mem (ms_heap s'))"
    and "ms_tp s' = ms_tp s" and "ms_world s' = ms_world s"
  shows "has_pool s' P"
proof -
  have "with_mem (with_mem w m) m' = with_mem w m'" for w m m' by (simp add: with_mem_def)
  then show ?thesis
    using assms pool_rep_mem unfolding has_pool_def by metis
qed

text \<open>The two connections that \<open>main\<close> makes, from a manager without connections.\<close>

lemma setup_listener_conn_ok:
  assumes rep: "cm_rep (ms_heap s) (ms_mgr s) F [] []" and conns: "ch_conns (ms_heap s) = Map.empty"
    and fds: "0 < ms_sfd s" "0 < fst (ms_pipe s)" and cap: "1 < queue_cap (ms_mgr s)"
  shows "\<exists>l h mgr ns. setup_listener_conn env s = Inr (l, s\<lparr>ms_mgr := mgr, ms_heap := h\<rparr>) \<and>
    l \<in> {At_Cleanup_Connections, At_Loop} \<and> cm_rep h mgr F [] ns \<and> ch_closed h = ch_closed (ms_heap s) \<and>
    (\<exists>p. mgr = (ms_mgr s)\<lparr>mgr_new_conns := p\<rparr>) \<and> (\<forall>a c. ch_conns h a = Some c \<longrightarrow> cc_ref_count c = 0) \<and>
    (if l = At_Loop then map (fd_of h) ns = [ms_sfd s, fst (ms_pipe s)] else map (fd_of h) ns \<in> {[], [ms_sfd s]}) \<and>
    ((\<forall>n. grant (ch_mem (ms_heap s)) n) \<longrightarrow> l = At_Loop)"
proof (cases "grant (ch_mem (ms_heap s)) (asked (ch_mem (ms_heap s)))")
  case False
  with create_internal_ok [OF rep fds(1), where mutex_res = 0 and raw = "st_raw_listener env"] cap conns obtain h' where
    "connmgr_create_new_conn (ms_heap s) (st_raw_listener env) 0 (ms_sfd s) (Some (ms_mgr s)) INTERNAL_CONN =
      Inr (-1, Some (ms_mgr s), h')" "cm_rep h' (ms_mgr s) F [] []" "ch_conns h' = Map.empty"
    "ch_closed h' = ch_closed (ms_heap s)"
    by auto
  then show ?thesis
    using False
    by (intro exI [of _ At_Cleanup_Connections] exI [of _ h'] exI [of _ "ms_mgr s"] exI [of _ "[]"])
      (auto simp: setup_listener_conn_def same_arrays_refl)
next
  case True
  let ?k = "asked (ch_mem (ms_heap s))"
  have "length ([] :: nat list) < queue_cap (ms_mgr s)" using cap by simp
  from create_internal_ok [OF rep fds(1) this, where mutex_res = 0 and raw = "st_raw_listener env",
      unfolded if_P [OF True] append_Nil conns] obtain mgr1 h1 c1 where
    1: "connmgr_create_new_conn (ms_heap s) (st_raw_listener env) 0 (ms_sfd s) (Some (ms_mgr s)) INTERNAL_CONN =
      Inr (0, Some mgr1, h1)" "cm_rep h1 mgr1 F [] [?k]" "ch_conns h1 = [?k \<mapsto> c1]" "cc_fd c1 = ms_sfd s"
      "cc_ref_count c1 = 0" "ch_closed h1 = ch_closed (ms_heap s)" "\<exists>p. mgr1 = (ms_mgr s)\<lparr>mgr_new_conns := p\<rparr>"
      "queue_cap mgr1 = queue_cap (ms_mgr s)" "grant (ch_mem h1) = grant (ch_mem (ms_heap s))"
    by blast
  have room: "length [?k] < queue_cap mgr1" using cap 1(8) by simp
  let ?j = "asked (ch_mem h1)"
  let ?c2 = "connmgr_create_new_conn h1 (st_raw_pipe env) 0 (fst (ms_pipe s)) (Some mgr1) INTERNAL_CONN"
  show ?thesis
  proof (cases "grant (ch_mem h1) ?j")
    case False
    with create_internal_ok [OF 1(2) fds(2) room, where mutex_res = 0 and raw = "st_raw_pipe env"] obtain h' where
      "?c2 = Inr (-1, Some mgr1, h')" "cm_rep h' mgr1 F [] [?k]" "ch_conns h' = ch_conns h1" "ch_closed h' = ch_closed h1"
      by auto
    then show ?thesis
      using False 1
      by (intro exI [of _ At_Cleanup_Connections] exI [of _ h'] exI [of _ mgr1] exI [of _ "[?k]"])
        (auto simp: setup_listener_conn_def setup_pipe_conn_def fd_of_def)
  next
    case True
    from create_internal_ok [OF 1(2) fds(2) room, where mutex_res = 0 and raw = "st_raw_pipe env",
        unfolded if_P [OF True]] obtain mgr2 h2 c2 where
      2: "?c2 = Inr (0, Some mgr2, h2)" "cm_rep h2 mgr2 F [] [?k, ?j]" "ch_conns h2 = (ch_conns h1)(?j \<mapsto> c2)"
      "cc_fd c2 = fst (ms_pipe s)" "cc_ref_count c2 = 0" "ch_closed h2 = ch_closed h1" "ch_conns h1 ?j = None"
      "\<exists>p. mgr2 = mgr1\<lparr>mgr_new_conns := p\<rparr>"
      unfolding append_Cons append_Nil by blast
    then have "?j \<noteq> ?k" using 1(3) by auto
    with 2 show ?thesis
      using 1
      by (intro exI [of _ At_Loop] exI [of _ h2] exI [of _ mgr2] exI [of _ "[?k, ?j]"])
        (auto simp: setup_listener_conn_def setup_pipe_conn_def fd_of_def)
  qed
qed

lemma listener_fd:
  assumes "nl_start_listener p_service le = (fd, opened, closed)"
  shows "fd = -1 \<or> fd \<in> try_socket ` set (le_addrs le)"
proof -
  have "fst (bind_loop ps op cl) = -1 \<or> fst (bind_loop ps op cl) \<in> try_socket ` set ps" for ps op cl
    by (induction ps op cl rule: bind_loop.induct) (auto simp: Let_def)
  from this [of "le_addrs le" "[]" "[]"] show ?thesis
    using assms by (auto simp: nl_start_listener_def split: if_splits prod.splits)
qed

subsection \<open>From the start to the loop\<close>

text \<open>
  What holds when the process starts: no connections, no pool, no worker that ends by itself, and
  descriptors that are positive (0 is the standard input).
\<close>

definition main_fresh :: "start_env \<Rightarrow> main_state \<Rightarrow> bool" where
  "main_fresh env s \<longleftrightarrow>
     sound (with_mem (ms_world s) (ch_mem (ms_heap s))) \<and> ch_conns (ms_heap s) = Map.empty \<and>
     tw_inited (ms_world s) = {} \<and> tw_threads (ms_world s) = {} \<and> nodes (tw_heap (ms_world s)) = Map.empty \<and>
     (\<forall>t. \<not> tw_ends (ms_world s) t) \<and> 0 < fst (st_pipe_fds env) \<and>
     (\<forall>t \<in> set (le_addrs (st_listen env)). try_socket t = -1 \<or> 0 < try_socket t)"

text \<open>The server of \<open>main_step\<close> at the first test of its loop.\<close>

definition server_of :: "main_state \<Rightarrow> server" where
  "server_of s = \<lparr>sv_pc = Loop_Test, sv_mgr = ms_mgr s, sv_heap = ms_heap s, sv_tasks = [], sv_lost = [], sv_stop = False\<rparr>"

text \<open>
  Where the set-up ends: what is owned there is known; at the loop the server is in a start state with
  the listener and the pipe in its queue, and if one of their contexts failed it is not in the queue.
\<close>

definition set_up :: "nat set \<Rightarrow> main_label \<Rightarrow> main_state \<Rightarrow> bool" where
  "set_up base l s \<longleftrightarrow>
     (\<exists>ks. main_owns base ks l s \<and>
       (l = At_Loop \<longrightarrow> (\<exists>F. srv_start F (server_of s)) \<and> map (fd_of (ms_heap s)) ks = [ms_sfd s, fst (ms_pipe s)]) \<and>
       (l = At_Cleanup_Connections \<longrightarrow> map (fd_of (ms_heap s)) ks \<in> {[], [ms_sfd s]}))"

text \<open>The calls of the kernel and of \<open>malloc\<close> all succeed.\<close>

definition nothing_fails :: "start_env \<Rightarrow> main_state \<Rightarrow> bool" where
  "nothing_fails env s \<longleftrightarrow>
     st_pipe env \<noteq> -1 \<and> fst (setup_signal_handler_thread (st_sig env) (ms_blocked s)) = 0 \<and>
     (\<forall>n. grant (ch_mem (ms_heap s)) n) \<and> (\<forall>k n. tw_res (ms_world s) k n = 0) \<and>
     fst (nl_start_listener (Some ''1337'') (st_listen env)) \<noteq> -1"

lemma setup_listener_ok:
  assumes pool: "has_pool s P" and disj: "base \<inter> P = {}" and rep: "cm_rep (ms_heap s) (ms_mgr s) (base \<union> P) [] []"
    and clean: "cm_clean (ms_mgr s)" and conns: "ch_conns (ms_heap s) = Map.empty" and cap: "1 < queue_cap (ms_mgr s)"
    and fds: "0 < fst (ms_pipe s)" "\<forall>t \<in> set (le_addrs (st_listen env)). try_socket t = -1 \<or> 0 < try_socket t"
  shows "\<exists>l s'. setup_listener env s = Inr (l, s') \<and> set_up base l s' \<and>
    ((\<forall>n. grant (ch_mem (ms_heap s)) n) \<and> fst (nl_start_listener (Some ''1337'') (st_listen env)) \<noteq> -1 \<longrightarrow> l = At_Loop)"
proof -
  obtain sfd opened closed where ls: "nl_start_listener (Some ''1337'') (st_listen env) = (sfd, opened, closed)"
    by (metis surj_pair)
  define s1 where "s1 = s\<lparr>ms_sfd := sfd, ms_heap := (ms_heap s)\<lparr>ch_closed := ch_closed (ms_heap s) @ closed\<rparr>\<rparr>"
  have s1: "ms_mgr s1 = ms_mgr s" "ch_mem (ms_heap s1) = ch_mem (ms_heap s)" "ch_conns (ms_heap s1) = Map.empty"
    "ms_sfd s1 = sfd" "ms_pipe s1 = ms_pipe s" "ms_tp s1 = ms_tp s" "ms_world s1 = ms_world s"
    using conns by (simp_all add: s1_def)
  have rep1: "cm_rep (ms_heap s1) (ms_mgr s1) (base \<union> P) [] []" using rep by (simp add: s1_def)
  note mem = cm_rep_mem [OF rep1]
  have pool1: "has_pool s' P" if "cm_rep (ms_heap s') mgr (base \<union> P) [] ns" "ms_tp s' = ms_tp s1" "ms_world s' = ms_world s1"
    for s' mgr ns
    using has_pool_mem [OF pool] cm_rep_mem [OF that(1)] that(2,3) s1(6,7) by auto
  show ?thesis
  proof (cases "sfd = -1")
    case True
    then have "setup_listener env s = Inr (At_Destroy_Tpool, s1)"
      using ls by (simp add: setup_listener_def s1_def)
    moreover have "set_up base At_Destroy_Tpool s1"
      using pool1 [OF rep1] disj cm_rep_bare [OF rep1] by (auto simp: set_up_def main_owns_def)
    ultimately show ?thesis using ls True by simp
  next
    case False
    then have "0 < ms_sfd s1" using listener_fd [OF ls] fds(2) s1(4) by auto
    moreover have "0 < fst (ms_pipe s1)" "1 < queue_cap (ms_mgr s1)" using fds(1) cap s1 by simp_all
    ultimately obtain l h mgr ns where
      run: "setup_listener_conn env s1 = Inr (l, s1\<lparr>ms_mgr := mgr, ms_heap := h\<rparr>)"
      and l: "l \<in> {At_Cleanup_Connections, At_Loop}" and rep2: "cm_rep h mgr (base \<union> P) [] ns"
      and mgr: "\<exists>p. mgr = (ms_mgr s)\<lparr>mgr_new_conns := p\<rparr>" and refs: "\<forall>a c. ch_conns h a = Some c \<longrightarrow> cc_ref_count c = 0"
      and fd: "if l = At_Loop then map (fd_of h) ns = [sfd, fst (ms_pipe s)] else map (fd_of h) ns \<in> {[], [sfd]}"
      and good: "(\<forall>n. grant (ch_mem (ms_heap s)) n) \<longrightarrow> l = At_Loop"
      using setup_listener_conn_ok [OF rep1 s1(3), of env] unfolding s1 by blast
    let ?s = "s1\<lparr>ms_mgr := mgr, ms_heap := h\<rparr>"
    have "cm_clean mgr" using mgr clean by (auto simp: cm_clean_def)
    then have "srv_start (base \<union> P) (server_of ?s)"
      using rep2 refs by (auto simp: srv_start_def server_of_def)
    moreover have "main_owns base (addrs [] @ ns) l ?s"
      by (rule main_ownsI [OF l pool1 disj]) (use rep2 in simp_all)
    ultimately have "set_up base l ?s"
      using fd l s1 unfolding set_up_def by (intro exI [of _ ns]) (auto split: if_splits)
    moreover have "setup_listener env s = Inr (l, ?s)"
      using False ls run by (simp add: setup_listener_def s1_def)
    ultimately show ?thesis using good by blast
  qed
qed

lemma setup_tpool_ok:
  assumes rep: "cm_rep (ms_heap s) (ms_mgr s) base [] []" and clean: "cm_clean (ms_mgr s)"
    and conns: "ch_conns (ms_heap s) = Map.empty" and cap: "1 < queue_cap (ms_mgr s)"
    and fds: "0 < fst (ms_pipe s)" "\<forall>t \<in> set (le_addrs (st_listen env)). try_socket t = -1 \<or> 0 < try_socket t"
    and w: "sound (with_mem (ms_world s) (ch_mem (ms_heap s)))" "tw_inited (ms_world s) = {}"
      "tw_threads (ms_world s) = {}" "nodes (tw_heap (ms_world s)) = Map.empty" "\<And>t. \<not> tw_ends (ms_world s) t"
  shows "(setup_tpool env s = None \<or> (\<exists>l s'. setup_tpool env s = Some (Inr (l, s')) \<and> set_up base l s')) \<and>
    ((\<forall>n. grant (ch_mem (ms_heap s)) n) \<and> (\<forall>k n. tw_res (ms_world s) k n = 0) \<and>
      fst (nl_start_listener (Some ''1337'') (st_listen env)) \<noteq> -1 \<longrightarrow>
     (\<exists>s'. setup_tpool env s = Some (Inr (At_Loop, s'))))"
proof -
  let ?m = "ch_mem (ms_heap s)"
  let ?w = "with_mem (ms_world s) ?m"
  have w': "tw_inited ?w = {}" "tw_threads ?w = {}" "nodes (tw_heap ?w) = Map.empty" "\<And>t. \<not> tw_ends ?w t"
    "cq_mem (tw_heap ?w) = ?m" "tw_res ?w = tw_res (ms_world s)"
    using w by (simp_all add: with_mem_def)
  have n8: "NUM_THREADS \<noteq> 0" by (simp add: NUM_THREADS_def)
  have good: "\<exists>r w'. coin_tpool_init ?w True NUM_THREADS = Some (Inr (COIN_SUCCESS, r, w'))"
    if "\<forall>n. grant ?m n" "\<forall>k n. tw_res (ms_world s) k n = 0"
    using init_outcome [OF w(1) w'(1-3) _ n8] w'(4-6) that by (auto split: if_splits)
  show ?thesis
  proof (cases "coin_tpool_init ?w True NUM_THREADS")
    case None
    then show ?thesis using good by (auto simp: setup_tpool_def)
  next
    case (Some r)
    with tpool_init_ok [OF w(1) w'(1-4) n8] obtain st p_tp w1 where
      run: "coin_tpool_init ?w True NUM_THREADS = Some (Inr (st, p_tp, w1))" and k: "keeps ?w w1"
      and out: "if st = COIN_SUCCESS
       then \<exists>p pool P. p_tp = Own p pool \<and> num_workers pool = NUM_THREADS \<and> pool_rep w1 p pool [] P \<and>
         P \<inter> live ?m = {} \<and> blocks w1 = live ?m \<union> P \<and> \<not> tw_blocked w1
       else blocks w1 = live ?m"
      unfolding w'(5) by (auto split: if_splits; blast)
    define s1 where "s1 = s\<lparr>ms_tp := p_tp, ms_world := w1, ms_heap := (ms_heap s)\<lparr>ch_mem := cq_mem (tw_heap w1)\<rparr>\<rparr>"
    have s1: "ms_mgr s1 = ms_mgr s" "ms_heap s1 = (ms_heap s)\<lparr>ch_mem := cq_mem (tw_heap w1)\<rparr>" "ms_pipe s1 = ms_pipe s"
      "ms_tp s1 = p_tp" "ms_world s1 = w1"
      by (simp_all add: s1_def)
    have mok: "mem_ok (cq_mem (tw_heap w1))" and gr: "grant (cq_mem (tw_heap w1)) = grant ?m"
      using k w'(5) by (simp_all add: keeps_def)
    have sub: "base \<subseteq> live ?m" using cm_rep_mem [OF rep] by simp
    show ?thesis
    proof (cases "st = COIN_SUCCESS")
      case False
      then have "cm_bare (ms_heap s1) (ms_mgr s1) base"
        unfolding s1 using out sub by (intro cm_bare_frame [OF cm_rep_bare [OF rep] mok]) auto
      then have "set_up base At_Destroy_Connmgr s1" by (auto simp: set_up_def main_owns_def)
      moreover have "setup_tpool env s = Some (Inr (At_Destroy_Connmgr, s1))"
        using run False by (simp add: setup_tpool_def s1_def)
      ultimately show ?thesis using good run False by auto
    next
      case True
      then obtain p pool P where P: "p_tp = Own p pool" "pool_rep w1 p pool [] P" "P \<inter> live ?m = {}"
        "blocks w1 = live ?m \<union> P"
        using out by auto
      have "with_mem w1 (cq_mem (tw_heap w1)) = w1" by (simp add: with_mem_def)
      then have pool: "has_pool s1 P" using P(1,2) by (auto simp: has_pool_def s1)
      have disj: "base \<inter> P = {}" using P(3) sub by auto
      have "cm_rep (ms_heap s1) (ms_mgr s1) (base \<union> P) [] []"
        unfolding s1 using P(3,4) sub by (intro cm_rep_frame [OF rep mok]) auto
      from setup_listener_ok [OF pool disj this, of env] clean conns cap fds s1 gr obtain l s' where
        "setup_listener env s1 = Inr (l, s')" "set_up base l s'"
        "(\<forall>n. grant ?m n) \<and> fst (nl_start_listener (Some ''1337'') (st_listen env)) \<noteq> -1 \<longrightarrow> l = At_Loop"
        by auto
      moreover have "setup_tpool env s = Some (setup_listener env s1)"
        using run True by (simp add: setup_tpool_def s1_def)
      ultimately show ?thesis by auto
    qed
  qed
qed

lemma connmgr_init_keeps:
  assumes "connmgr_init m ra rq (Some mgr) n = Inr (0, Some mgr', m')"
  shows "eq_max_items (target (mgr_new_conns mgr')) = n \<and> grant m' = grant m"
  using assms
  by (auto simp: connmgr_init_def ezarr_init_def ezq_init_def alloc_def Let_def and_then_eq_Inr
      split: if_splits prod.splits option.splits owned.splits)

lemma setup_connmgr_ok:
  assumes fresh: "main_fresh env s \<and> ms_pipe s = st_pipe_fds env"
  shows "(setup_connmgr env s = None \<or>
      (\<exists>l s'. setup_connmgr env s = Some (Inr (l, s')) \<and> set_up (live (ch_mem (ms_heap s))) l s')) \<and>
    ((\<forall>n. grant (ch_mem (ms_heap s)) n) \<and> (\<forall>k n. tw_res (ms_world s) k n = 0) \<and>
      fst (nl_start_listener (Some ''1337'') (st_listen env)) \<noteq> -1 \<longrightarrow>
     (\<exists>s'. setup_connmgr env s = Some (Inr (At_Loop, s'))))"
proof -
  let ?m = "ch_mem (ms_heap s)"
  let ?init = "connmgr_init ?m (st_raw_a env) (st_raw_q env) (Some (ms_mgr s)) INITIAL_MAX_CONNS"
  have mok: "mem_ok ?m" and conns: "ch_conns (ms_heap s) = Map.empty"
    using fresh by (simp_all add: main_fresh_def sound_def with_mem_def)
  have n16: "0 < INITIAL_MAX_CONNS" by (simp add: INITIAL_MAX_CONNS_def)
  show ?thesis
  proof (cases "\<forall>i < 5. grant ?m (asked ?m + i)")
    case False
    from connmgr_init_refused [OF mok n16 this] obtain m' where
      m': "?init = Inr (-1, Some (ms_mgr s), m')" "same_live ?m m'" by blast
    define s1 where "s1 = s\<lparr>ms_heap := (ms_heap s)\<lparr>ch_mem := m'\<rparr>\<rparr>"
    have "setup_connmgr env s = Some (Inr (At_Join_Sig_Thread, s1))"
      using m'(1) by (simp add: setup_connmgr_def s1_def)
    moreover have "set_up (live ?m) At_Join_Sig_Thread s1"
      using m'(2) conns by (simp add: set_up_def main_owns_def s1_def same_live_def)
    ultimately show ?thesis using False by blast
  next
    case True
    from connmgr_init_ok [OF mok n16 this] obtain mgr m' where
      init: "?init = Inr (0, Some mgr, m')" and clean: "cm_clean mgr"
      and rep: "cm_rep \<lparr>ch_mem = m', ch_conns = Map.empty, ch_closed = []\<rparr> mgr (live ?m) [] []"
      by blast
    define s1 where "s1 = s\<lparr>ms_mgr := mgr, ms_heap := (ms_heap s)\<lparr>ch_mem := m'\<rparr>\<rparr>"
    have "ms_heap s1 = \<lparr>ch_mem = m', ch_conns = Map.empty, ch_closed = []\<rparr>\<lparr>ch_closed := ch_closed (ms_heap s)\<rparr>"
      and "ms_mgr s1 = mgr"
      using conns by (simp_all add: s1_def)
    then have rep1: "cm_rep (ms_heap s1) (ms_mgr s1) (live ?m) [] []"
      using rep by (simp only: cm_rep_closed)
    have kept: "1 < queue_cap (ms_mgr s1)" "grant (ch_mem (ms_heap s1)) = grant ?m"
      using connmgr_init_keeps [OF init] by (simp_all add: s1_def INITIAL_MAX_CONNS_def)
    have "setup_connmgr env s = setup_tpool env s1"
      using init by (simp add: setup_connmgr_def s1_def)
    moreover have "sound (with_mem (ms_world s1) (ch_mem (ms_heap s1)))"
      using fresh cm_rep_mem [OF rep1] by (simp add: main_fresh_def sound_def with_mem_def s1_def)
    ultimately show ?thesis
      using setup_tpool_ok [OF rep1, of env] clean conns kept fresh by (simp add: main_fresh_def s1_def) blast
  qed
qed

text \<open>
  Why the set-up ends at one of the first labels, and that from \<open>join_sig_thread\<close> on the signal thread
  runs: its signals are blocked, and the pipe is open.
\<close>

definition right_label :: "start_env \<Rightarrow> main_state \<Rightarrow> main_label \<Rightarrow> main_state \<Rightarrow> bool" where
  "right_label env s l s' \<longleftrightarrow>
     (let setup_err = fst (setup_signal_handler_thread (st_sig env) (ms_blocked s)); m = ch_mem (ms_heap s) in
      (l = At_End \<longleftrightarrow> st_pipe env = -1) \<and>
      (l = At_Close_Pipefds \<longleftrightarrow> st_pipe env \<noteq> -1 \<and> setup_err \<noteq> 0) \<and>
      (l \<noteq> At_End \<longrightarrow> ms_pipe s' = st_pipe_fds env) \<and>
      (l \<notin> {At_End, At_Close_Pipefds} \<longrightarrow>
        ms_blocked s' = ms_blocked s \<union> {SIGPIPE, SIGINT, SIGTERM} \<and>
        (l = At_Join_Sig_Thread \<longleftrightarrow> (\<exists>i < 5. \<not> grant m (asked m + i)))))"

lemma setup_pipe_conn_label:
  assumes "setup_pipe_conn env s = Inr (l, s')"
  shows "l \<in> {At_Cleanup_Connections, At_Loop} \<and> ms_pipe s' = ms_pipe s \<and> ms_blocked s' = ms_blocked s"
  using assms
  by (cases "connmgr_create_new_conn (ms_heap s) (st_raw_pipe env) 0 (fst (ms_pipe s)) (Some (ms_mgr s)) INTERNAL_CONN")
    (auto simp: setup_pipe_conn_def split: if_split_asm prod.split_asm option.split_asm)

lemma setup_listener_conn_label:
  assumes "setup_listener_conn env s = Inr (l, s')"
  shows "l \<in> {At_Cleanup_Connections, At_Loop} \<and> ms_pipe s' = ms_pipe s \<and> ms_blocked s' = ms_blocked s"
  using assms setup_pipe_conn_label [of env _ l s']
  by (cases "connmgr_create_new_conn (ms_heap s) (st_raw_listener env) 0 (ms_sfd s) (Some (ms_mgr s)) INTERNAL_CONN")
    (fastforce simp: setup_listener_conn_def Let_def split: if_split_asm prod.split_asm option.split_asm)+

lemma setup_listener_label:
  assumes "setup_listener env s = Inr (l, s')"
  shows "l \<in> {At_Destroy_Tpool, At_Cleanup_Connections, At_Loop} \<and> ms_pipe s' = ms_pipe s \<and> ms_blocked s' = ms_blocked s"
  using assms setup_listener_conn_label [of env _ l s']
  by (fastforce simp: setup_listener_def Let_def split: if_split_asm prod.split_asm)

lemma setup_tpool_label:
  assumes "setup_tpool env s = Some (Inr (l, s'))"
  shows "l \<notin> {At_End, At_Close_Pipefds, At_Join_Sig_Thread} \<and> ms_pipe s' = ms_pipe s \<and> ms_blocked s' = ms_blocked s"
proof -
  obtain r where "coin_tpool_init (with_mem (ms_world s) (ch_mem (ms_heap s))) True NUM_THREADS = Some r"
    using assms by (cases "coin_tpool_init (with_mem (ms_world s) (ch_mem (ms_heap s))) True NUM_THREADS")
      (simp_all add: setup_tpool_def)
  then show ?thesis
    using assms setup_listener_label [of env _ l s']
    by (cases r) (fastforce simp: setup_tpool_def Let_def split: if_splits prod.splits)+
qed

lemma setup_connmgr_label:
  assumes "setup_connmgr env s = Some (Inr (l, s'))" and "mem_ok (ch_mem (ms_heap s))"
  shows "l \<notin> {At_End, At_Close_Pipefds} \<and> ms_pipe s' = ms_pipe s \<and> ms_blocked s' = ms_blocked s \<and>
    (l = At_Join_Sig_Thread \<longleftrightarrow> (\<exists>i < 5. \<not> grant (ch_mem (ms_heap s)) (asked (ch_mem (ms_heap s)) + i)))"
proof -
  have n16: "0 < INITIAL_MAX_CONNS" by (simp add: INITIAL_MAX_CONNS_def)
  show ?thesis
  proof (cases "\<forall>i < 5. grant (ch_mem (ms_heap s)) (asked (ch_mem (ms_heap s)) + i)")
    case False
    from connmgr_init_refused [OF assms(2) n16 False] obtain m' where
      "connmgr_init (ch_mem (ms_heap s)) (st_raw_a env) (st_raw_q env) (Some (ms_mgr s)) INITIAL_MAX_CONNS =
        Inr (-1, Some (ms_mgr s), m')"
      by blast
    then show ?thesis
      using assms(1) False by (auto simp: setup_connmgr_def)
  next
    case True
    from connmgr_init_ok [OF assms(2) n16 True] obtain mgr m' where
      "connmgr_init (ch_mem (ms_heap s)) (st_raw_a env) (st_raw_q env) (Some (ms_mgr s)) INITIAL_MAX_CONNS =
        Inr (0, Some mgr, m')"
      by blast
    then show ?thesis
      using assms(1) True by (auto simp: setup_connmgr_def dest!: setup_tpool_label)
  qed
qed

subsection \<open>Properties\<close>

text \<open>
  C16: \<open>main\<close> up to its loop, for every failure of the calls it makes. It stays in defined behaviour,
  and unless \<open>coin_tpool_init\<close> never returns it ends at a label with exactly what that label
  expects: at the loop the manager, the pool and the connections of the listener and of the
  pipe, in this order in the queue, in a start state of the server; at an earlier label what was made so
  far and nothing else, except that a listener without a connection is owned by nobody at
  \<open>cleanup_connections\<close>. It leaves for \<open>end\<close>, \<open>close_pipefds\<close> and \<open>join_sig_thread\<close> exactly when there is
  no pipe, no signal thread, and no memory for the manager; where it does not, the thread runs with
  its signals blocked. When nothing fails it gets to the loop.
\<close>

theorem main_setup_correct:
  assumes "main_fresh env s"
  shows "(main_setup env s = None \<or>
      (\<exists>l s'. main_setup env s = Some (Inr (l, s')) \<and> set_up (live (ch_mem (ms_heap s))) l s' \<and>
        right_label env s l s')) \<and>
    (nothing_fails env s \<longrightarrow> (\<exists>s'. main_setup env s = Some (Inr (At_Loop, s'))))"
proof (cases "st_pipe env = -1 \<or> fst (setup_signal_handler_thread (st_sig env) (ms_blocked s)) \<noteq> 0")
  case True
  then show ?thesis
    using assms by (auto simp: main_setup_def set_up_def main_owns_def main_fresh_def nothing_fails_def right_label_def
      Let_def split: prod.splits)
next
  case False
  let ?base = "live (ch_mem (ms_heap s))"
  obtain sigs blocked started where sig: "setup_signal_handler_thread (st_sig env) (ms_blocked s) = (0, sigs, blocked, started)"
    using False by (metis prod.collapse)
  define s1 where "s1 = s\<lparr>ms_pipe := st_pipe_fds env, ms_sigs := sigs, ms_blocked := blocked\<rparr>"
  have run: "main_setup env s = setup_connmgr env s1"
    using False sig by (simp add: main_setup_def s1_def)
  have "main_fresh env s1 \<and> ms_pipe s1 = st_pipe_fds env"
    using assms by (simp add: main_fresh_def s1_def)
  moreover have s1: "ms_heap s1 = ms_heap s" "ms_world s1 = ms_world s" "ms_pipe s1 = st_pipe_fds env"
    "ms_blocked s1 = blocked" by (simp_all add: s1_def)
  moreover have "blocked = ms_blocked s \<union> {SIGPIPE, SIGINT, SIGTERM}"
    using sig by (auto simp: setup_signal_handler_thread_def Let_def split: if_splits)
  then have "right_label env s l s'" if "setup_connmgr env s1 = Some (Inr (l, s'))" for l s'
    using setup_connmgr_label [OF that] assms False s1
    by (auto simp: right_label_def Let_def main_fresh_def sound_def with_mem_def)
  ultimately show ?thesis
    using setup_connmgr_ok [of env s1] run by (auto simp: nothing_fails_def)
qed

text \<open>A start in which nothing fails: descriptors 4 and 5 for the pipe, 6 for the listener.\<close>

definition demo_listen_env :: listen_env where
  "demo_listen_env = \<lparr>le_getaddrinfo = 0, le_addrs = [\<lparr>try_socket = 6, try_setsockopt = 0, try_bind = 0\<rparr>], le_getfl = 2,
     le_setfl = (\<lambda>_. 0), le_listen = (\<lambda>_. 0)\<rparr>"

definition demo_start_env :: start_env where
  "demo_start_env = \<lparr>st_pipe = 0, st_pipe_fds = (4, 5),
     st_sig = \<lparr>sg_emptyset = 0, sg_add_pipe = 0, sg_add_int = 0, sg_add_term = 0, sg_mask = 0, sg_create = 0\<rparr>,
     st_raw_a = target (mgr_conns demo_mgr), st_raw_q = demo_queue, st_listen = demo_listen_env,
     st_raw_listener = demo_conn, st_raw_pipe = demo_conn\<rparr>"

definition demo_main_state :: main_state where
  "demo_main_state = \<lparr>ms_pipe = (0, 0), ms_sigs = {}, ms_blocked = {}, ms_mgr = demo_mgr,
     ms_heap = \<lparr>ch_mem = \<lparr>grant = (\<lambda>_. True), asked = 0, live = {}\<rparr>, ch_conns = Map.empty, ch_closed = []\<rparr>,
     ms_world = demo_world (\<lambda>_ _. 0), ms_tp = ONull, ms_sfd = -1\<rparr>"

lemma demo_main_fresh: "main_fresh demo_start_env demo_main_state"
  by (simp add: main_fresh_def demo_start_env_def demo_main_state_def demo_listen_env_def demo_world_def with_mem_def
      sound_def mem_ok_def)

lemma demo_nothing_fails: "nothing_fails demo_start_env demo_main_state"
  by (simp add: nothing_fails_def demo_start_env_def demo_main_state_def demo_listen_env_def demo_world_def
      setup_signal_handler_thread_def Let_def nl_start_listener_def nl_set_nonblocking_def)

theorem main_setup_correct_witness:
  "\<exists>s'. main_setup demo_start_env demo_main_state = Some (Inr (At_Loop, s')) \<and> set_up {} At_Loop s' \<and>
     (\<exists>F. srv_start F (server_of s'))"
proof -
  obtain s' where "main_setup demo_start_env demo_main_state = Some (Inr (At_Loop, s'))" "set_up {} At_Loop s'"
    using main_setup_correct [OF demo_main_fresh] demo_nothing_fails
    by (auto simp: demo_main_state_def)
  then show ?thesis by (auto simp: set_up_def)
qed

end
