(* ===== verification/Server_Exit.thy ===== *)
theory Server_Exit
  imports Server_Setup
begin

text \<open>
  The end of \<open>src/main.c\<close>: its labels, each falling through to the next, by the functions of the
  other theories. \<open>pthread_kill\<close> with \<open>SIGUSR1\<close> has the default action of that signal, for which
  the program installs no handler: it ends the process, unless the signal thread has it blocked
  or is gone.
\<close>

datatype process_end = Returned int | Killed signal_no

text \<open>
  \<open>so\<close> is what the signal thread has done by then. When it is still waiting and \<open>SIGUSR1\<close> does
  not end the process, \<open>pthread_join\<close> does not return (\<open>None\<close>), as nothing in the program wakes it.
\<close>

definition at_end :: "int \<Rightarrow> main_state \<Rightarrow> (cfault + (process_end \<times> main_state)) option" where
  [op_defs]: "at_end res s = Some (Inr (Returned res, s))"

definition at_close_pipefds :: "int \<Rightarrow> main_state \<Rightarrow> (cfault + (process_end \<times> main_state)) option" where
  [op_defs]: "at_close_pipefds res s =
     at_end res (s\<lparr>ms_heap := (ms_heap s)\<lparr>ch_closed := ch_closed (ms_heap s) @ [fst (ms_pipe s), snd (ms_pipe s)]\<rparr>\<rparr>)"

definition at_join_sig_thread ::
    "sig_outcome \<Rightarrow> int \<Rightarrow> main_state \<Rightarrow> (cfault + (process_end \<times> main_state)) option" where
  [op_defs]: "at_join_sig_thread so res s =
     (if \<not> so_shutdown so \<and> \<not> so_returned so \<and> SIGUSR1 \<notin> ms_blocked s then Some (Inr (Killed SIGUSR1, s))
      else if \<not> so_returned so then None
      else at_close_pipefds res s)"

definition at_destroy_connmgr ::
    "sig_outcome \<Rightarrow> int \<Rightarrow> main_state \<Rightarrow> (cfault + (process_end \<times> main_state)) option" where
  [op_defs]: "at_destroy_connmgr so res s =
     o_then (Some (connmgr_deinit (ch_mem (ms_heap s)) (Some (ms_mgr s)))) (\<lambda>(_, p_mgr, m).
       case p_mgr of None \<Rightarrow> Some (Inl Null_Deref)
       | Some mgr \<Rightarrow> at_join_sig_thread so res (s\<lparr>ms_mgr := mgr, ms_heap := (ms_heap s)\<lparr>ch_mem := m\<rparr>\<rparr>))"

definition at_destroy_tpool ::
    "sig_outcome \<Rightarrow> int \<Rightarrow> main_state \<Rightarrow> (cfault + (process_end \<times> main_state)) option" where
  [op_defs]: "at_destroy_tpool so res s =
     o_then (coin_tpool_destroy (with_mem (ms_world s) (ch_mem (ms_heap s))) (ms_tp s) False) (\<lambda>(_, w).
       at_destroy_connmgr so res
         (s\<lparr>ms_tp := ONull, ms_world := w, ms_heap := (ms_heap s)\<lparr>ch_mem := cq_mem (tw_heap w)\<rparr>\<rparr>))"

definition at_cleanup_connections ::
    "sig_outcome \<Rightarrow> int \<Rightarrow> main_state \<Rightarrow> (cfault + (process_end \<times> main_state)) option" where
  [op_defs]: "at_cleanup_connections so res s =
     o_then (Some (connmgr_destroy_all_conns (ms_heap s) (Some (ms_mgr s)))) (\<lambda>(_, p_mgr, h).
       case p_mgr of None \<Rightarrow> Some (Inl Null_Deref)
       | Some mgr \<Rightarrow> at_destroy_tpool so res (s\<lparr>ms_mgr := mgr, ms_heap := h\<rparr>))"

text \<open>
  \<open>main\<close> from a label on. \<open>res\<close> is 0 when the loop was left at its head or by \<open>break\<close>, after
  \<open>coin_tpool_wait\<close>, and -1 after every \<open>goto\<close>.
\<close>

definition main_exit ::
    "main_label \<Rightarrow> sig_outcome \<Rightarrow> int \<Rightarrow> main_state \<Rightarrow> (cfault + (process_end \<times> main_state)) option" where
  [op_defs]: "main_exit l so res s =
     (case l of
        At_End \<Rightarrow> at_end res s
      | At_Close_Pipefds \<Rightarrow> at_close_pipefds res s
      | At_Join_Sig_Thread \<Rightarrow> at_join_sig_thread so res s
      | At_Destroy_Connmgr \<Rightarrow> at_destroy_connmgr so res s
      | At_Destroy_Tpool \<Rightarrow> at_destroy_tpool so res s
      | At_Cleanup_Connections \<Rightarrow> at_cleanup_connections so res s
      | At_Loop \<Rightarrow> at_cleanup_connections so res s)"

subsection \<open>What each label gives back\<close>

text \<open>The end of the process, and the descriptors of the pipe closed on the way.\<close>

definition ends_with :: "sig_outcome \<Rightarrow> int \<Rightarrow> process_end" where
  "ends_with so res = (if so_returned so then Returned res else Killed SIGUSR1)"

definition pipe_closed :: "sig_outcome \<Rightarrow> int \<times> int \<Rightarrow> int list" where
  "pipe_closed so fds = (if so_returned so then [fst fds, snd fds] else [])"

text \<open>The signal thread is gone, or it waits, without the flag set, and \<open>SIGUSR1\<close> is not blocked.\<close>

definition joinable :: "sig_outcome \<Rightarrow> main_state \<Rightarrow> bool" where
  "joinable so s \<longleftrightarrow> so_returned so \<or> \<not> so_shutdown so \<and> SIGUSR1 \<notin> ms_blocked s"

lemma join_ok:
  assumes "joinable so s"
  shows "\<exists>s'. at_join_sig_thread so res s = Some (Inr (ends_with so res, s')) \<and>
    ch_mem (ms_heap s') = ch_mem (ms_heap s) \<and> ch_conns (ms_heap s') = ch_conns (ms_heap s) \<and>
    ch_closed (ms_heap s') = ch_closed (ms_heap s) @ pipe_closed so (ms_pipe s) \<and> ms_world s' = ms_world s"
  using assms
  by (auto simp: at_join_sig_thread_def at_close_pipefds_def at_end_def joinable_def ends_with_def pipe_closed_def)

lemma exit_connmgr_ok:
  assumes "cm_bare (ms_heap s) (ms_mgr s) base" and "joinable so s"
  shows "\<exists>s'. at_destroy_connmgr so res s = Some (Inr (ends_with so res, s')) \<and>
    live (ch_mem (ms_heap s')) = base \<and> ch_conns (ms_heap s') = Map.empty \<and>
    ch_closed (ms_heap s') = ch_closed (ms_heap s) @ pipe_closed so (ms_pipe s) \<and> ms_world s' = ms_world s"
proof -
  obtain mgr m where d: "connmgr_deinit (ch_mem (ms_heap s)) (Some (ms_mgr s)) = Inr (0, Some mgr, m)" "live m = base"
    using deinit_bare [OF assms(1)] by blast
  have "ch_conns (ms_heap s) = Map.empty" using assms(1) by (auto simp: cm_bare_def owns_def)
  then show ?thesis
    using join_ok [of so "s\<lparr>ms_mgr := mgr, ms_heap := (ms_heap s)\<lparr>ch_mem := m\<rparr>\<rparr>" res] assms(2) d
    by (fastforce simp: at_destroy_connmgr_def joinable_def)
qed

lemma exit_tpool_ok:
  assumes pool: "has_pool s P" and bare: "cm_bare (ms_heap s) (ms_mgr s) (base \<union> P)" and disj: "base \<inter> P = {}"
    and join: "joinable so s" and ok: "all_succeed (ms_world s)"
  shows "\<exists>s'. at_destroy_tpool so res s = Some (Inr (ends_with so res, s')) \<and>
    live (ch_mem (ms_heap s')) = base \<and> ch_conns (ms_heap s') = Map.empty \<and>
    ch_closed (ms_heap s') = ch_closed (ms_heap s) @ pipe_closed so (ms_pipe s) \<and> tw_threads (ms_world s') = {}"
proof -
  let ?w = "with_mem (ms_world s) (ch_mem (ms_heap s))"
  obtain p pool qs where p: "ms_tp s = Own p pool" "pool_rep ?w p pool qs P"
    using pool by (auto simp: has_pool_def)
  have own: "mem_ok (ch_mem (ms_heap s))" "base \<union> P \<subseteq> live (ch_mem (ms_heap s))"
    using bare by (auto simp: cm_bare_def owns_def)
  have "all_succeed ?w" "mem_ok (cq_mem (tw_heap ?w))" using ok own by (simp_all add: all_succeed_def with_mem_def)
  from destroy_ok [OF p(2) this(2,1)] obtain w where w: "coin_tpool_destroy ?w (Own p pool) False = Some (Inr (COIN_SUCCESS, w))"
    "blocks w = live (ch_mem (ms_heap s)) - P" "tw_threads w = {}" "mem_ok (cq_mem (tw_heap w))"
    by (auto simp: with_mem_def)
  define s1 where "s1 = s\<lparr>ms_tp := ONull, ms_world := w, ms_heap := (ms_heap s)\<lparr>ch_mem := cq_mem (tw_heap w)\<rparr>\<rparr>"
  have "cm_bare (ms_heap s1) (ms_mgr s1) base"
    using cm_bare_frame [OF bare w(4), of base] w(2) own(2) disj by (auto simp: s1_def)
  moreover have "joinable so s1" using join by (simp add: joinable_def s1_def)
  ultimately show ?thesis
    using exit_connmgr_ok [of s1 base so res] w(1,3) p(1)
    by (auto simp: at_destroy_tpool_def s1_def)
qed

lemma exit_connections_ok:
  assumes own: "main_owns base ks l s" and l: "l \<in> {At_Cleanup_Connections, At_Loop}"
    and join: "joinable so s" and ok: "all_succeed (ms_world s)"
  shows "\<exists>s'. at_cleanup_connections so res s = Some (Inr (ends_with so res, s')) \<and>
    live (ch_mem (ms_heap s')) = base \<and> ch_conns (ms_heap s') = Map.empty \<and>
    ch_closed (ms_heap s') = ch_closed (ms_heap s) @ map (fd_of (ms_heap s)) ks @ pipe_closed so (ms_pipe s) \<and>
    tw_threads (ms_world s') = {}"
proof -
  obtain P xs ns where r: "has_pool s P" "base \<inter> P = {}" "cm_rep (ms_heap s) (ms_mgr s) (base \<union> P) xs ns" "ks = addrs xs @ ns"
    using own l by (auto simp: main_owns_def)
  from destroy_all_bare [OF r(3)] obtain mgr h where d:
    "connmgr_destroy_all_conns (ms_heap s) (Some (ms_mgr s)) = Inr (0, Some mgr, h)"
    "ch_closed h = ch_closed (ms_heap s) @ map (fd_of (ms_heap s)) ks" "cm_bare h mgr (base \<union> P)"
    unfolding r(4) by blast
  define s1 where "s1 = s\<lparr>ms_mgr := mgr, ms_heap := h\<rparr>"
  have "mem_ok (ch_mem h)" "P \<subseteq> live (ch_mem h)" using d(3) by (auto simp: cm_bare_def owns_def)
  then have "has_pool s1 P" by (intro has_pool_mem [OF r(1)]) (simp_all add: s1_def)
  then show ?thesis
    using exit_tpool_ok [of s1 P base so res] d r(2) join ok
    by (auto simp: at_cleanup_connections_def s1_def joinable_def)
qed

lemma signal_thread_flag: "so_shutdown (signal_thread_fn rs) \<Longrightarrow> so_returned (signal_thread_fn rs)"
  by (induction rs rule: signal_thread_fn.induct) (auto split: if_splits)

subsection \<open>Properties\<close>


text \<open>A server with two connections, on descriptors 20 and 21, and a pool of one worker.\<close>

definition demo_exit_pool :: coin_threadpool_t where
  "demo_exit_pool = \<lparr>p_threads = Own 12 [\<lparr>tid = 7, thr_status = COIN_THREAD_STARTED, p_retval = NULL\<rparr>],
     p_ctx = Own 13 \<lparr>ctx_b_shutdown = False, p_work_queue = Own 14 \<lparr>p_head = NULL, p_tail = NULL, cq_size = 0\<rparr>,
       ctx_active_tasks = 0\<rparr>, num_workers = 1\<rparr>"

definition demo_exit_mem :: mem where
  "demo_exit_mem = (ch_mem demo_cm_heap)\<lparr>asked := 15, live := {0, 1, 2, 3, 4, 5, 6, 7, 8, 9, 10} \<union> {11, 12, 13, 14}\<rparr>"

definition demo_exit :: main_state where
  "demo_exit = \<lparr>ms_pipe = (4, 5), ms_sigs = {SIGPIPE, SIGINT, SIGTERM}, ms_blocked = {SIGPIPE, SIGINT, SIGTERM},
     ms_mgr = demo_mgr, ms_heap = demo_cm_heap\<lparr>ch_mem := demo_exit_mem\<rparr>,
     ms_world = demo_pool_world (\<lambda>_ _. 0), ms_tp = Own 11 demo_exit_pool, ms_sfd = 6\<rparr>"

lemma demo_exit_owns: "main_owns {} (addrs [NULL, Addr 5, NULL] @ [8]) At_Loop demo_exit"
proof (rule main_ownsI)
  show "has_pool demo_exit {11, 12, 13, 14}"
    unfolding has_pool_def
    by (intro exI [of _ 11] exI [of _ demo_exit_pool] exI [of _ "[]"] conjI pool_repI)
      (auto simp: demo_exit_def demo_exit_pool_def demo_exit_mem_def demo_pool_world_def demo_world_def with_mem_def
        cq_rep_def last_ptr_def mem_ok_def task_blocks_def)
  have "mem_ok demo_exit_mem" by (auto simp: demo_exit_mem_def mem_ok_def)
  moreover have "live (ch_mem demo_cm_heap) = {0, 1, 2, 3, 4, 5, 6, 7, 8, 9, 10}" by (simp add: demo_cm_heap_def)
  ultimately show "cm_rep (ms_heap demo_exit) (ms_mgr demo_exit) ({} \<union> {11, 12, 13, 14}) [NULL, Addr 5, NULL] [8]"
    using cm_rep_frame [OF demo_mgr_rep, of demo_exit_mem "{11, 12, 13, 14}"]
    by (simp add: demo_exit_def demo_exit_mem_def)
qed simp_all


end
