(* ===== verification/Logging.thy ===== *)
theory Logging
  imports Main
begin

text \<open>
  The log macros of \<open>src/common.h\<close> as they are in a debug build: the levels in their order, the
  threshold \<open>LOG_LEVEL\<close>, and the line that \<open>LOG_MSG\<close> prints. With \<open>NDEBUG\<close> nothing is printed.
  No other theory depends on the log lines.
\<close>

datatype log_level_t = LOG_DEBUG | LOG_INFO | LOG_WARN | LOG_ERROR | LOG_FATAL

primrec level_number :: "log_level_t \<Rightarrow> nat" where
  "level_number LOG_DEBUG = 0"
| "level_number LOG_INFO = 1"
| "level_number LOG_WARN = 2"
| "level_number LOG_ERROR = 3"
| "level_number LOG_FATAL = 4"

text \<open>The levels are compared as the numbers of the enumeration.\<close>

instantiation log_level_t :: linorder
begin

definition less_eq_log_level_t :: "log_level_t \<Rightarrow> log_level_t \<Rightarrow> bool" where
  "less_eq_log_level_t x y \<longleftrightarrow> level_number x \<le> level_number y"

definition less_log_level_t :: "log_level_t \<Rightarrow> log_level_t \<Rightarrow> bool" where
  "less_log_level_t x y \<longleftrightarrow> level_number x < level_number y"

instance
proof
  fix x y z :: log_level_t
  show "x < y \<longleftrightarrow> x \<le> y \<and> \<not> y \<le> x" "x \<le> x" "x \<le> y \<Longrightarrow> y \<le> z \<Longrightarrow> x \<le> z" "x \<le> y \<or> y \<le> x"
    by (auto simp: less_eq_log_level_t_def less_log_level_t_def)
  show "x \<le> y \<Longrightarrow> y \<le> x \<Longrightarrow> x = y"
    by (cases x; cases y) (simp_all add: less_eq_log_level_t_def)
qed

end

definition ESC :: char where "ESC = CHR 0x1B"

primrec level_color :: "log_level_t \<Rightarrow> string" where
  "level_color LOG_DEBUG = ESC # ''[37m''"
| "level_color LOG_INFO = ESC # ''[32m''"
| "level_color LOG_WARN = ESC # ''[33m''"
| "level_color LOG_ERROR = ESC # ''[31m''"
| "level_color LOG_FATAL = ESC # ''[31m''"

primrec level_name :: "log_level_t \<Rightarrow> string" where
  "level_name LOG_DEBUG = ''LOG_DEBUG''"
| "level_name LOG_INFO = ''LOG_INFO''"
| "level_name LOG_WARN = ''LOG_WARN''"
| "level_name LOG_ERROR = ''LOG_ERROR''"
| "level_name LOG_FATAL = ''LOG_FATAL''"

text \<open>What follows the last slash of the file's name, or all of it.\<close>

definition short_file_name :: "string \<Rightarrow> string" where
  "short_file_name file = rev (takeWhile (\<lambda>c. c \<noteq> CHR ''/'') (rev file))"

text \<open>\<open>line\<close> is the line number in decimal, \<open>msg\<close> the formatted message.\<close>

definition LOG_MSG :: "log_level_t \<Rightarrow> log_level_t \<Rightarrow> string \<Rightarrow> string \<Rightarrow> string \<Rightarrow> string" where
  "LOG_MSG threshold level file line msg =
     (if threshold \<le> level then
        ''['' @ level_color level @ level_name level @ ESC # ''[0m]['' @ short_file_name file @ '':'' @ line @ ''] '' @
        msg @ ''\<newline>''
      else [])"

text \<open>A higher threshold prints a part of what a lower one prints, and everything has its level.\<close>

lemma log_threshold:
  "lo \<le> hi \<Longrightarrow> LOG_MSG hi level file line msg \<in> {[], LOG_MSG lo level file line msg}"
  by (auto simp: LOG_MSG_def)

lemma log_default: "LOG_MSG LOG_DEBUG level file line msg \<noteq> []"
  by (simp add: LOG_MSG_def less_eq_log_level_t_def)

lemma short_file_name_example: "short_file_name ''/srv/src/main.c'' = ''main.c'' \<and> short_file_name ''main.c'' = ''main.c''"
  by (simp add: short_file_name_def)

end
