(* ===== verification/Spec2Isabelle.thy ===== *)
theory Spec2Isabelle
  imports Ez_Queue Coin_Queue Client_Server Tpool_Progress Tpool_Wait Server_Pool_Run Server_Sweep Server_Exit Logging
begin

text \<open>
  A verification library for a multithreaded TCP server in C: \<open>src/src/main.c\<close> with the libraries
  of \<open>src/src/libs\<close>.

  \<^bold>\<open>The program.\<close> The main thread polls the connections of a connection manager
  (\<open>libs/connmgr\<close>), accepts new ones (\<open>libs/net_io\<close>) and, for each event, submits a task to a thread
  pool (\<open>libs/concurinc\<close>). A task holds the mutex of its connection, reads a part of a request or
  writes a reply (\<open>libs/net_io\<close>), and lowers the connection's reference count. Requests and replies
  are frames of a ping protocol (\<open>libs/protocols/pong.c\<close>). The manager keeps its connections in a
  growing array (\<open>libs/ezarray\<close>), a poll array beside it, and a ring buffer (\<open>libs/ezqueue\<close>) of new
  connections. A signal thread turns \<open>SIGINT\<close> and \<open>SIGTERM\<close> into a flag and a byte in a pipe.

  \<^bold>\<open>How C is modelled\<close> (\<open>C_Prelude\<close>). A structure is a record whose fields have the names of the
  code with a prefix; enumerations are datatypes; \<open>uint16_t\<close>, \<open>uint8_t\<close> and \<open>size_t\<close> are words of
  16, 8 and 64 bits; \<open>int\<close> is \<open>int\<close> where it holds a result or a small count. A heap block is a
  value of type \<open>owned\<close> with the number of its allocation; \<open>mem\<close> is the ledger of live blocks with
  an oracle \<open>grant\<close> that says which requests succeed, so every theorem holds for every pattern of
  failing allocations. A memory cell is \<open>Indet\<close> until it is written. Undefined behaviour is a value
  of type \<open>cfault\<close> (null dereference, index out of bounds, use after free, bad free, reading an
  indeterminate cell, locking an uninitialised mutex, a failed assertion); a function returns
  \<open>cfault + result\<close>, so "never leaves defined behaviour" is an \<open>Inr\<close>. \<open>NULL\<close> arguments and error
  codes are branches as in the code; the log lines are left out of the operations.
  Functions of the kernel and of \<open>pthread\<close> are arguments: results of the calls, scripts of what a
  socket does, the host's byte order.

  \<^bold>\<open>Theories.\<close>
  \<^item> \<open>Fifo_Interface\<close>: the interface of a queue as a locale (enqueue, dequeue, abstraction and when
    an insertion is accepted). Proved once: a run gives the answers of a plain list, refusals
    included. Interpreted in \<open>Ez_Queue\<close> and \<open>Coin_Queue\<close> on the code's operations.
  \<^item> \<open>Ez_Array\<close>, \<open>Ez_Queue\<close>: \<open>ezarray.c\<close> and \<open>ezqueue.c\<close>. \<open>ea_rep\<close> and \<open>eq_rep\<close> relate a structure to
    the list it holds; lemmas for each operation give all outcomes (room, growth, refusal).
  \<^item> \<open>Free_Func\<close>: the contract of the \<open>free_func\<close> that a client passes with its container, as a locale:
    freeing one owned item; what clearing a whole queue does follows. Interpreted in \<open>Conn_Mgr\<close> on
    \<open>connmgr_destroy_conn\<close>, used for the queue and for the active connections.
  \<^item> \<open>Byte_Order\<close>, \<open>Pong\<close>: \<open>htons\<close>/\<open>ntohs\<close> on both byte orders, \<open>proto_pingpong_create_response\<close>
    against the abstract reply \<open>reply_to\<close>.
  \<^item> \<open>Coin_Queue\<close>: the linked task queue \<open>coin_queue.c\<close> in a store of nodes.
  \<^item> \<open>Conn_Ctx\<close>, \<open>Conn_Mgr\<close>, \<open>Conn_Update\<close>, \<open>Conn_Grow\<close>: \<open>connmgr.c\<close>. \<open>cm_rep h mgr F xs ns\<close> says that the
    two arrays hold \<open>xs\<close>, the queue \<open>ns\<close>, and that the live blocks are exactly the manager's, its
    connections' and \<open>F\<close>; \<open>Conn_Grow\<close> treats arrays that have grown and hold unwritten cells.
  \<^item> \<open>Net_IO\<close>, \<open>Listener\<close>: \<open>netio.c\<close>. \<open>recv_loop\<close> and \<open>send_loop\<close> run on scripts of arbitrary length and
    terminate by their length; \<open>reading\<close>, \<open>replying\<close> and \<open>half_sent\<close> are the states of a connection;
    \<open>nl_accept\<close>, \<open>nl_start_listener\<close> and \<open>nl_set_nonblocking\<close> are in \<open>Listener\<close>.
  \<^item> \<open>Tpool\<close>, \<open>Tpool_Life\<close>, \<open>Tpool_Wait\<close>: the functions of \<open>concurinc.c\<close> that the owner of a pool calls, with
    the results of every \<open>pthread\<close> call as an oracle; \<open>coin_tpool_wait\<close> may not return and is a
    \<open>partial_function (option)\<close>: that it returns once the pool is idle is proved.
  \<^item> \<open>Step_Systems\<close>: reachable states, and the locales \<open>step_invariant\<close>, \<open>refinement\<close> and \<open>projection\<close>
    whose lemmas carry over from one step to all runs; interpreted on the pool, the server and both
    together. \<open>Pool_Interface\<close>: the contract \<open>task_pool\<close> of a pool for the code that submits to it, with
    the bag of tasks as its abstract machine; interpreted on the pool in \<open>Tpool_Contract\<close>.
  \<^item> \<open>Tpool_Steps\<close>, \<open>Tpool_Live\<close>, \<open>Tpool_Progress\<close> (runs in \<open>Tpool_Demo\<close>): \<open>coin_thread_worker\<close>
    and the owner as a step relation with one step for each action between two synchronisation points; the invariants hold for any number
    of workers and any interleaving, those of \<open>Tpool_Live\<close> when no \<open>pthread\<close> call fails.
  \<^item> \<open>Server\<close>, \<open>Server_Frame\<close>, \<open>Server_Inv\<close>, \<open>Server_Run\<close>: \<open>main.c\<close>. \<open>main_step\<close> does one piece of \<open>main\<close>
    (the test of the loop, one entry of the sweep, the update, the poll, the three parts of an
    iteration over the events, the labels of the clean-up); \<open>srv_step\<close> interleaves it with the tasks
    \<open>task_io_read\<close> and \<open>task_io_send\<close> and the signal. \<open>Server_Inv\<close> proves that the reference counts
    are right and the manager complete up to the clean-up, \<open>Server_Run\<close> what follows from it, and
    \<open>Server_Sweep\<close> what a whole pass of the first loop does.
  \<^item> \<open>Server_Pool\<close>, \<open>Server_Pool_Run\<close>: \<open>main.c\<close> on top of \<open>concurinc.c\<close>. \<open>sys_step\<close> interleaves the pieces
    of the main thread with the steps of the workers and with the main thread's own steps inside
    the calls of the pool. It refines both \<open>srv_step\<close> and \<open>tp_step\<close>, and the outstanding tasks of the
    server are those of the pool, so the theorems about either hold of the whole.
  \<^item> \<open>Session\<close>: any number of requests in order on one connection, from the bytes of each request to
    those of its reply, by reading and sending tasks run one after the other.
  \<^item> \<open>Client\<close>: the test client \<open>tests/client.py\<close>, with the part of Python's \<open>struct\<close> that it uses and
    the socket as a record of functions; the locale \<open>answering_peer\<close> says what the client needs of the
    other side. \<open>Client_Server\<close> interprets it on the server's connection, through \<open>Session\<close>.
  \<^item> \<open>Server_Setup\<close>, \<open>Server_Exit\<close>: the signal thread, and \<open>main\<close> before and after its loop, by the
    functions of the other theories. \<open>main_setup\<close> ends at a label or at the loop, in a start state of
    \<open>srv_step\<close>; \<open>main_owns\<close> says what \<open>main\<close> owns there, and \<open>main_exit\<close> is shown to give it back.
  \<^item> \<open>Logging\<close>: the levels and the line of the log macro of \<open>common.h\<close>.

  \<^bold>\<open>What the theorems show.\<close> The queues are first-in first-out through growth and failing
  allocations; the reply function equals the protocol; a request is answered whatever the pieces it
  arrives in, and the test client plays its volleys against the server; the manager's operations
  keep their containers in step and leak nothing; the pool runs every submitted task exactly once, without lost wake-ups or deadlock, and can be stopped;
  while the server serves, no task and no piece of the main loop touches a freed connection, and a
  connection is closed only when it is idle. The theorems of kind "error" show where the code
  does not do this: compaction after growth reads unwritten cells, a reply that is sent in two
  parts is corrupted, a long frame overflows the receive buffer, \<open>coin_tpool_wait\<close> returns early,
  the shutdown frees connections that tasks still use, a failing \<open>coin_tpool_init\<close> may never return,
and at its end \<open>main\<close> closes one descriptor twice or is ended by its own \<open>SIGUSR1\<close>.

  \<^bold>\<open>Assumptions and bounds.\<close> Descriptors given to the manager are positive (0 marks a free entry of
  the poll array). A mutex that was initialised can be locked and destroyed; where the code handles
  an error of a lock or unlock, the branch is in the model, where it only logs it, the result is
  ignored. The theorems about whole requests are for a little-endian host, as the code reads
  the length of a frame correctly on no other; those on lost wake-ups, progress and stopping are
  for runs in which no \<open>pthread\<close> call fails, and so is what \<open>coin_tpool_destroy\<close> gives back. There is
  one allocator, which \<open>Server_Setup\<close> and \<open>Server_Exit\<close> pass between manager and pool; what the signal
  thread does is a script of the results of \<open>sigwait\<close>. A task is one step of the server, because it runs under its connection's mutex; the
  pieces of the main thread end where it takes or gives back a mutex. \<open>srv_step\<close> sees the pool through
  its contract: a submission that succeeds is queued, one that fails may be queued or not
  (\<open>tpool_submit_correct\<close>), and waiting may return at any time (\<open>tpool_wait_returns_early\<close>); that the
  pool keeps this contract is \<open>threads_refine_server\<close>. In \<open>sys_step\<close> a worker runs a task only when the
  main thread does not hold the mutex of its connection, and the identity of a task object is not
  used again. The
  reference counts are unbounded integers; a count is at most the number of queued and running
  tasks. The fuel-free loops are all total; runs of the server and the pool are finite prefixes.

  \<^bold>\<open>Not modelled.\<close> Of the test client, the argument parsing, the random choices and the executor that
  runs several clients; the build scripts; the output of the log lines inside the operations.
\<close>

end
